(* ===== verification/Prelude.thy ===== *)
theory Prelude
  imports Main "HOL-Library.Word"
begin

text \<open>
  Shared vocabulary: the C integer types as words, the value of word operations when they do not overflow
  (collection \<open>word_vals\<close>), little-endian byte strings, and \<^verbatim>\<open>memcpy\<close> into an array.
\<close>

unbundle bit_operations_syntax

type_synonym u8 = "8 word"
type_synonym u16 = "16 word"
type_synonym u32 = "32 word"
type_synonym u64 = "64 word"
type_synonym u128 = "128 word"

named_theorems word_vals

lemma uint_add_fits [word_vals]:
  fixes a b :: "'a::len word"
  shows "uint a + uint b < 2 ^ LENGTH('a) \<Longrightarrow> uint (a + b) = uint a + uint b"
  by (simp add: uint_word_ariths)

lemma uint_mult_fits [word_vals]:
  fixes a b :: "'a::len word"
  shows "uint a * uint b < 2 ^ LENGTH('a) \<Longrightarrow> uint (a * b) = uint a * uint b"
  by (simp add: uint_word_ariths)

lemma uint_sub_fits [word_vals]:
  fixes a b :: "'a::len word"
  shows "uint b \<le> uint a \<Longrightarrow> uint (a - b) = uint a - uint b"
  by (metis uint_minus_simple_alt word_le_def)

lemma uint_drop_bit_div [word_vals]:
  fixes a :: "'a::len word"
  shows "uint (drop_bit n a) = uint a div 2 ^ n"
  by (simp add: unsigned_drop_bit_eq take_bit_int_eq_self uint_bounded flip: drop_bit_eq_div)

lemma uint_and_mask_mod [word_vals]:
  fixes a :: "'a::len word"
  shows "uint (a AND mask n) = uint a mod 2 ^ n"
  by (simp add: take_bit_eq_mask [symmetric] take_bit_eq_mod [symmetric] unsigned_take_bit_eq)

lemma uint_push_bit_mod [word_vals]:
  fixes a :: "'a::len word"
  shows "uint (push_bit n a) = uint a * 2 ^ n mod 2 ^ LENGTH('a)"
  by (simp add: unsigned_push_bit_eq flip: push_bit_eq_mult take_bit_eq_mod)

lemma uint_ucast_up [word_vals]:
  fixes a :: "'a::len word"
  shows "LENGTH('a) \<le> LENGTH('b::len) \<Longrightarrow> uint (ucast a :: 'b word) = uint a"
  by (simp add: unsigned_ucast_eq take_bit_int_eq_self_iff)
    (meson less_le_trans one_le_numeral power_increasing uint_lt2p uint_bounded)
 
lemma uint_ucast_down [word_vals]:
  fixes a :: "'a::len word"
  shows "uint (ucast a :: 'b::len word) = uint a mod 2 ^ LENGTH('b)"
  by (simp add: unsigned_ucast_eq take_bit_eq_mod)

lemma uint_or_disjoint:
  fixes a b :: "'a::len word"
  assumes "uint a < 2 ^ n" and "2 ^ n dvd uint b"
  shows "uint (a OR b) = uint a + uint b"
proof -
  have "a AND b = 0"
  proof (rule bit_word_eqI)
    fix m assume "m < LENGTH('a)"
    show "bit (a AND b) m \<longleftrightarrow> bit (0 :: 'a word) m"
    proof (cases "m < n")
      case True
      have "\<not> bit (uint b) m"
        using assms(2) True
        by (metis bit_take_bit_iff dvd_imp_mod_0 take_bit_eq_mod bit_0_eq bot_fun_def bot_bool_def)
      then show ?thesis by (simp add: bit_and_iff bit_uint_iff)
          (metis bit_uint_iff bit_imp_le_length)
    next
      case False
      have "\<not> bit (uint a) m"
        using assms(1) False
        by (metis bit_take_bit_iff not_le take_bit_int_eq_self uint_ge_0)
      then show ?thesis by (simp add: bit_and_iff bit_uint_iff)
          (metis bit_uint_iff bit_imp_le_length)
    qed
  qed
  then have "uint a AND uint b = 0"
    by (metis unsigned_0 unsigned_and_eq)
  then show ?thesis
    by (simp add: unsigned_or_eq disjunctive_add_eq_or)
qed

lemma uint_sint_nonneg:
  fixes w :: "'a::len word"
  assumes "0 \<le> sint w"
  shows "uint w = sint w"
proof -
  have "sint w < 2 ^ LENGTH('a)"
    by (rule less_le_trans [OF sint_lt power_increasing]) simp_all
  then show ?thesis unfolding uint_sint using assms by (simp add: take_bit_int_eq_self)
qed

section \<open>Little-endian byte strings\<close>

fun le_val :: "u8 list \<Rightarrow> int" where
  "le_val [] = 0"
| "le_val (b # bs) = uint b + 256 * le_val bs"

lemma le_val_append: "le_val (xs @ ys) = le_val xs + 256 ^ length xs * le_val ys"
  by (induction xs) (auto simp: algebra_simps)

lemma le_val_nonneg [simp]: "0 \<le> le_val bs"
  by (induction bs) auto

lemma le_val_bound: "le_val bs < 256 ^ length bs"
proof (induction bs)
  case (Cons b bs)
  then have "uint b < 256" "le_val bs + 1 \<le> 256 ^ length bs" using uint_bounded [of b] by auto
  then show ?case by simp
qed simp

lemma le_val_inject: "length xs = length ys \<Longrightarrow> le_val xs = le_val ys \<Longrightarrow> xs = ys"
proof (induction xs ys rule: list_induct2)
  case (Cons x xs y ys)
  have b: "0 \<le> uint x" "uint x < 256" "0 \<le> uint y" "uint y < 256" using uint_bounded [of x] uint_bounded [of y] by simp_all
  have "uint x = le_val (x # xs) mod 256" "uint y = le_val (y # ys) mod 256" using b by simp_all
  then have "uint x = uint y" using arg_cong [OF Cons.prems, of "\<lambda>v. v mod 256"] by simp
  with Cons show ?case by (simp add: word_uint_eq_iff)
qed simp

text \<open>The bytes of a word, lowest first, as the store loops of the C code write them.\<close>

definition le_bytes :: "nat \<Rightarrow> 'a::len word \<Rightarrow> u8 list" where
  "le_bytes n v = map (\<lambda>i. ucast (drop_bit (8 * i) v)) [0..<n]"

lemma length_le_bytes [simp]: "length (le_bytes n v) = n"
  by (simp add: le_bytes_def)

lemma le_val_le_bytes: "le_val (le_bytes n v) = uint v mod 256 ^ n"
proof (induction n)
  case (Suc n)
  have "le_val (le_bytes (Suc n) v) = le_val (le_bytes n v) + 256 ^ n * (uint v div 2 ^ (8 * n) mod 256)"
    by (simp add: le_bytes_def le_val_append uint_ucast_down uint_drop_bit_div)
  also have "\<dots> = uint v mod (256 ^ n * 256)"
    by (simp add: Suc zmod_zmult2_eq power_mult)
  finally show ?case by (simp add: mult.commute)
qed (simp add: le_bytes_def)

lemma le_val_le_bytes_all: "LENGTH('a) = 8 * n \<Longrightarrow> le_val (le_bytes n (v :: 'a::len word)) = uint v"
proof -
  assume "LENGTH('a) = 8 * n"
  then have "(256::int) ^ n = 2 ^ LENGTH('a)" by (simp add: power_mult)
  then show ?thesis using uint_bounded [of v] by (simp add: le_val_le_bytes)
qed

fun le_or :: "u8 list \<Rightarrow> nat \<Rightarrow> 'a::len word" where
  "le_or [] k = 0"
| "le_or (b # bs) k = push_bit k (ucast b) OR le_or bs (k + 8)"

lemma uint_le_or:
  "k + 8 * length bs \<le> LENGTH('a) \<Longrightarrow> uint (le_or bs k :: 'a::len word) = le_val bs * 2 ^ k"
proof (induction bs arbitrary: k)
  case (Cons b bs)
  have b: "uint b < 256" using uint_bounded [of b] by simp
  have lt: "uint b * 2 ^ k < 2 ^ (k + 8)" using b by (simp add: power_add)
  have le: "(2::int) ^ (k + 8) \<le> 2 ^ LENGTH('a)" using Cons.prems by (intro power_increasing) auto
  have p: "uint (push_bit k (ucast b) :: 'a word) = uint b * 2 ^ k"
    using less_le_trans [OF lt le] Cons.prems by (simp add: uint_push_bit_mod uint_ucast_up)
  have ih: "uint (le_or bs (k + 8) :: 'a word) = le_val bs * 2 ^ (k + 8)"
    using Cons by simp
  have "uint (push_bit k (ucast b) OR le_or bs (k + 8) :: 'a word) = uint b * 2 ^ k + le_val bs * 2 ^ (k + 8)"
    using lt by (subst uint_or_disjoint [where n = "k + 8"]) (simp_all only: p ih dvd_triv_right)
  then show ?case by (simp add: algebra_simps power_add)
qed simp

lemma nth_take_drop_8:
  assumes "i + 8 \<le> length p"
  shows "take 8 (drop i p) = [p ! i, p ! (i + 1), p ! (i + 2), p ! (i + 3), p ! (i + 4), p ! (i + 5), p ! (i + 6), p ! (i + 7)]"
  using assms by (intro nth_equalityI) (auto simp: less_Suc_eq numeral_eq_Suc)

section \<open>Block copies\<close>

text \<open>\<^verbatim>\<open>memcpy(dst + i, src, n)\<close> into an array.\<close>

definition blit :: "'a list \<Rightarrow> nat \<Rightarrow> 'a list \<Rightarrow> 'a list" where
  "blit dst i src = take i dst @ src @ drop (i + length src) dst"

lemma length_blit [simp]: "i + length src \<le> length dst \<Longrightarrow> length (blit dst i src) = length dst"
  by (simp add: blit_def)

lemma take_blit: "i \<le> length dst \<Longrightarrow> take (i + length src) (blit dst i src) = take i dst @ src"
  by (simp add: blit_def)

end
