(* ===== verification/Fe25519.thy ===== *)
theory Fe25519
  imports Prelude
begin

text \<open>
  The field arithmetic of \<^verbatim>\<open>blake3/CX25519.c\<close>: elements of the field of order \<^verbatim>\<open>2^255 - 19\<close> as five
  64-bit limbs of radix \<^verbatim>\<open>2^51\<close> (\<open>fe\<close>), the limb-wise addition and subtraction, the schoolbook
  product in 128-bit words with its carry chain, and the conversions from and to 32 bytes.
  Every operation is on machine words with their wrap-around; the lemmas give, for limbs below
  the stated bounds, the integer an operation computes modulo the prime and the bound of its result,
  so that no intermediate sum overflows.
\<close>

section \<open>The code\<close>

text \<open>\<^verbatim>\<open>typedef uint64_t fe[5]\<close>: the limbs, lowest first.\<close>

datatype fe = Fe (l0: u64) (l1: u64) (l2: u64) (l3: u64) (l4: u64)

definition MASK51 :: u64 where
  "MASK51 = push_bit 51 1 - 1"

definition load64_le :: "u8 list \<Rightarrow> nat \<Rightarrow> u64" where
  "load64_le p i = ucast (p ! i) OR push_bit 8 (ucast (p ! (i + 1))) OR push_bit 16 (ucast (p ! (i + 2))) OR
     push_bit 24 (ucast (p ! (i + 3))) OR push_bit 32 (ucast (p ! (i + 4))) OR push_bit 40 (ucast (p ! (i + 5))) OR
     push_bit 48 (ucast (p ! (i + 6))) OR push_bit 56 (ucast (p ! (i + 7)))"

definition store64_le :: "u64 \<Rightarrow> u8 list" where
  "store64_le v = [ucast v, ucast (drop_bit 8 v), ucast (drop_bit 16 v), ucast (drop_bit 24 v),
     ucast (drop_bit 32 v), ucast (drop_bit 40 v), ucast (drop_bit 48 v), ucast (drop_bit 56 v)]"

definition fe_frombytes :: "u8 list \<Rightarrow> fe" where
  "fe_frombytes s =
    (let r0 = load64_le s 0; r1 = load64_le s 8; r2 = load64_le s 16; r3 = load64_le s 24
     in Fe (r0 AND MASK51)
           ((drop_bit 51 r0 OR push_bit 13 r1) AND MASK51)
           ((drop_bit 38 r1 OR push_bit 26 r2) AND MASK51)
           ((drop_bit 25 r2 OR push_bit 39 r3) AND MASK51)
           (drop_bit 12 r3 AND MASK51))"

text \<open>
  \<^verbatim>\<open>fe_tobytes\<close> in its three parts: the carry chain (written out twice in the source), the
  conditional subtraction of the prime by mask, and the packing into four 64-bit words.
\<close>

definition fe_carry_pass :: "fe \<Rightarrow> fe" where
  "fe_carry_pass t =
    (let t0 = l0 t; t1 = l1 t; t2 = l2 t; t3 = l3 t; t4 = l4 t;
         c = drop_bit 51 t0; t1 = t1 + c; t0 = t0 AND MASK51;
         c = drop_bit 51 t1; t2 = t2 + c; t1 = t1 AND MASK51;
         c = drop_bit 51 t2; t3 = t3 + c; t2 = t2 AND MASK51;
         c = drop_bit 51 t3; t4 = t4 + c; t3 = t3 AND MASK51;
         c = drop_bit 51 t4; t0 = t0 + c * 19; t4 = t4 AND MASK51
     in Fe t0 t1 t2 t3 t4)"

definition fe_cond_sub :: "fe \<Rightarrow> fe" where
  "fe_cond_sub t =
    (let d0 = l0 t + 19; c = drop_bit 51 d0; d0 = d0 AND MASK51;
         d1 = l1 t + c; c = drop_bit 51 d1; d1 = d1 AND MASK51;
         d2 = l2 t + c; c = drop_bit 51 d2; d2 = d2 AND MASK51;
         d3 = l3 t + c; c = drop_bit 51 d3; d3 = d3 AND MASK51;
         d4 = l4 t + c - push_bit 51 1;
         msk = NOT (drop_bit 63 d4) + 1
     in Fe ((l0 t AND msk) OR (d0 AND NOT msk)) ((l1 t AND msk) OR (d1 AND NOT msk))
           ((l2 t AND msk) OR (d2 AND NOT msk)) ((l3 t AND msk) OR (d3 AND NOT msk))
           ((l4 t AND msk) OR (d4 AND NOT msk)))"

definition fe_pack :: "fe \<Rightarrow> u8 list" where
  "fe_pack t = store64_le (l0 t OR push_bit 51 (l1 t)) @ store64_le (drop_bit 13 (l1 t) OR push_bit 38 (l2 t)) @
     store64_le (drop_bit 26 (l2 t) OR push_bit 25 (l3 t)) @ store64_le (drop_bit 39 (l3 t) OR push_bit 12 (l4 t))"

definition fe_tobytes :: "fe \<Rightarrow> u8 list" where
  "fe_tobytes h = fe_pack (fe_cond_sub (fe_carry_pass (fe_carry_pass h)))"

text \<open>Field arithmetic; \<open>fe_carry\<close> is the carry chain that ends both products.\<close>

definition fe_add :: "fe \<Rightarrow> fe \<Rightarrow> fe" where
  "fe_add a b = Fe (l0 a + l0 b) (l1 a + l1 b) (l2 a + l2 b) (l3 a + l3 b) (l4 a + l4 b)"

definition fe_sub :: "fe \<Rightarrow> fe \<Rightarrow> fe" where
  "fe_sub a b = Fe ((l0 a + 0xFFFFFFFFFFFDA) - l0 b) ((l1 a + 0xFFFFFFFFFFFFE) - l1 b)
     ((l2 a + 0xFFFFFFFFFFFFE) - l2 b) ((l3 a + 0xFFFFFFFFFFFFE) - l3 b)
     ((l4 a + 0xFFFFFFFFFFFFE) - l4 b)"

definition mul64 :: "u64 \<Rightarrow> u64 \<Rightarrow> u128" where
  "mul64 a b = ucast a * ucast b"

definition fe_carry :: "u128 \<Rightarrow> u128 \<Rightarrow> u128 \<Rightarrow> u128 \<Rightarrow> u128 \<Rightarrow> fe" where
  "fe_carry t0 t1 t2 t3 t4 =
    (let out0 = ucast t0 AND MASK51; c = (ucast (drop_bit 51 t0) :: u64);
         t1 = t1 + ucast c;
         out1 = ucast t1 AND MASK51; c = (ucast (drop_bit 51 t1) :: u64);
         t2 = t2 + ucast c;
         out2 = ucast t2 AND MASK51; c = (ucast (drop_bit 51 t2) :: u64);
         t3 = t3 + ucast c;
         out3 = ucast t3 AND MASK51; c = (ucast (drop_bit 51 t3) :: u64);
         t4 = t4 + ucast c;
         out4 = ucast t4 AND MASK51; c = (ucast (drop_bit 51 t4) :: u64);
         out0 = out0 + c * 19;
         c = drop_bit 51 out0; out0 = out0 AND MASK51;
         out1 = out1 + c
     in Fe out0 out1 out2 out3 out4)"

definition fe_mul :: "fe \<Rightarrow> fe \<Rightarrow> fe" where
  "fe_mul a b =
    (let b1_19 = l1 b * 19; b2_19 = l2 b * 19; b3_19 = l3 b * 19; b4_19 = l4 b * 19;
         t0 = mul64 (l0 a) (l0 b) + mul64 (l1 a) b4_19 + mul64 (l2 a) b3_19 +
              mul64 (l3 a) b2_19 + mul64 (l4 a) b1_19;
         t1 = mul64 (l0 a) (l1 b) + mul64 (l1 a) (l0 b) + mul64 (l2 a) b4_19 +
              mul64 (l3 a) b3_19 + mul64 (l4 a) b2_19;
         t2 = mul64 (l0 a) (l2 b) + mul64 (l1 a) (l1 b) + mul64 (l2 a) (l0 b) +
              mul64 (l3 a) b4_19 + mul64 (l4 a) b3_19;
         t3 = mul64 (l0 a) (l3 b) + mul64 (l1 a) (l2 b) + mul64 (l2 a) (l1 b) +
              mul64 (l3 a) (l0 b) + mul64 (l4 a) b4_19;
         t4 = mul64 (l0 a) (l4 b) + mul64 (l1 a) (l3 b) + mul64 (l2 a) (l2 b) +
              mul64 (l3 a) (l1 b) + mul64 (l4 a) (l0 b)
     in fe_carry t0 t1 t2 t3 t4)"

definition fe_sq :: "fe \<Rightarrow> fe" where
  "fe_sq a = fe_mul a a"

definition fe_mul_a24 :: "fe \<Rightarrow> fe" where
  "fe_mul_a24 a = fe_carry (mul64 (l0 a) 121665) (mul64 (l1 a) 121665) (mul64 (l2 a) 121665)
     (mul64 (l3 a) 121665) (mul64 (l4 a) 121665)"

section \<open>Values and bounds\<close>

definition p25519 :: int where "p25519 = 2 ^ 255 - 19"

definition fe_val :: "fe \<Rightarrow> int" where
  "fe_val a = uint (l0 a) + uint (l1 a) * 2 ^ 51 + uint (l2 a) * 2 ^ 102 +
     uint (l3 a) * 2 ^ 153 + uint (l4 a) * 2 ^ 204"

definition fe_below :: "int \<Rightarrow> fe \<Rightarrow> bool" where
  "fe_below B a \<longleftrightarrow> uint (l0 a) < B \<and> uint (l1 a) < B \<and> uint (l2 a) < B \<and> uint (l3 a) < B \<and> uint (l4 a) < B"

lemma MASK51_eq: "MASK51 = mask 51"
  by (simp add: MASK51_def mask_eq_exp_minus_1)

lemma uint_AND_MASK51: "uint (a AND MASK51) = uint a mod 2 ^ 51"
  by (simp add: MASK51_eq uint_and_mask_mod del: mask_numeral)

lemma radix51:
  "((2::int) ^ 51) ^ 2 = 2 ^ 102" "((2::int) ^ 51) ^ 3 = 2 ^ 153"
  "((2::int) ^ 51) ^ 4 = 2 ^ 204" "((2::int) ^ 51) ^ 5 = 2 ^ 255"
  by (simp_all flip: power_mult)

lemma carry_chain_value:
  fixes x :: int
  assumes "t0 = c0 * x + m0" "t1 + c0 = c1 * x + m1" "t2 + c1 = c2 * x + m2" "t3 + c2 = c3 * x + m3"
    "t4 + c3 = c4 * x + m4" "m0 + c4 * 19 = d * x + n0"
  shows "n0 + (m1 + d) * x + m2 * x^2 + m3 * x^3 + m4 * x^4 + c4 * (x^5 - 19) =
     t0 + t1 * x + t2 * x^2 + t3 * x^3 + t4 * x^4"
proof -
  have e: "n0 = m0 + c4 * 19 - d * x" "t1 = c1 * x + m1 - c0" "t2 = c2 * x + m2 - c1"
    "t3 = c3 * x + m3 - c2" "t4 = c4 * x + m4 - c3" using assms by simp_all
  show ?thesis unfolding e assms(1) by (simp add: algebra_simps eval_nat_numeral)
qed

lemma fe_val_range:
  assumes "fe_below (2 ^ 51) t"
  shows "0 \<le> fe_val t" "fe_val t < 2 ^ 255"
  using assms by (simp_all add: fe_val_def fe_below_def)

lemma fe_below_mono: "fe_below B a \<Longrightarrow> B \<le> B' \<Longrightarrow> fe_below B' a"
  by (auto simp: fe_below_def)

section \<open>Addition and subtraction\<close>

lemma fe_add_correct:
  assumes "fe_below (2 ^ 52) a" "fe_below (2 ^ 52) b"
  shows "fe_below (2 ^ 54) (fe_add a b)" and "fe_val (fe_add a b) = fe_val a + fe_val b"
  using assms by (simp_all add: fe_below_def fe_add_def fe_val_def uint_add_fits)

lemma fe_sub_correct:
  assumes "fe_below (2 ^ 52) a" "fe_below (2 ^ 51 + 2 ^ 13) b"
  shows "fe_below (2 ^ 54) (fe_sub a b)" and "fe_val (fe_sub a b) = fe_val a - fe_val b + 2 * p25519"
proof -
  have u: "uint (x + k - y) = uint x + uint k - uint y" 
    if "uint x < 2 ^ 52" "uint y < 2 ^ 51 + 2 ^ 13" "2 ^ 51 + 2 ^ 13 \<le> uint k" "uint k < 2 ^ 53" for x y k :: u64
  proof -
    have "uint (x + k) = uint x + uint k" using that by (simp add: uint_add_fits)
    moreover have "uint y \<le> uint (x + k)" unfolding calculation using that uint_ge_0 [of x] by linarith
    ultimately show ?thesis by (simp add: uint_sub_fits)
  qed
  have n: "uint (x::u64) - uint (y::u64) < k" if "uint x < k" for x y k using that uint_ge_0 [of y] by linarith
  show "fe_below (2 ^ 54) (fe_sub a b)"
    using assms by (simp add: fe_below_def fe_sub_def u n)
  show "fe_val (fe_sub a b) = fe_val a - fe_val b + 2 * p25519"
    using assms by (simp add: fe_below_def fe_sub_def fe_val_def u p25519_def)
qed

section \<open>Multiplication\<close>

lemma uint_mul64: "uint (mul64 a b) = uint a * uint b"
proof -
  have "uint a * uint b < 2 ^ 64 * 2 ^ 64"
    using uint_bounded[of a] uint_bounded[of b] by (intro mult_strict_mono') auto
  then show ?thesis
    by (simp add: mul64_def uint_mult_fits uint_ucast_up)
qed

lemma uint_low51: "uint ((ucast t :: u64) AND MASK51) = uint (t::u128) mod 2 ^ 51"
  by (simp add: uint_AND_MASK51 uint_ucast_down mod_mod_cancel)

lemma uint_high51:
  "uint t < 2 ^ 115 \<Longrightarrow> uint (ucast (drop_bit 51 (t::u128)) :: u64) = uint t div 2 ^ 51"
  by (simp add: uint_ucast_down uint_drop_bit_div mod_pos_pos_trivial div_int_pos_iff)

lemma fe_carry_correct:
  assumes "uint t0 < 95 * 2 ^ 108" "uint t1 < 95 * 2 ^ 108" "uint t2 < 95 * 2 ^ 108" "uint t3 < 95 * 2 ^ 108" "uint t4 < 5 * 2 ^ 108"
  shows "fe_below (2 ^ 51 + 2 ^ 13) (fe_carry t0 t1 t2 t3 t4)"
    and "fe_val (fe_carry t0 t1 t2 t3 t4) mod p25519 =
       (uint t0 + uint t1 * 2 ^ 51 + uint t2 * 2 ^ 102 + uint t3 * 2 ^ 153 + uint t4 * 2 ^ 204) mod p25519"
proof -
  define c0 :: u64 where "c0 = ucast (drop_bit 51 t0)"
  define s1 where "s1 = t1 + ucast c0"
  define c1 :: u64 where "c1 = ucast (drop_bit 51 s1)"
  define s2 where "s2 = t2 + ucast c1"
  define c2 :: u64 where "c2 = ucast (drop_bit 51 s2)"
  define s3 where "s3 = t3 + ucast c2"
  define c3 :: u64 where "c3 = ucast (drop_bit 51 s3)"
  define s4 where "s4 = t4 + ucast c3"
  define c4 :: u64 where "c4 = ucast (drop_bit 51 s4)"
  define o0 :: u64 where "o0 = (ucast t0 AND MASK51) + c4 * 19"
  define o1 :: u64 where "o1 = (ucast s1 AND MASK51) + drop_bit 51 o0"
  have C: "fe_carry t0 t1 t2 t3 t4 = Fe (o0 AND MASK51) o1 (ucast s2 AND MASK51) (ucast s3 AND MASK51) (ucast s4 AND MASK51)"
    by (simp add: fe_carry_def Let_def c0_def s1_def c1_def s2_def c2_def s3_def c3_def s4_def c4_def o0_def o1_def)
  have b64: "uint c < 2 ^ 64" for c :: u64 using uint_bounded[of c] by simp
  have c0: "uint c0 = uint t0 div 2 ^ 51" unfolding c0_def using assms by (intro uint_high51) simp
  have s1: "uint s1 = uint t1 + uint c0" unfolding s1_def
    using assms b64[of c0] by (subst uint_add_fits) (simp_all add: uint_ucast_up)
  have c1: "uint c1 = uint s1 div 2 ^ 51" unfolding c1_def using assms s1 b64[of c0] by (intro uint_high51) simp
  have s2: "uint s2 = uint t2 + uint c1" unfolding s2_def
    using assms b64[of c1] by (subst uint_add_fits) (simp_all add: uint_ucast_up)
  have c2: "uint c2 = uint s2 div 2 ^ 51" unfolding c2_def using assms s2 b64[of c1] by (intro uint_high51) simp
  have s3: "uint s3 = uint t3 + uint c2" unfolding s3_def
    using assms b64[of c2] by (subst uint_add_fits) (simp_all add: uint_ucast_up)
  have c3: "uint c3 = uint s3 div 2 ^ 51" unfolding c3_def using assms s3 b64[of c2] by (intro uint_high51) simp
  have s4: "uint s4 = uint t4 + uint c3" unfolding s4_def
    using assms b64[of c3] by (subst uint_add_fits) (simp_all add: uint_ucast_up)
  have c4: "uint c4 = uint s4 div 2 ^ 51" unfolding c4_def using assms s4 b64[of c3] by (intro uint_high51) simp
  have c4b: "uint c4 * 19 < 96 * 2 ^ 57" using c4 s4 assms(5) b64[of c3] by simp
  have c419: "uint (c4 * 19) = uint c4 * 19"
    using c4b by (subst uint_mult_fits) simp_all
  have o0: "uint o0 = uint t0 mod 2 ^ 51 + uint c4 * 19" unfolding o0_def
    using c4b by (subst uint_add_fits) (simp_all add: c419 uint_low51)
  have o0b: "uint o0 < 2 ^ 64" by (rule b64)
  have o1: "uint o1 = uint s1 mod 2 ^ 51 + uint o0 div 2 ^ 51" unfolding o1_def
    using o0b by (subst uint_add_fits) (simp_all add: uint_low51 uint_drop_bit_div)
  show "fe_below (2 ^ 51 + 2 ^ 13) (fe_carry t0 t1 t2 t3 t4)"
    using o0b pos_mod_bound [of "2 ^ 51" "uint s1"] pos_mod_bound [of "2 ^ 51" "uint o0"]
      pos_mod_bound [of "2 ^ 51" "uint s2"] pos_mod_bound [of "2 ^ 51" "uint s3"]
      pos_mod_bound [of "2 ^ 51" "uint s4"]
    unfolding C fe_below_def fe.sel uint_low51 uint_AND_MASK51 o1 by (intro conjI) simp_all
  have d: "uint t0 = uint c0 * 2 ^ 51 + uint t0 mod 2 ^ 51" "uint s1 = uint c1 * 2 ^ 51 + uint s1 mod 2 ^ 51"
    "uint s2 = uint c2 * 2 ^ 51 + uint s2 mod 2 ^ 51" "uint s3 = uint c3 * 2 ^ 51 + uint s3 mod 2 ^ 51"
    "uint s4 = uint c4 * 2 ^ 51 + uint s4 mod 2 ^ 51" "uint o0 = uint o0 div 2 ^ 51 * 2 ^ 51 + uint o0 mod 2 ^ 51"
    by (simp_all only: c0 c1 c2 c3 c4 div_mult_mod_eq)
  have V: "fe_val (fe_carry t0 t1 t2 t3 t4) + uint c4 * p25519 =
     uint t0 + uint t1 * 2 ^ 51 + uint t2 * 2 ^ 102 + uint t3 * 2 ^ 153 + uint t4 * 2 ^ 204"
    unfolding C fe_val_def fe.sel p25519_def uint_low51
    unfolding o1 uint_AND_MASK51
    by (rule carry_chain_value [where x = "2 ^ 51", unfolded radix51,
          OF d(1) trans [OF s1 [symmetric] d(2)] trans [OF s2 [symmetric] d(3)] trans [OF s3 [symmetric] d(4)]
            trans [OF s4 [symmetric] d(5)] trans [OF o0 [symmetric] d(6)]])
  show "fe_val (fe_carry t0 t1 t2 t3 t4) mod p25519 =
       (uint t0 + uint t1 * 2 ^ 51 + uint t2 * 2 ^ 102 + uint t3 * 2 ^ 153 + uint t4 * 2 ^ 204) mod p25519"
    unfolding V [symmetric] by (rule mod_mult_self1 [symmetric])
qed

lemma fe_mul_products:
  fixes x :: int
  shows "(a0 + a1 * x + a2 * x^2 + a3 * x^3 + a4 * x^4) * (b0 + b1 * x + b2 * x^2 + b3 * x^3 + b4 * x^4) =
    (a0 * b0 + a1 * (b4 * 19) + a2 * (b3 * 19) + a3 * (b2 * 19) + a4 * (b1 * 19)) +
    (a0 * b1 + a1 * b0 + a2 * (b4 * 19) + a3 * (b3 * 19) + a4 * (b2 * 19)) * x +
    (a0 * b2 + a1 * b1 + a2 * b0 + a3 * (b4 * 19) + a4 * (b3 * 19)) * x^2 +
    (a0 * b3 + a1 * b2 + a2 * b1 + a3 * b0 + a4 * (b4 * 19)) * x^3 +
    (a0 * b4 + a1 * b3 + a2 * b2 + a3 * b1 + a4 * b0) * x^4 +
    (x^5 - 19) * ((a1 * b4 + a2 * b3 + a3 * b2 + a4 * b1) + (a2 * b4 + a3 * b3 + a4 * b2) * x + (a3 * b4 + a4 * b3) * x^2 + a4 * b4 * x^3)"
  by (simp add: algebra_simps eval_nat_numeral)

lemma mult_below:
  fixes a b :: int
  shows "0 \<le> a \<Longrightarrow> a < 2 ^ m \<Longrightarrow> 0 \<le> b \<Longrightarrow> b < k \<Longrightarrow> a * b < 2 ^ m * k"
  by (rule mult_strict_mono') auto

lemma uint_dot5:
  assumes "uint a0 < 2 ^ 54" "uint a1 < 2 ^ 54" "uint a2 < 2 ^ 54" "uint a3 < 2 ^ 54" "uint a4 < 2 ^ 54"
    and "uint b0 < K" "uint b1 < K" "uint b2 < K" "uint b3 < K" "uint b4 < K"
    and "K \<le> 19 * 2 ^ 54"
  shows "uint (mul64 a0 b0 + mul64 a1 b1 + mul64 a2 b2 + mul64 a3 b3 + mul64 a4 b4) =
     uint a0 * uint b0 + uint a1 * uint b1 + uint a2 * uint b2 + uint a3 * uint b3 + uint a4 * uint b4" (is "?l = ?r")
    and "uint (mul64 a0 b0 + mul64 a1 b1 + mul64 a2 b2 + mul64 a3 b3 + mul64 a4 b4) < 5 * (2 ^ 54 * K)"
proof -
  have b: "uint a * uint b < 2 ^ 54 * K" if "uint a < 2 ^ 54" "uint b < K" for a b :: u64
    using that by (intro mult_below) simp_all
  note bs = b [OF assms(1,6)] b [OF assms(2,7)] b [OF assms(3,8)] b [OF assms(4,9)] b [OF assms(5,10)]
  have n: "0 \<le> uint (mul64 x y)" for x y by simp
  have k: "2 ^ 54 * K \<le> 19 * 2 ^ 108" using assms(11) by simp
  show "?l = ?r" using bs k by (simp add: uint_add_fits uint_mul64)
  with bs show "?l < 5 * (2 ^ 54 * K)" by linarith
qed

lemma fe_mul_correct:
  assumes "fe_below (2 ^ 54) a" "fe_below (2 ^ 54) b"
  shows "fe_below (2 ^ 51 + 2 ^ 13) (fe_mul a b)"
    and "fe_val (fe_mul a b) mod p25519 = (fe_val a * fe_val b) mod p25519"
proof -
  obtain a0 a1 a2 a3 a4 b0 b1 b2 b3 b4 where ab: "a = Fe a0 a1 a2 a3 a4" "b = Fe b0 b1 b2 b3 b4"
    by (metis fe.exhaust)
  have A: "uint a0 < 2 ^ 54" "uint a1 < 2 ^ 54" "uint a2 < 2 ^ 54" "uint a3 < 2 ^ 54" "uint a4 < 2 ^ 54"
    and B: "uint b0 < 2 ^ 54" "uint b1 < 2 ^ 54" "uint b2 < 2 ^ 54" "uint b3 < 2 ^ 54" "uint b4 < 2 ^ 54"
    using assms by (simp_all add: fe_below_def ab)
  then have B': "uint b0 < 19 * 2 ^ 54" "uint b1 < 19 * 2 ^ 54" "uint b2 < 19 * 2 ^ 54" "uint b3 < 19 * 2 ^ 54"
    by simp_all
  have B19: "uint (b1 * 19) = uint b1 * 19" "uint (b2 * 19) = uint b2 * 19" 
     "uint (b3 * 19) = uint b3 * 19" "uint (b4 * 19) = uint b4 * 19" 
    using B by (simp_all add: uint_mult_fits)
  then have C: "uint (b1 * 19) < 19 * 2 ^ 54" "uint (b2 * 19) < 19 * 2 ^ 54" 
     "uint (b3 * 19) < 19 * 2 ^ 54" "uint (b4 * 19) < 19 * 2 ^ 54" 
    using B by simp_all
  note t0 = uint_dot5 [OF A B'(1) C(4) C(3) C(2) C(1) order_refl]
  note t1 = uint_dot5 [OF A B'(2) B'(1) C(4) C(3) C(2) order_refl]
  note t2 = uint_dot5 [OF A B'(3) B'(2) B'(1) C(4) C(3) order_refl]
  note t3 = uint_dot5 [OF A B'(4) B'(3) B'(2) B'(1) C(4) order_refl]
  have "(2::int) ^ 54 \<le> 19 * 2 ^ 54" by simp
  note t4 = uint_dot5 [OF A B(5) B(4) B(3) B(2) B(1) this]
  have k: "5 * (2 ^ 54 * (19 * 2 ^ 54)) = (95::int) * 2 ^ 108" "5 * (2 ^ 54 * 2 ^ 54) = (5::int) * 2 ^ 108"
    by simp_all
  note carry = fe_carry_correct [OF t0(2) [unfolded k] t1(2) [unfolded k] t2(2) [unfolded k] t3(2) [unfolded k] t4(2) [unfolded k]]
  have M: "fe_mul a b = fe_carry (mul64 a0 b0 + mul64 a1 (b4 * 19) + mul64 a2 (b3 * 19) + mul64 a3 (b2 * 19) + mul64 a4 (b1 * 19))
   (mul64 a0 b1 + mul64 a1 b0 + mul64 a2 (b4 * 19) + mul64 a3 (b3 * 19) + mul64 a4 (b2 * 19))
   (mul64 a0 b2 + mul64 a1 b1 + mul64 a2 b0 + mul64 a3 (b4 * 19) + mul64 a4 (b3 * 19))
   (mul64 a0 b3 + mul64 a1 b2 + mul64 a2 b1 + mul64 a3 b0 + mul64 a4 (b4 * 19))
   (mul64 a0 b4 + mul64 a1 b3 + mul64 a2 b2 + mul64 a3 b1 + mul64 a4 b0)"
    by (simp add: fe_mul_def ab Let_def)
  show "fe_below (2 ^ 51 + 2 ^ 13) (fe_mul a b)"
    unfolding M by (rule carry(1))
  show "fe_val (fe_mul a b) mod p25519 = (fe_val a * fe_val b) mod p25519"
    unfolding M carry(2) t0(1) t1(1) t2(1) t3(1) t4(1) B19
    unfolding fe_val_def ab fe.sel p25519_def
      fe_mul_products [where x = "2 ^ 51", unfolded radix51]
    by (simp only: mod_mult_self2)
qed

lemma fe_mul_a24_correct:
  assumes "fe_below (2 ^ 54) a"
  shows "fe_below (2 ^ 51 + 2 ^ 13) (fe_mul_a24 a)" and "fe_val (fe_mul_a24 a) mod p25519 = (121665 * fe_val a) mod p25519"
proof -
  have b: "uint (mul64 (l0 a) 121665) < 5 * 2 ^ 108" "uint (mul64 (l1 a) 121665) < 5 * 2 ^ 108" 
    "uint (mul64 (l2 a) 121665) < 5 * 2 ^ 108" "uint (mul64 (l3 a) 121665) < 5 * 2 ^ 108" "uint (mul64 (l4 a) 121665) < 5 * 2 ^ 108" 
    using assms by (simp_all add: fe_below_def uint_mul64)
  have n: "uint (121665 :: u64) = 121665" by simp
  have w: "x < 5 * 2 ^ 108 \<Longrightarrow> x < 95 * 2 ^ 108" for x :: int by simp
  note c = fe_carry_correct [OF b(1) [THEN w] b(2) [THEN w] b(3) [THEN w] b(4) [THEN w] b(5)]
  show "fe_below (2 ^ 51 + 2 ^ 13) (fe_mul_a24 a)" unfolding fe_mul_a24_def by (rule c(1))
  show "fe_val (fe_mul_a24 a) mod p25519 = (121665 * fe_val a) mod p25519"
    unfolding fe_mul_a24_def c(2) uint_mul64 n by (simp add: fe_val_def algebra_simps)
qed

section \<open>Bytes to limbs\<close>

lemma store64_le_bytes: "store64_le v = le_bytes 8 v"
  by (simp add: store64_le_def le_bytes_def upt_conv_Cons)

lemma le_val_store64: "le_val (store64_le v) = uint v"
  using uint_bounded [of v] by (simp add: store64_le_bytes le_val_le_bytes)

lemma length_store64 [simp]: "length (store64_le v) = 8"
  by (simp add: store64_le_def)

lemma uint_load64_le:
  assumes "i + 8 \<le> length p"
  shows "uint (load64_le p i) = le_val (take 8 (drop i p))"
proof -
  have "load64_le p i = le_or (take 8 (drop i p)) 0"
    unfolding nth_take_drop_8 [OF assms] by (simp add: load64_le_def or.assoc)
  then show ?thesis by (simp add: uint_le_or)
qed

lemma uint_or_push_bit:
  fixes a b :: u64
  assumes "uint a < 2 ^ n"
  shows "uint (a OR push_bit n b) = uint a + uint b * 2 ^ n mod 2 ^ 64"
proof -
  have "(2::int) ^ n dvd uint b * 2 ^ n mod 2 ^ 64"
  proof (cases "n \<le> 64")
    case True
    then have "(2::int) ^ n dvd 2 ^ 64" by (rule le_imp_power_dvd)
    then show ?thesis by (simp add: dvd_mod)
  next
    case False
    then have "(2::int) ^ 64 dvd 2 ^ n" by (intro le_imp_power_dvd) simp
    then have "uint b * 2 ^ n mod 2 ^ 64 = 0" by (intro dvd_imp_mod_0) (simp add: dvd_mult)
    then show ?thesis by simp
  qed
  with assms uint_or_disjoint [of a n "push_bit n b"] show ?thesis
    by (simp add: uint_push_bit_mod)
qed

lemma uint_join51:
  fixes a b :: u64
  assumes "uint a < 2 ^ n" "n \<le> 51"
  shows "uint ((a OR push_bit n b) AND MASK51) = uint a + 2 ^ n * (uint b mod 2 ^ (51 - n))"
proof -
  have c: "y mod 2 ^ 64 mod 2 ^ 51 = y mod 2 ^ 51" for y :: int
    by (rule mod_mod_cancel) (rule le_imp_power_dvd, simp)
  have "uint b * 2 ^ n mod 2 ^ 51 = 2 ^ n * (uint b mod 2 ^ (51 - n))"
    using assms(2) by (simp add: mult_mod_right mult.commute power_add [symmetric])
  moreover have "(uint a + uint b * 2 ^ n mod 2 ^ 64) mod 2 ^ 51 = (uint a + uint b * 2 ^ n mod 2 ^ 51) mod 2 ^ 51"
    using c by (metis mod_add_right_eq)
  moreover have "uint a + 2 ^ n * (uint b mod 2 ^ (51 - n)) < 2 ^ 51"
  proof -
    have "uint b mod 2 ^ (51 - n) + 1 \<le> (2::int) ^ (51 - n)" by (simp add: zless_imp_add1_zle)
    then have "2 ^ n * (uint b mod 2 ^ (51 - n) + 1) \<le> 2 ^ n * (2::int) ^ (51 - n)" by (intro mult_left_mono) auto
    then show ?thesis using assms by (simp add: power_add [symmetric] algebra_simps)
  qed
  ultimately show ?thesis using assms
    by (simp add: uint_AND_MASK51 uint_or_push_bit)
qed

lemma drop_split8: "drop n s = take 8 (drop n s) @ drop (n + 8) s"
  by (metis add.commute append_take_drop_id drop_drop)

lemma le_val_32:
  assumes "length s = 32"
  shows "le_val s = uint (load64_le s 0) + uint (load64_le s 8) * 2 ^ 64 + uint (load64_le s 16) * 2 ^ 128 + uint (load64_le s 24) * 2 ^ 192"
proof -
  have "s = take 8 (drop 0 s) @ take 8 (drop 8 s) @ take 8 (drop 16 s) @ take 8 (drop 24 s)"
    using assms drop_split8 [of 0 s] drop_split8 [of 8 s] drop_split8 [of 16 s] drop_split8 [of 24 s] by simp
  then have "le_val s = le_val (take 8 (drop 0 s) @ take 8 (drop 8 s) @ take 8 (drop 16 s) @ take 8 (drop 24 s))"
    by simp
  also have "\<dots> = uint (load64_le s 0) + uint (load64_le s 8) * 2 ^ 64 + uint (load64_le s 16) * 2 ^ 128 + uint (load64_le s 24) * 2 ^ 192"
    using assms by (simp only: le_val_append uint_load64_le) (simp add: assms)
  finally show ?thesis .
qed

lemma limb_join_value:
  fixes r0 r1 r2 r3 :: int
  assumes "r0 = q0 * 2 ^ 51 + m0" "r1 = q1 * 2 ^ 38 + m1" "r2 = q2 * 2 ^ 25 + m2"
  shows "m0 + (q0 + 2 ^ 13 * m1) * 2 ^ 51 + (q1 + 2 ^ 26 * m2) * 2 ^ 102 + (q2 + 2 ^ 39 * m3) * 2 ^ 153 + q3 * 2 ^ 204
     = r0 + r1 * 2 ^ 64 + r2 * 2 ^ 128 + (q3 * 2 ^ 12 + m3) * 2 ^ 192"
  unfolding assms by simp

lemma fe_frombytes_correct:
  assumes "length s = 32"
  shows "fe_below (2 ^ 51) (fe_frombytes s)" and "fe_val (fe_frombytes s) = le_val s mod 2 ^ 255"
proof -
  show "fe_below (2 ^ 51) (fe_frombytes s)"
    unfolding fe_below_def fe_frombytes_def Let_def fe.sel uint_AND_MASK51 by (intro conjI pos_mod_bound) simp_all
  define r0 r1 r2 r3 where r: "r0 = load64_le s 0" "r1 = load64_le s 8" "r2 = load64_le s 16" "r3 = load64_le s 24"
  have b: "uint w < 2 ^ 64" for w :: u64 using uint_bounded [of w] by simp
  have q: "uint (drop_bit 51 r0) < 2 ^ 13" "uint (drop_bit 38 r1) < 2 ^ 26" "uint (drop_bit 25 r2) < 2 ^ 39"
    unfolding uint_drop_bit_div using b [of r0] b [of r1] b [of r2] by simp_all
  have j: "uint ((drop_bit 51 r0 OR push_bit 13 r1) AND MASK51) = uint r0 div 2 ^ 51 + 2 ^ 13 * (uint r1 mod 2 ^ 38)"
    "uint ((drop_bit 38 r1 OR push_bit 26 r2) AND MASK51) = uint r1 div 2 ^ 38 + 2 ^ 26 * (uint r2 mod 2 ^ 25)"
    "uint ((drop_bit 25 r2 OR push_bit 39 r3) AND MASK51) = uint r2 div 2 ^ 25 + 2 ^ 39 * (uint r3 mod 2 ^ 12)"
    using uint_join51 [OF q(1)] uint_join51 [OF q(2)] uint_join51 [OF q(3)] by (simp_all add: uint_drop_bit_div)
  have V: "fe_val (fe_frombytes s) = uint r0 + uint r1 * 2 ^ 64 + uint r2 * 2 ^ 128 +
      ((uint r3 div 2 ^ 12 mod 2 ^ 51) * 2 ^ 12 + uint r3 mod 2 ^ 12) * 2 ^ 192"
    unfolding fe_val_def fe_frombytes_def Let_def fe.sel r [symmetric] j
    unfolding uint_AND_MASK51 uint_drop_bit_div
    by (rule limb_join_value) (simp_all only: div_mult_mod_eq)
  have e: "(uint r3 div 2 ^ 12 mod 2 ^ 51) * 2 ^ 12 + uint r3 mod 2 ^ 12 = uint r3 mod 2 ^ 63"
    using zmod_zmult2_eq [of "2 ^ 51" "uint r3" "2 ^ 12"] by simp
  define A where "A = uint r0 + uint r1 * 2 ^ 64 + uint r2 * 2 ^ 128"
  have A: "0 \<le> A" "A < 2 ^ 192" using b [of r0] b [of r1] b [of r2] by (simp_all add: A_def)
  have "le_val s = A + uint r3 * 2 ^ 192" using le_val_32 [OF assms] by (simp add: r A_def)
  also have "\<dots> mod (2 ^ 192 * 2 ^ 63) = 2 ^ 192 * (uint r3 mod 2 ^ 63) + A"
    using A by (subst zmod_zmult2_eq) simp_all
  finally show "fe_val (fe_frombytes s) = le_val s mod 2 ^ 255"
    unfolding V e A_def [symmetric] by simp
qed

section \<open>Limbs to canonical bytes\<close>

lemma fe_carry_pass_correct:
  assumes "fe_below (2 ^ 54) t"
  defines "c \<equiv> fe_val t div 2 ^ 255"
  shows "fe_val (fe_carry_pass t) = fe_val t - c * p25519"
    and "uint (l0 (fe_carry_pass t)) = uint (l0 t) mod 2 ^ 51 + c * 19"
    and "uint (l1 (fe_carry_pass t)) < 2 ^ 51" "uint (l2 (fe_carry_pass t)) < 2 ^ 51"
    "uint (l3 (fe_carry_pass t)) < 2 ^ 51" "uint (l4 (fe_carry_pass t)) < 2 ^ 51"
    and "0 \<le> c" "c \<le> 8"
proof -
  obtain t0 t1 t2 t3 t4 where t: "t = Fe t0 t1 t2 t3 t4" by (cases t)
  have B: "uint t0 < 2 ^ 54" "uint t1 < 2 ^ 54" "uint t2 < 2 ^ 54" "uint t3 < 2 ^ 54" "uint t4 < 2 ^ 54"
    using assms(1) by (simp_all add: fe_below_def t)
  define s1 where "s1 = t1 + drop_bit 51 t0"
  define s2 where "s2 = t2 + drop_bit 51 s1"
  define s3 where "s3 = t3 + drop_bit 51 s2"
  define s4 where "s4 = t4 + drop_bit 51 s3"
  have s1: "uint s1 = uint t1 + uint t0 div 2 ^ 51" "uint s1 < 2 ^ 55"
    using B by (simp_all add: s1_def uint_add_fits uint_drop_bit_div)
  have s2: "uint s2 = uint t2 + uint s1 div 2 ^ 51" "uint s2 < 2 ^ 55"
    using B s1(2) by (simp_all add: s2_def uint_add_fits uint_drop_bit_div)
  have s3: "uint s3 = uint t3 + uint s2 div 2 ^ 51" "uint s3 < 2 ^ 55"
    using B s2(2) by (simp_all add: s3_def uint_add_fits uint_drop_bit_div)
  have s4: "uint s4 = uint t4 + uint s3 div 2 ^ 51" "uint s4 < 2 ^ 54 + 2 ^ 4"
    using B s3(2) by (simp_all add: s4_def uint_add_fits uint_drop_bit_div)
  define k where "k = uint s4 div 2 ^ 51"
  have k: "0 \<le> k" "k \<le> 8" using s4(2) by (simp_all add: k_def div_int_pos_iff)
  have k19: "uint (drop_bit 51 s4 * 19) = k * 19"
    using k by (simp add: uint_mult_fits uint_drop_bit_div k_def)
  define o0 where "o0 = (t0 AND MASK51) + drop_bit 51 s4 * 19"
  have m0: "0 \<le> uint t0 mod 2 ^ 51" "uint t0 mod 2 ^ 51 < 2 ^ 51" by simp_all
  have o0: "uint o0 = uint t0 mod 2 ^ 51 + k * 19"
    unfolding o0_def using k m0 by (subst uint_add_fits) (simp_all add: k19 uint_AND_MASK51)
  have P: "fe_carry_pass t = Fe o0 (s1 AND MASK51) (s2 AND MASK51) (s3 AND MASK51) (s4 AND MASK51)"
    by (simp add: fe_carry_pass_def Let_def t s1_def s2_def s3_def s4_def o0_def)
  have d: "uint t0 = (uint t0 div 2 ^ 51) * 2 ^ 51 + uint t0 mod 2 ^ 51"
    "uint s1 = (uint s1 div 2 ^ 51) * 2 ^ 51 + uint s1 mod 2 ^ 51"
    "uint s2 = (uint s2 div 2 ^ 51) * 2 ^ 51 + uint s2 mod 2 ^ 51"
    "uint s3 = (uint s3 div 2 ^ 51) * 2 ^ 51 + uint s3 mod 2 ^ 51"
    "uint s4 = k * 2 ^ 51 + uint s4 mod 2 ^ 51"
    by (simp_all only: k_def div_mult_mod_eq)
  have n0: "uint t0 mod 2 ^ 51 + k * 19 = 0 * 2 ^ 51 + (uint t0 mod 2 ^ 51 + k * 19)" by simp
  have W: "uint t0 mod 2 ^ 51 + uint s1 mod 2 ^ 51 * 2 ^ 51 + uint s2 mod 2 ^ 51 * 2 ^ 102 + uint s3 mod 2 ^ 51 * 2 ^ 153
      + uint s4 mod 2 ^ 51 * 2 ^ 204 + k * 2 ^ 255 = fe_val t"
    using carry_chain_value [where x = "2 ^ 51" and d = 0, unfolded radix51, OF d(1) trans [OF s1(1) [symmetric] d(2)]
      trans [OF s2(1) [symmetric] d(3)] trans [OF s3(1) [symmetric] d(4)] trans [OF s4(1) [symmetric] d(5)] n0]
    by (simp add: fe_val_def t)
  have m: "0 \<le> uint w mod 2 ^ 51" "uint w mod 2 ^ 51 < 2 ^ 51" for w :: u64 by simp_all
  have "fe_val t div 2 ^ 255 = k"
  proof (rule int_div_pos_eq)
    show "fe_val t = 2 ^ 255 * k + (uint t0 mod 2 ^ 51 + uint s1 mod 2 ^ 51 * 2 ^ 51 + uint s2 mod 2 ^ 51 * 2 ^ 102
      + uint s3 mod 2 ^ 51 * 2 ^ 153 + uint s4 mod 2 ^ 51 * 2 ^ 204)" unfolding W [symmetric] by simp
  qed (use m [of t0] m [of s1] m [of s2] m [of s3] m [of s4] in simp_all)
  then have ck: "c = k" by (simp add: c_def)
  show "fe_val (fe_carry_pass t) = fe_val t - c * p25519"
    unfolding ck W [symmetric] by (simp add: P fe_val_def o0 uint_AND_MASK51 p25519_def)
  show "uint (l0 (fe_carry_pass t)) = uint (l0 t) mod 2 ^ 51 + c * 19"
    unfolding P fe.sel o0 ck by (simp only: t fe.sel)
  show "uint (l1 (fe_carry_pass t)) < 2 ^ 51" "uint (l2 (fe_carry_pass t)) < 2 ^ 51"
    "uint (l3 (fe_carry_pass t)) < 2 ^ 51" "uint (l4 (fe_carry_pass t)) < 2 ^ 51"
    by (simp_all add: P uint_AND_MASK51)
  show "0 \<le> c" "c \<le> 8" using k ck by simp_all
qed

lemma fe_two_passes:
  assumes "fe_below (2 ^ 54) h"
  shows "fe_below (2 ^ 51) (fe_carry_pass (fe_carry_pass h))"
    and "fe_val (fe_carry_pass (fe_carry_pass h)) mod p25519 = fe_val h mod p25519"
proof -
  define t where "t = fe_carry_pass h"
  note h = fe_carry_pass_correct [OF assms, folded t_def]
  have m: "uint (l0 h) mod 2 ^ 51 < 2 ^ 51" by simp
  have t0: "uint (l0 t) < 2 ^ 51 + 152" using h(2,8) m by linarith
  have t: "fe_below (2 ^ 54) t" using t0 h(3-6) by (simp add: fe_below_def)
  note u = fe_carry_pass_correct [OF t]
  have "uint (l0 (fe_carry_pass t)) < 2 ^ 51"
  proof (cases "uint (l0 t) < 2 ^ 51")
    case True
    then have "fe_below (2 ^ 51) t" using h(3-6) by (simp add: fe_below_def)
    then have "fe_val t div 2 ^ 255 = 0" using fe_val_range by (intro div_pos_pos_trivial)
    with True u(2) show ?thesis by simp
  next
    case False
    then have "uint (l0 t) mod 2 ^ 51 = uint (l0 t) - 2 ^ 51"
      using t0 by (intro int_mod_pos_eq [where q = 1]) simp_all
    then show ?thesis using u(2,8) t0 by simp
  qed
  then show "fe_below (2 ^ 51) (fe_carry_pass (fe_carry_pass h))"
    using u(3-6) by (simp add: fe_below_def t_def)
  have "fe_val (fe_carry_pass t) + (fe_val t div 2 ^ 255 + fe_val h div 2 ^ 255) * p25519 = fe_val h"
    using u(1) h(1) unfolding distrib_right by linarith
  then show "fe_val (fe_carry_pass (fe_carry_pass h)) mod p25519 = fe_val h mod p25519"
    by (metis t_def mod_mult_self1)
qed

lemma push_bit_low:
  assumes "n \<le> 64"
  shows "(x::int) * 2 ^ n mod 2 ^ 64 = 2 ^ n * (x mod 2 ^ (64 - n))"
  using assms by (simp add: mult_mod_right mult.commute power_add [symmetric])

lemma uint_join64:
  fixes a b :: u64
  assumes "uint a < 2 ^ n" "n \<le> 64"
  shows "uint (a OR push_bit n b) = uint a + 2 ^ n * (uint b mod 2 ^ (64 - n))"
  by (simp only: uint_or_push_bit [OF assms(1)] push_bit_low [OF assms(2)])

lemma limb_split_value:
  fixes t0 :: int
  assumes "t1 = q1 * 2 ^ 13 + m1" "t2 = q2 * 2 ^ 26 + m2" "t3 = q3 * 2 ^ 39 + m3"
  shows "(t0 + 2 ^ 51 * m1) + 2 ^ 64 * ((q1 + 2 ^ 38 * m2) + 2 ^ 64 * ((q2 + 2 ^ 25 * m3) + 2 ^ 64 * (q3 + 2 ^ 12 * t4)))
    = t0 + t1 * 2 ^ 51 + t2 * 2 ^ 102 + t3 * 2 ^ 153 + t4 * 2 ^ 204"
  unfolding assms by simp

lemma fe_pack_correct:
  assumes "fe_below (2 ^ 51) t"
  shows "length (fe_pack t) = 32" and "le_val (fe_pack t) = fe_val t"
proof -
  show "length (fe_pack t) = 32" by (simp add: fe_pack_def)
  have b: "uint (l0 t) < 2 ^ 51" "uint (l1 t) < 2 ^ 51" "uint (l2 t) < 2 ^ 51" "uint (l3 t) < 2 ^ 51" "uint (l4 t) < 2 ^ 51"
    using assms by (simp_all add: fe_below_def)
  have q: "uint (drop_bit 13 (l1 t)) < 2 ^ 38" "uint (drop_bit 26 (l2 t)) < 2 ^ 25" "uint (drop_bit 39 (l3 t)) < 2 ^ 12"
    unfolding uint_drop_bit_div using b by simp_all
  have r1: "uint (l0 t OR push_bit 51 (l1 t)) = uint (l0 t) + 2 ^ 51 * (uint (l1 t) mod 2 ^ 13)"
    using uint_join64 [OF b(1)] by simp
  have r2: "uint (drop_bit 13 (l1 t) OR push_bit 38 (l2 t)) = uint (l1 t) div 2 ^ 13 + 2 ^ 38 * (uint (l2 t) mod 2 ^ 26)"
    using uint_join64 [OF q(1)] by (simp add: uint_drop_bit_div)
  have r3: "uint (drop_bit 26 (l2 t) OR push_bit 25 (l3 t)) = uint (l2 t) div 2 ^ 26 + 2 ^ 25 * (uint (l3 t) mod 2 ^ 39)"
    using uint_join64 [OF q(2)] by (simp add: uint_drop_bit_div)
  have r4: "uint (drop_bit 39 (l3 t) OR push_bit 12 (l4 t)) = uint (l3 t) div 2 ^ 39 + 2 ^ 12 * uint (l4 t)"
    using uint_join64 [OF q(3), of "l4 t"] b(5) by (simp add: uint_drop_bit_div)
  have p: "(256::int) ^ 8 = 2 ^ 64" by simp
  show "le_val (fe_pack t) = fe_val t"
    unfolding fe_pack_def le_val_append le_val_store64 length_store64 p r1 r2 r3 r4 fe_val_def
    by (rule limb_split_value) (simp_all only: div_mult_mod_eq)
qed

lemma fe_cond_sub_correct:
  assumes "fe_below (2 ^ 51) t"
  shows "fe_below (2 ^ 51) (fe_cond_sub t)" and "fe_val (fe_cond_sub t) = fe_val t mod p25519"
proof -
  obtain t0 t1 t2 t3 t4 where t: "t = Fe t0 t1 t2 t3 t4" by (cases t)
  have B: "uint t0 < 2 ^ 51" "uint t1 < 2 ^ 51" "uint t2 < 2 ^ 51" "uint t3 < 2 ^ 51" "uint t4 < 2 ^ 51"
    using assms by (simp_all add: fe_below_def t)
  define d0 d1 d2 d3 s4 where d: "d0 = t0 + 19" "d1 = t1 + drop_bit 51 d0" "d2 = t2 + drop_bit 51 d1"
    "d3 = t3 + drop_bit 51 d2" "s4 = t4 + drop_bit 51 d3"
  have d0: "uint d0 = uint t0 + 19" using B by (simp add: d uint_add_fits)
  have d1: "uint d1 = uint t1 + uint d0 div 2 ^ 51" "uint d1 \<le> 2 ^ 51" using B d0
    by (simp_all add: d(2) uint_add_fits uint_drop_bit_div)
  have d2: "uint d2 = uint t2 + uint d1 div 2 ^ 51" "uint d2 \<le> 2 ^ 51" using B d1
    by (simp_all add: d(3) uint_add_fits uint_drop_bit_div)
  have d3: "uint d3 = uint t3 + uint d2 div 2 ^ 51" "uint d3 \<le> 2 ^ 51" using B d2
    by (simp_all add: d(4) uint_add_fits uint_drop_bit_div)
  have s4: "uint s4 = uint t4 + uint d3 div 2 ^ 51" "uint s4 \<le> 2 ^ 51" using B d3
    by (simp_all add: d(5) uint_add_fits uint_drop_bit_div)
  have e: "uint d0 = (uint d0 div 2 ^ 51) * 2 ^ 51 + uint d0 mod 2 ^ 51"
    "uint d1 = (uint d1 div 2 ^ 51) * 2 ^ 51 + uint d1 mod 2 ^ 51"
    "uint d2 = (uint d2 div 2 ^ 51) * 2 ^ 51 + uint d2 mod 2 ^ 51"
    "uint d3 = (uint d3 div 2 ^ 51) * 2 ^ 51 + uint d3 mod 2 ^ 51" "uint s4 = 0 * 2 ^ 51 + uint s4"
    by (simp_all only: div_mult_mod_eq mult_zero_left add_0)
  define L where "L = uint d0 mod 2 ^ 51 + uint d1 mod 2 ^ 51 * 2 ^ 51 + uint d2 mod 2 ^ 51 * 2 ^ 102 + uint d3 mod 2 ^ 51 * 2 ^ 153"
  have m: "0 \<le> uint w mod 2 ^ 51" "uint w mod 2 ^ 51 < 2 ^ 51" for w :: u64 by simp_all
  have L: "0 \<le> L" "L < 2 ^ 204" unfolding L_def using m [of d0] m [of d1] m [of d2] m [of d3] by simp_all
  have n0: "uint d0 mod 2 ^ 51 + 0 * 19 = 0 * 2 ^ 51 + uint d0 mod 2 ^ 51" by simp
  have W: "L + uint s4 * 2 ^ 204 = fe_val t + 19"
    using carry_chain_value [where x = "2 ^ 51" and d = 0, unfolded radix51, OF trans [OF d0 [symmetric] e(1)]
      trans [OF d1(1) [symmetric] e(2)] trans [OF d2(1) [symmetric] e(3)] trans [OF d3(1) [symmetric] e(4)]
      trans [OF s4(1) [symmetric] e(5)] n0]
    by (simp add: fe_val_def t L_def)
  note R = fe_val_range [OF assms]
  have "fe_below (2 ^ 51) (fe_cond_sub t) \<and> fe_val (fe_cond_sub t) = fe_val t mod p25519"
  proof (cases "uint s4 = 2 ^ 51")
    case True
    then have "s4 = push_bit 51 1" by (intro word_uint_eqI) simp
    then have S: "fe_cond_sub t = Fe (d0 AND MASK51) (d1 AND MASK51) (d2 AND MASK51) (d3 AND MASK51) 0"
      unfolding fe_cond_sub_def Let_def t fe.sel d(1) [symmetric] d(2) [symmetric] d(3) [symmetric] d(4) [symmetric] d(5) [symmetric]
      by simp
    have "fe_val (fe_cond_sub t) = L" unfolding S fe_val_def fe.sel uint_AND_MASK51 L_def by simp
    also have "L = fe_val t mod p25519"
      using W L R True by (intro int_mod_pos_eq [symmetric, where q = 1]) (simp_all add: p25519_def)
    finally show ?thesis unfolding S fe_below_def fe.sel uint_AND_MASK51 using m by simp
  next
    case False
    then have lt: "uint s4 < 2 ^ 51" using s4(2) by simp
    have "drop_bit 63 (s4 - push_bit 51 1) = 1"
    proof (rule word_uint_eqI)
      have "uint (s4 - push_bit 51 1) = uint s4 - 2 ^ 51 + 2 ^ 64"
        using lt by (subst uint_word_ariths(2)) (simp add: int_mod_pos_eq [where q = "-1"])
      then show "uint (drop_bit 63 (s4 - push_bit 51 1)) = uint (1::u64)"
        using lt int_div_pos_eq [where a = "uint s4 - 2 ^ 51 + 2 ^ 64" and b = "2 ^ 63" and q = 1
            and r = "uint s4 - 2 ^ 51 + 2 ^ 63"] by (simp add: uint_drop_bit_div)
    qed
    then have S: "fe_cond_sub t = t"
      unfolding fe_cond_sub_def Let_def t fe.sel d(1) [symmetric] d(2) [symmetric] d(3) [symmetric] d(4) [symmetric] d(5) [symmetric]
      by simp
    have "fe_val t < p25519" using W L lt by (simp add: p25519_def)
    then show ?thesis using S R assms by simp
  qed
  then show "fe_below (2 ^ 51) (fe_cond_sub t)" and "fe_val (fe_cond_sub t) = fe_val t mod p25519" by simp_all
qed

lemma fe_tobytes_correct:
  assumes "fe_below (2 ^ 54) h"
  shows "length (fe_tobytes h) = 32 \<and> le_val (fe_tobytes h) = fe_val h mod p25519"
  using fe_pack_correct [OF fe_cond_sub_correct(1) [OF fe_two_passes(1) [OF assms]]]
    fe_cond_sub_correct(2) [OF fe_two_passes(1) [OF assms]] fe_two_passes(2) [OF assms]
  by (simp add: fe_tobytes_def)

end
