(* ===== verification/X25519.thy ===== *)
theory X25519
  imports Fe25519
begin

text \<open>
  The X25519 function of \<^verbatim>\<open>blake3/CX25519.c\<close>: inversion by the addition chain for the exponent
  p - 2, the constant-time Montgomery ladder, the scalar multiplication, and the key-pair and
  key-agreement entry points with the \<^verbatim>\<open>/dev/urandom\<close> reader. The reference is the ladder of
  RFC 7748 on integers modulo p (\<open>x25519_spec\<close>). The locale \<open>field_rep\<close> is the contract the ladder
  and the inversion rely on; it is interpreted on the limb operations of \<open>Fe25519\<close>.

  The C functions may be called with an output that aliases an input (\<^verbatim>\<open>fe_mul(t1, t1, z)\<close>). Each
  of them reads its operands limb-wise before it writes the same limb, and the products read all limbs
  first, so passing values is the same computation.
\<close>

section \<open>The code\<close>

text \<open>\<^verbatim>\<open>for (i = 1; i < k; i++) fe_sq(t, t)\<close> squares k - 1 times.\<close>

definition fe_sq_times :: "nat \<Rightarrow> fe \<Rightarrow> fe" where
  "fe_sq_times n t = (fe_sq ^^ n) t"

definition fe_invert :: "fe \<Rightarrow> fe" where
  "fe_invert z =
    (let t0 = fe_sq z;
         t1 = fe_sq t0;
         t1 = fe_sq t1;
         t1 = fe_mul t1 z;
         t0 = fe_mul t0 t1;
         t2 = fe_sq t0;
         t1 = fe_mul t1 t2;
         t2 = fe_sq t1; t2 = fe_sq_times 4 t2;
         t1 = fe_mul t2 t1;
         t2 = fe_sq t1; t2 = fe_sq_times 9 t2;
         t2 = fe_mul t2 t1;
         t3 = fe_sq t2; t3 = fe_sq_times 19 t3;
         t2 = fe_mul t3 t2;
         t2 = fe_sq t2; t2 = fe_sq_times 9 t2;
         t1 = fe_mul t2 t1;
         t2 = fe_sq t1; t2 = fe_sq_times 49 t2;
         t2 = fe_mul t2 t1;
         t3 = fe_sq t2; t3 = fe_sq_times 99 t3;
         t2 = fe_mul t3 t2;
         t2 = fe_sq t2; t2 = fe_sq_times 49 t2;
         t1 = fe_mul t2 t1;
         t1 = fe_sq t1;
         t1 = fe_sq t1;
         t1 = fe_sq t1;
         t1 = fe_sq t1;
         t1 = fe_sq t1
     in fe_mul t1 t0)"

text \<open>
  The locals of \<^verbatim>\<open>x25519_scalarmult\<close> that the loop carries; \<open>swap\<close> is the \<^verbatim>\<open>int swap\<close>.
\<close>

record ladder =
  x2 :: fe
  z2 :: fe
  x3 :: fe
  z3 :: fe
  swap :: "32 word"

definition cswap_limb :: "u64 \<Rightarrow> u64 \<Rightarrow> u64 \<Rightarrow> u64 \<times> u64" where
  "cswap_limb msk a b = (let t = msk AND (a XOR b) in (a XOR t, b XOR t))"

definition fe_cswap :: "32 word \<Rightarrow> fe \<Rightarrow> fe \<Rightarrow> fe \<times> fe" where
  "fe_cswap sw a b =
    (let msk = 0 - (scast sw :: u64);
         (a0, b0) = cswap_limb msk (l0 a) (l0 b);
         (a1, b1) = cswap_limb msk (l1 a) (l1 b);
         (a2, b2) = cswap_limb msk (l2 a) (l2 b);
         (a3, b3) = cswap_limb msk (l3 a) (l3 b);
         (a4, b4) = cswap_limb msk (l4 a) (l4 b)
     in (Fe a0 a1 a2 a3 a4, Fe b0 b1 b2 b3 b4))"

definition ladder_cswap :: "ladder \<Rightarrow> ladder" where
  "ladder_cswap s =
    (let (a, b) = fe_cswap (swap s) (x2 s) (x3 s); (c, d) = fe_cswap (swap s) (z2 s) (z3 s)
     in s\<lparr>x2 := a, x3 := b, z2 := c, z3 := d\<rparr>)"

definition ladder_step :: "fe \<Rightarrow> ladder \<Rightarrow> ladder" where
  "ladder_step x1 s =
    (let a = fe_add (x2 s) (z2 s);
         aa = fe_sq a;
         b_fe = fe_sub (x2 s) (z2 s);
         bb = fe_sq b_fe;
         e_fe = fe_sub aa bb;
         c = fe_add (x3 s) (z3 s);
         d = fe_sub (x3 s) (z3 s);
         da = fe_mul d a;
         cb = fe_mul c b_fe;
         tmp0 = fe_add da cb;
         x3' = fe_sq tmp0;
         tmp1 = fe_sub da cb;
         tmp1 = fe_sq tmp1;
         z3' = fe_mul tmp1 x1;
         x2' = fe_mul aa bb;
         tmp0 = fe_mul_a24 e_fe;
         tmp0 = fe_add tmp0 aa;
         z2' = fe_mul e_fe tmp0
     in s\<lparr>x2 := x2', z2 := z2', x3 := x3', z3 := z3'\<rparr>)"

definition scalar_bit :: "u8 list \<Rightarrow> nat \<Rightarrow> 32 word" where
  "scalar_bit e pos = drop_bit (pos mod 8) (ucast (e ! (pos div 8))) AND 1"

text \<open>The loop \<^verbatim>\<open>for (pos = 254; pos >= 0; pos--)\<close>: the argument is the number of rounds left.\<close>

fun ladder_loop :: "u8 list \<Rightarrow> fe \<Rightarrow> nat \<Rightarrow> ladder \<Rightarrow> ladder" where
  "ladder_loop e x1 0 s = s"
| "ladder_loop e x1 (Suc pos) s =
    (let b = scalar_bit e pos;
         s = ladder_cswap (s\<lparr>swap := swap s XOR b\<rparr>)
     in ladder_loop e x1 pos (ladder_step x1 (s\<lparr>swap := b\<rparr>)))"

definition clamp_scalar :: "u8 list \<Rightarrow> u8 list" where
  "clamp_scalar e =
    (let e = e[0 := e ! 0 AND 248]; e = e[31 := e ! 31 AND 127] in e[31 := e ! 31 OR 64])"

definition fe_one :: fe where "fe_one = Fe 1 0 0 0 0"

definition fe_zero :: fe where "fe_zero = Fe 0 0 0 0 0"

definition x25519_scalarmult :: "u8 list \<Rightarrow> u8 list \<Rightarrow> u8 list" where
  "x25519_scalarmult scalar point =
    (let e = clamp_scalar (take 32 scalar);
         x1 = fe_frombytes point;
         s = ladder_loop e x1 255 \<lparr>x2 = fe_one, z2 = fe_zero, x3 = x1, z3 = fe_one, swap = 0\<rparr>;
         s = ladder_cswap s;
         tmp0 = fe_invert (z2 s);
         tmp1 = fe_mul (x2 s) tmp0
     in fe_tobytes tmp1)"

definition x25519_basepoint :: "u8 list" where
  "x25519_basepoint = 9 # replicate 31 0"

text \<open>
  The system calls of \<^verbatim>\<open>secure_random\<close> are parameters: whether \<^verbatim>\<open>open\<close> succeeds, and the
  result of the k-th \<^verbatim>\<open>read\<close> for a requested count (\<open>None\<close> for -1, the bytes read otherwise;
  no bytes is end of file). POSIX guarantees that no more than the count is read (\<open>reader_ok\<close>).
\<close>

type_synonym reader = "nat \<Rightarrow> nat \<Rightarrow> u8 list option"

function secure_random_loop :: "reader \<Rightarrow> nat \<Rightarrow> nat \<Rightarrow> u8 list \<Rightarrow> nat \<Rightarrow> int \<times> u8 list" where
  "secure_random_loop rd len k buf tot =
    (if tot < len then
       (case rd k (len - tot) of
          None \<Rightarrow> (-1, buf)
        | Some bs \<Rightarrow>
            if bs = [] then (-1, buf)
            else secure_random_loop rd len (Suc k)
                   (take tot buf @ bs @ drop (tot + length bs) buf) (tot + length bs))
     else (0, buf))"
  by pat_completeness auto
termination
  by (relation "measure (\<lambda>(rd, len, k, buf, tot). len - tot)") (auto simp: neq_Nil_conv)

declare secure_random_loop.simps [simp del]

definition secure_random :: "bool \<Rightarrow> reader \<Rightarrow> u8 list \<Rightarrow> nat \<Rightarrow> int \<times> u8 list" where
  "secure_random open_ok rd buf len = (if \<not> open_ok then (-1, buf) else secure_random_loop rd len 0 buf 0)"

definition reader_ok :: "reader \<Rightarrow> bool" where
  "reader_ok rd \<longleftrightarrow> (\<forall>k n bs. rd k n = Some bs \<longrightarrow> length bs \<le> n)"

definition x25519_generate_keypair :: "bool \<Rightarrow> reader \<Rightarrow> u8 list \<Rightarrow> u8 list \<times> u8 list" where
  "x25519_generate_keypair open_ok rd private_key =
    (let (_, private_key) = secure_random open_ok rd private_key 32;
         private_key = clamp_scalar private_key
     in (x25519_scalarmult private_key x25519_basepoint, private_key))"

definition x25519_key_agreement :: "u8 list \<Rightarrow> u8 list \<Rightarrow> int \<times> u8 list" where
  "x25519_key_agreement private_key peer_public_key =
    (let shared_secret = x25519_scalarmult private_key peer_public_key;
         zero = fold (\<lambda>i zero. zero OR shared_secret ! i) [0..<32] 0
     in (if zero \<noteq> 0 then 0 else -1, shared_secret))"

section \<open>The specification of RFC 7748\<close>

type_synonym lspec = "(int \<times> int) \<times> (int \<times> int)"

definition mont_step :: "int \<Rightarrow> lspec \<Rightarrow> lspec" where
  "mont_step u = (\<lambda>((a, b), (c, d)).
     (((a + b) ^ 2 * (a - b) ^ 2 mod p25519,
       ((a + b) ^ 2 - (a - b) ^ 2) * (121665 * ((a + b) ^ 2 - (a - b) ^ 2) + (a + b) ^ 2) mod p25519),
      (((c - d) * (a + b) + (c + d) * (a - b)) ^ 2 mod p25519,
       ((c - d) * (a + b) - (c + d) * (a - b)) ^ 2 * u mod p25519)))"

fun mont_ladder :: "int \<Rightarrow> int \<Rightarrow> nat \<Rightarrow> lspec \<Rightarrow> lspec" where
  "mont_ladder k u 0 s = s"
| "mont_ladder k u (Suc i) s =
    mont_ladder k u i (if bit k i then prod.swap (mont_step u (prod.swap s)) else mont_step u s)"

definition x25519_spec :: "int \<Rightarrow> int \<Rightarrow> int" where
  "x25519_spec k u =
    (let ((a, b), _) = mont_ladder k u 255 ((1, 0), (u, 1)) in a * b ^ (2 ^ 255 - 21) mod p25519)"

section \<open>The contract of the field operations\<close>

text \<open>
  \<open>tight a x\<close> and \<open>loose a x\<close> say that \<open>a\<close> represents \<open>x\<close> modulo the prime with limbs small
  enough to be an operand of an addition or subtraction, respectively of a product.
\<close>

locale field_rep =
  fixes p :: int
    and tight loose :: "'f \<Rightarrow> int \<Rightarrow> bool"
    and add sub mul :: "'f \<Rightarrow> 'f \<Rightarrow> 'f"
    and mul_a24 :: "'f \<Rightarrow> 'f"
  assumes tight_cong: "tight a x \<Longrightarrow> x mod p = y mod p \<Longrightarrow> tight a y"
    and loosen: "tight a x \<Longrightarrow> loose a x"
    and add_rep: "tight a x \<Longrightarrow> tight b y \<Longrightarrow> loose (add a b) (x + y)"
    and sub_rep: "tight a x \<Longrightarrow> tight b y \<Longrightarrow> loose (sub a b) (x - y)"
    and mul_rep: "loose a x \<Longrightarrow> loose b y \<Longrightarrow> tight (mul a b) (x * y)"
    and a24_rep: "loose a x \<Longrightarrow> tight (mul_a24 a) (121665 * x)"
begin

lemma sq_rep: "loose a x \<Longrightarrow> tight (mul a a) (x ^ 2)"
  by (simp add: power2_eq_square mul_rep)

lemma pow_rep:
  "tight a (z ^ i) \<Longrightarrow> tight b (z ^ j) \<Longrightarrow> tight (mul a b) (z ^ (i + j))"
  unfolding power_add by (intro mul_rep loosen)

lemma sqn_rep: "tight a (z ^ i) \<Longrightarrow> tight (((\<lambda>t. mul t t) ^^ n) a) (z ^ (i * 2 ^ n))"
proof (induction n)
  case (Suc n)
  then have "tight (mul (((\<lambda>t. mul t t) ^^ n) a) (((\<lambda>t. mul t t) ^^ n) a)) (z ^ (i * 2 ^ n + i * 2 ^ n))"
    by (intro pow_rep)
  then show ?case by (simp add: mult.left_commute mult_2 [symmetric])
qed simp

text \<open>One step of the Montgomery ladder on represented field elements.\<close>

lemma ladder_step_rep:
  assumes "tight x1 u" "tight px a" "tight pz b" "tight qx c" "tight qz d"
  defines "A \<equiv> add px pz" and "B \<equiv> sub px pz" and "C \<equiv> add qx qz" and "D \<equiv> sub qx qz"
  defines "AA \<equiv> mul A A" and "BB \<equiv> mul B B" and "DA \<equiv> mul D A" and "CB \<equiv> mul C B"
  defines "E \<equiv> sub AA BB"
  shows "tight (mul (add DA CB) (add DA CB)) (((c - d) * (a + b) + (c + d) * (a - b)) ^ 2)"
    and "tight (mul (mul (sub DA CB) (sub DA CB)) x1) (((c - d) * (a + b) - (c + d) * (a - b)) ^ 2 * u)"
    and "tight (mul AA BB) ((a + b) ^ 2 * (a - b) ^ 2)"
    and "tight (mul E (add (mul_a24 E) AA))
      (((a + b) ^ 2 - (a - b) ^ 2) * (121665 * ((a + b) ^ 2 - (a - b) ^ 2) + (a + b) ^ 2))"
proof -
  have l: "loose A (a + b)" "loose B (a - b)" "loose C (c + d)" "loose D (c - d)"
    using assms by (simp_all add: add_rep sub_rep)
  have t: "tight AA ((a + b) ^ 2)" "tight BB ((a - b) ^ 2)" "tight DA ((c - d) * (a + b))" "tight CB ((c + d) * (a - b))"
    using l by (simp_all add: AA_def BB_def DA_def CB_def sq_rep mul_rep)
  have E: "loose E ((a + b) ^ 2 - (a - b) ^ 2)" unfolding E_def by (intro sub_rep t)
  show "tight (mul (add DA CB) (add DA CB)) (((c - d) * (a + b) + (c + d) * (a - b)) ^ 2)"
    by (intro sq_rep add_rep t)
  show "tight (mul (mul (sub DA CB) (sub DA CB)) x1) (((c - d) * (a + b) - (c + d) * (a - b)) ^ 2 * u)"
    by (intro mul_rep loosen sq_rep sub_rep t assms)
  show "tight (mul AA BB) ((a + b) ^ 2 * (a - b) ^ 2)" by (intro mul_rep loosen t)
  show "tight (mul E (add (mul_a24 E) AA))
      (((a + b) ^ 2 - (a - b) ^ 2) * (121665 * ((a + b) ^ 2 - (a - b) ^ 2) + (a + b) ^ 2))"
    by (intro mul_rep add_rep a24_rep E t)
qed

end

definition fe_tight :: "fe \<Rightarrow> int \<Rightarrow> bool" where
  "fe_tight a x \<longleftrightarrow> fe_below (2 ^ 51 + 2 ^ 13) a \<and> fe_val a mod p25519 = x mod p25519"

definition fe_loose :: "fe \<Rightarrow> int \<Rightarrow> bool" where
  "fe_loose a x \<longleftrightarrow> fe_below (2 ^ 54) a \<and> fe_val a mod p25519 = x mod p25519"

interpretation fe: field_rep p25519 fe_tight fe_loose fe_add fe_sub fe_mul fe_mul_a24
proof unfold_locales
  have w: "fe_below (2 ^ 51 + 2 ^ 13) a \<Longrightarrow> fe_below (2 ^ 52) a" for a by (erule fe_below_mono) simp
  show "fe_tight a x \<Longrightarrow> x mod p25519 = y mod p25519 \<Longrightarrow> fe_tight a y" for a x y
    by (simp add: fe_tight_def)
  show "fe_tight a x \<Longrightarrow> fe_loose a x" for a x
    by (auto simp: fe_tight_def fe_loose_def elim: fe_below_mono)
  show "fe_tight a x \<Longrightarrow> fe_tight b y \<Longrightarrow> fe_loose (fe_add a b) (x + y)" for a b x y
    using fe_add_correct [OF w w, of a b] unfolding fe_tight_def fe_loose_def by (metis mod_add_cong)
  show "fe_tight a x \<Longrightarrow> fe_tight b y \<Longrightarrow> fe_loose (fe_sub a b) (x - y)" for a b x y
    using fe_sub_correct [OF w, of a b] unfolding fe_tight_def fe_loose_def by (metis mod_diff_cong mod_mult_self1)
  show "fe_loose a x \<Longrightarrow> fe_loose b y \<Longrightarrow> fe_tight (fe_mul a b) (x * y)" for a b x y
    using fe_mul_correct [of a b] unfolding fe_tight_def fe_loose_def by (metis mod_mult_cong)
  show "fe_loose a x \<Longrightarrow> fe_tight (fe_mul_a24 a) (121665 * x)" for a x
    using fe_mul_a24_correct [of a] unfolding fe_tight_def fe_loose_def by (metis mod_mult_cong)
qed

section \<open>Inversion\<close>

lemma fe_sq_rep: "fe_tight a (z ^ i) \<Longrightarrow> fe_tight (fe_sq a) (z ^ (2 * i))"
  unfolding fe_sq_def mult_2 by (intro fe.pow_rep)

lemma fe_sq_times_rep: "fe_tight a (z ^ i) \<Longrightarrow> fe_tight (fe_sq_times n a) (z ^ (i * 2 ^ n))"
  using fe.sqn_rep [of a z i n] by (simp add: fe_sq_times_def fe_sq_def [abs_def])

lemma fe_sqs_rep: "fe_tight a (z ^ i) \<Longrightarrow> fe_tight (fe_sq_times n (fe_sq a)) (z ^ (i * 2 ^ Suc n))"
  using fe_sq_times_rep [OF fe_sq_rep, of a z i n] by (simp add: mult_ac)

lemma fe_invert_rep:
  assumes "fe_tight z x"
  shows "fe_tight (fe_invert z) (x ^ (2 ^ 255 - 21))"
proof -
  have z: "fe_tight z (x ^ 1)" using assms by simp
  define a where "a = fe_sq z"
  have a: "fe_tight a (x ^ 2)" using fe_sq_rep [OF z] by (simp add: a_def)
  define b where "b = fe_mul (fe_sq (fe_sq a)) z"
  have b: "fe_tight b (x ^ 9)" using fe.pow_rep [OF fe_sq_rep [OF fe_sq_rep [OF a]] z] by (simp add: b_def)
  define c where "c = fe_mul a b"
  have c: "fe_tight c (x ^ 11)" using fe.pow_rep [OF a b] by (simp add: c_def)
  define d where "d = fe_mul b (fe_sq c)"
  have d: "fe_tight d (x ^ 31)" using fe.pow_rep [OF b fe_sq_rep [OF c]] by (simp add: d_def)
  define e where "e = fe_mul (fe_sq_times 4 (fe_sq d)) d"
  have e: "fe_tight e (x ^ (2 ^ 10 - 1))" using fe.pow_rep [OF fe_sqs_rep [OF d, of 4] d] by (simp add: e_def)
  define f where "f = fe_mul (fe_sq_times 9 (fe_sq e)) e"
  have f: "fe_tight f (x ^ (2 ^ 20 - 1))" using fe.pow_rep [OF fe_sqs_rep [OF e, of 9] e] by (simp add: f_def)
  define g where "g = fe_mul (fe_sq_times 19 (fe_sq f)) f"
  have g: "fe_tight g (x ^ (2 ^ 40 - 1))" using fe.pow_rep [OF fe_sqs_rep [OF f, of 19] f] by (simp add: g_def)
  define h where "h = fe_mul (fe_sq_times 9 (fe_sq g)) e"
  have h: "fe_tight h (x ^ (2 ^ 50 - 1))" using fe.pow_rep [OF fe_sqs_rep [OF g, of 9] e] by (simp add: h_def)
  define i where "i = fe_mul (fe_sq_times 49 (fe_sq h)) h"
  have i: "fe_tight i (x ^ (2 ^ 100 - 1))" using fe.pow_rep [OF fe_sqs_rep [OF h, of 49] h] by (simp add: i_def)
  define j where "j = fe_mul (fe_sq_times 99 (fe_sq i)) i"
  have j: "fe_tight j (x ^ (2 ^ 200 - 1))" using fe.pow_rep [OF fe_sqs_rep [OF i, of 99] i] by (simp add: j_def)
  define k where "k = fe_mul (fe_sq_times 49 (fe_sq j)) h"
  have k: "fe_tight k (x ^ (2 ^ 250 - 1))" using fe.pow_rep [OF fe_sqs_rep [OF j, of 49] h] by (simp add: k_def)
  have "fe_invert z = fe_mul (fe_sq (fe_sq (fe_sq (fe_sq (fe_sq k))))) c"
    by (simp only: fe_invert_def Let_def a_def b_def c_def d_def e_def f_def g_def h_def i_def j_def k_def)
  moreover have "fe_tight (fe_mul (fe_sq (fe_sq (fe_sq (fe_sq (fe_sq k))))) c) (x ^ (2 ^ 255 - 21))"
    using fe.pow_rep [OF fe_sq_rep [OF fe_sq_rep [OF fe_sq_rep [OF fe_sq_rep [OF fe_sq_rep [OF k]]]]] c] by simp
  ultimately show ?thesis by simp
qed

section \<open>The ladder refines the specification\<close>

lemma cswap_limb_0: "cswap_limb 0 a b = (a, b)"
  by (simp add: cswap_limb_def)

lemma cswap_limb_1: "cswap_limb (- 1) a b = (b, a)"
  by (auto simp: cswap_limb_def bit_xor_iff intro!: bit_word_eqI)

lemma fe_cswap_eq:
  "fe_cswap (if c then 1 else 0) a b = (if c then (b, a) else (a, b))"
  by (cases a; cases b) (simp add: fe_cswap_def cswap_limb_0 cswap_limb_1)

lemma bit_le_val: "n < 8 * length bs \<Longrightarrow> bit (le_val bs) n \<longleftrightarrow> bit (bs ! (n div 8)) (n mod 8)"
proof (induction bs arbitrary: n)
  case (Cons b bs)
  have b: "uint b < 2 ^ 8" using uint_bounded [of b] by simp
  have low: "take_bit 8 (le_val (b # bs)) = uint b" using b by (simp add: take_bit_eq_mod)
  have high: "drop_bit 8 (le_val (b # bs)) = le_val bs" using b by (simp add: drop_bit_eq_div)
  show ?case
  proof (cases "n < 8")
    case True
    then have "bit (le_val (b # bs)) n \<longleftrightarrow> bit (take_bit 8 (le_val (b # bs))) n"
      by (simp add: bit_take_bit_iff del: le_val.simps)
    then show ?thesis unfolding low using True by (simp add: bit_uint_iff)
  next
    case False
    then have "bit (le_val (b # bs)) n \<longleftrightarrow> bit (drop_bit 8 (le_val (b # bs))) (n - 8)"
      by (simp add: bit_drop_bit_eq del: le_val.simps)
    also have "\<dots> \<longleftrightarrow> bit (bs ! ((n - 8) div 8)) ((n - 8) mod 8)"
      unfolding high using Cons.prems False by (intro Cons.IH) simp
    finally show ?thesis using False by (simp add: nth_Cons' le_mod_geq [symmetric] le_div_geq)
  qed
qed simp

lemma scalar_bit_eq:
  assumes "pos < 8 * length e"
  shows "scalar_bit e pos = (if bit (le_val e) pos then 1 else 0)"
proof -
  have "w AND 1 = (if bit w 0 then 1 else 0)" for w :: "32 word"
    by (simp add: and_one_eq mod2_eq_if bit_0)
  moreover have "pos mod 8 < 32" by (rule less_trans [of _ 8]) simp_all
  ultimately show ?thesis
    using bit_le_val [OF assms] by (simp add: scalar_bit_def bit_drop_bit_eq bit_ucast_iff)
qed

definition spec_rep :: "ladder \<Rightarrow> lspec \<Rightarrow> bool" where
  "spec_rep s = (\<lambda>((a, b), (c, d)). fe_tight (x2 s) a \<and> fe_tight (z2 s) b \<and> fe_tight (x3 s) c \<and> fe_tight (z3 s) d)"

lemma ladder_cswap_rep:
  assumes "spec_rep s t" "swap s = (if c then 1 else 0)"
  shows "spec_rep (ladder_cswap s) (if c then prod.swap t else t)"
  using assms by (auto simp: spec_rep_def ladder_cswap_def fe_cswap_eq split: prod.splits)

lemma fe_tight_mod: "fe_tight a x \<Longrightarrow> fe_tight a (x mod p25519)"
  by (simp add: fe_tight_def)

lemma ladder_step_spec:
  assumes "fe_tight x1 u" "spec_rep s t"
  shows "spec_rep (ladder_step x1 s) (mont_step u t)"
proof -
  obtain a b c d where t: "t = ((a, b), (c, d))" by (metis surj_pair)
  have r: "fe_tight (x2 s) a" "fe_tight (z2 s) b" "fe_tight (x3 s) c" "fe_tight (z3 s) d"
    using assms(2) by (simp_all add: spec_rep_def t)
  note st = fe.ladder_step_rep [OF assms(1) r]
  show ?thesis
    using st [THEN fe_tight_mod]
    by (simp add: t spec_rep_def mont_step_def ladder_step_def Let_def fe_sq_def)
qed

text \<open>Before a round the two points are swapped exactly when the previous bit was set.\<close>

definition ladder_inv :: "ladder \<Rightarrow> bool \<Rightarrow> lspec \<Rightarrow> bool" where
  "ladder_inv s c t \<longleftrightarrow> swap s = (if c then 1 else 0) \<and> spec_rep s (if c then prod.swap t else t)"

lemma ladder_inv_final: "ladder_inv s c t \<Longrightarrow> spec_rep (ladder_cswap s) t"
  using ladder_cswap_rep [of s _ c] by (cases c) (fastforce simp: ladder_inv_def)+

lemma ladder_loop_spec:
  assumes "fe_tight x1 u" "length e = 32" "ladder_inv s c t" "n \<le> 255"
  shows "\<exists>c'. ladder_inv (ladder_loop e x1 n s) c' (mont_ladder (le_val e) u n t)"
  using assms(3,4)
proof (induction n arbitrary: s c t)
  case 0
  then show ?case by auto
next
  case (Suc n)
  let ?b = "bit (le_val e) n"
  have b: "scalar_bit e n = (if ?b then 1 else 0)"
    using Suc.prems assms(2) by (intro scalar_bit_eq) simp
  define s1 where "s1 = ladder_cswap (s\<lparr>swap := swap s XOR scalar_bit e n\<rparr>)"
  have sw: "swap s XOR scalar_bit e n = (if c \<noteq> ?b then 1 else 0)"
    using Suc.prems b by (auto simp: ladder_inv_def)
  have "spec_rep (s\<lparr>swap := swap s XOR scalar_bit e n\<rparr>) (if c then prod.swap t else t)"
    using Suc.prems by (simp add: ladder_inv_def spec_rep_def)
  from ladder_cswap_rep [OF this, of "c \<noteq> ?b"] sw have s1: "spec_rep s1 (if ?b then prod.swap t else t)"
    by (auto simp: s1_def split: if_splits)
  define s2 where "s2 = ladder_step x1 (s1\<lparr>swap := scalar_bit e n\<rparr>)"
  have "spec_rep (s1\<lparr>swap := scalar_bit e n\<rparr>) (if ?b then prod.swap t else t)"
    using s1 by (simp add: spec_rep_def)
  from ladder_step_spec [OF assms(1) this] have "ladder_inv s2 ?b (if ?b then prod.swap (mont_step u (prod.swap t)) else mont_step u t)"
    by (auto simp: ladder_inv_def s2_def b ladder_step_def Let_def)
  from Suc.IH [OF this] Suc.prems show ?case by (simp add: s2_def s1_def Let_def)
qed

lemma fe_tight_small: "fe_below (2 ^ 51) a \<Longrightarrow> fe_val a = x \<Longrightarrow> fe_tight a x"
  by (auto simp: fe_tight_def elim: fe_below_mono)

lemma fe_one_tight: "fe_tight fe_one 1" and fe_zero_tight: "fe_tight fe_zero 0"
  by (auto intro!: fe_tight_small simp: fe_one_def fe_zero_def fe_below_def fe_val_def)

lemma length_clamp [simp]: "length (clamp_scalar e) = length e"
  by (simp add: clamp_scalar_def Let_def)

lemma x25519_scalarmult_spec:
  assumes "length scalar = 32" and "length point = 32"
  shows "length (x25519_scalarmult scalar point) = 32 \<and>
    le_val (x25519_scalarmult scalar point) =
      x25519_spec (le_val (clamp_scalar scalar)) (le_val point mod 2 ^ 255)"
proof -
  define e where "e = clamp_scalar scalar"
  define x1 where "x1 = fe_frombytes point"
  define u where "u = le_val point mod 2 ^ 255"
  have x1: "fe_tight x1 u"
    unfolding x1_def u_def using fe_frombytes_correct [OF assms(2)] by (intro fe_tight_small)
  define s0 where "s0 = \<lparr>x2 = fe_one, z2 = fe_zero, x3 = x1, z3 = fe_one, swap = 0\<rparr>"
  have inv0: "ladder_inv s0 False ((1, 0), (u, 1))"
    by (simp add: ladder_inv_def spec_rep_def s0_def x1 fe_one_tight fe_zero_tight)
  have e32: "length e = 32" by (simp add: e_def assms(1))
  obtain c where inv: "ladder_inv (ladder_loop e x1 255 s0) c (mont_ladder (le_val e) u 255 ((1, 0), (u, 1)))"
    using ladder_loop_spec [OF x1 e32 inv0, of 255] by blast
  obtain a b v where t: "mont_ladder (le_val e) u 255 ((1, 0), (u, 1)) = ((a, b), v)" by (metis surj_pair)
  define s where "s = ladder_cswap (ladder_loop e x1 255 s0)"
  have "spec_rep s ((a, b), v)"
    using ladder_inv_final [OF inv] unfolding t s_def .
  then have ab: "fe_tight (x2 s) a" "fe_tight (z2 s) b" by (auto simp: spec_rep_def)
  define r where "r = fe_mul (x2 s) (fe_invert (z2 s))"
  have r: "fe_tight r (a * b ^ (2 ^ 255 - 21))"
    unfolding r_def by (intro fe.mul_rep fe.loosen fe_invert_rep ab)
  then have "fe_below (2 ^ 54) r" unfolding fe_tight_def by (elim conjE fe_below_mono) simp
  note out = fe_tobytes_correct [OF this]
  have "x25519_scalarmult scalar point = fe_tobytes r"
    unfolding x25519_scalarmult_def Let_def
    by (simp only: r_def s_def s0_def e_def x1_def take_all assms order_refl)
  moreover have "x25519_spec (le_val e) u = a * b ^ (2 ^ 255 - 21) mod p25519"
    unfolding x25519_spec_def t by simp
  ultimately show ?thesis
    using out r unfolding fe_tight_def e_def u_def by simp
qed

text \<open>
  C6. For a 32-byte scalar and a 32-byte u-coordinate, \<^verbatim>\<open>x25519_scalarmult\<close> writes exactly 32 bytes,
  and they are the canonical little-endian encoding of the RFC 7748 ladder result for the clamped
  scalar and the u-coordinate with its top bit masked: no limb operation on the way overflows.
\<close>

theorem x25519_scalarmult_correct:
  assumes "length scalar = 32" and "length point = 32"
  shows "length (x25519_scalarmult scalar point) = 32 \<and>
    le_val (x25519_scalarmult scalar point) =
      x25519_spec (le_val (clamp_scalar scalar)) (le_val point mod 2 ^ 255)"
  using x25519_scalarmult_spec [OF assms] .

theorem x25519_scalarmult_correct_witness:
  "length (replicate 32 (0::u8)) = 32 \<and> length x25519_basepoint = 32 \<and>
   length (x25519_scalarmult (replicate 32 0) x25519_basepoint) = 32 \<and>
   le_val (x25519_scalarmult (replicate 32 0) x25519_basepoint) = x25519_spec (2 ^ 254) 9"
proof -
  have l: "length (replicate 32 (0::u8)) = 32" "length x25519_basepoint = 32"
    by (simp_all add: x25519_basepoint_def)
  have "le_val (clamp_scalar (replicate 32 0)) = 2 ^ 254" by code_simp
  moreover have "le_val x25519_basepoint mod 2 ^ 255 = 9" by code_simp
  ultimately show ?thesis using l x25519_scalarmult_correct [OF l] by simp
qed

section \<open>Key pairs and agreement\<close>

lemma clamp_scalar_idem:
  assumes "length e = 32"
  shows "clamp_scalar (clamp_scalar e) = clamp_scalar e"
proof -
  have a: "x AND 248 AND 248 = x AND 248" "((x AND 127) OR 64) AND 127 OR 64 = (x AND 127) OR 64" for x :: u8
    by (simp add: and.assoc) (auto simp: bit_eq_iff bit_simps)
  show ?thesis using assms a(1) [of "e ! 0"] a(2) [of "e ! 31"]
    by (simp add: clamp_scalar_def Let_def nth_list_update list_update_swap [of 0 31])
qed

lemma clamp_low_byte: "uint ((b::u8) AND 248) mod 8 = 0"
proof -
  have "take_bit 3 (uint b AND 248) = take_bit 3 (uint b) AND take_bit 3 248" by (rule take_bit_and)
  then show ?thesis by (simp add: unsigned_and_eq take_bit_eq_mod)
qed

lemma clamp_high_byte: "64 \<le> uint (((b::u8) AND 127) OR 64)" "uint ((b AND 127) OR 64) < 128"
proof -
  have a: "0 \<le> uint b AND 127" "uint b AND 127 < 2 ^ 7" using and_less_eq [of 127 "uint b"] AND_upper2 [of 127 "uint b"] by simp_all
  show "64 \<le> uint ((b AND 127) OR 64)"
    using or_greater_eq [of "uint b AND 127" 64] by (simp add: unsigned_or_eq unsigned_and_eq or.commute)
  show "uint ((b AND 127) OR 64) < 128"
    using OR_upper [of "uint b AND 127" 7 64] a by (simp add: unsigned_or_eq unsigned_and_eq)
qed

lemma clamp_scalar_range:
  assumes "length e = 32"
  shows "le_val (clamp_scalar e) mod 8 = 0" "2 ^ 254 \<le> le_val (clamp_scalar e)" "le_val (clamp_scalar e) < 2 ^ 255"
proof -
  obtain b0 m b31 where e: "e = b0 # m @ [b31]" "length m = 30"
  proof -
    obtain b0 r where r: "e = b0 # r" "length r = 31" using assms by (cases e) auto
    then obtain m b31 where "r = m @ [b31]" by (cases r rule: rev_cases) auto
    with r that show ?thesis by simp
  qed
  have c: "clamp_scalar e = (b0 AND 248) # m @ [(b31 AND 127) OR 64]"
    using e(2) by (simp add: clamp_scalar_def e(1) nth_append list_update_append)
  have v: "le_val (clamp_scalar e) = uint (b0 AND 248) + 256 * (le_val m + 256 ^ 30 * uint ((b31 AND 127) OR 64))"
    unfolding c using e(2) by (simp add: le_val_append)
  have b: "0 \<le> le_val m" "le_val m < 256 ^ 30" using le_val_bound [of m] e(2) by simp_all
  have h: "uint (b0 AND 248) < 256" using uint_bounded [of "b0 AND 248"] by simp
  have lo: "0 \<le> x \<Longrightarrow> 0 \<le> y \<Longrightarrow> 64 \<le> z \<Longrightarrow> (2::int) ^ 254 \<le> x + 256 * (y + 256 ^ 30 * z)" for x y z
    by simp
  show "le_val (clamp_scalar e) mod 8 = 0"
    unfolding v using clamp_low_byte [of b0] by (simp add: mod_eq_0_iff_dvd)
  show "2 ^ 254 \<le> le_val (clamp_scalar e)"
    unfolding v by (rule lo) (use clamp_high_byte(1) [of b31] b in simp_all)
  show "le_val (clamp_scalar e) < 2 ^ 255"
    unfolding v using clamp_high_byte(2) [of b31] b h by simp
qed

lemma secure_random_loop_length:
  "reader_ok rd \<Longrightarrow> tot \<le> len \<Longrightarrow> length buf = len \<Longrightarrow>
   length (snd (secure_random_loop rd len k buf tot)) = len"
proof (induction rd len k buf tot rule: secure_random_loop.induct)
  case (1 rd len k buf tot)
  have "length bs \<le> len - tot" if "rd k (len - tot) = Some bs" for bs
    using that 1(2) by (auto simp: reader_ok_def)
  with 1 show ?case
    by (subst secure_random_loop.simps) (auto split: option.split)
qed

lemma secure_random_length:
  "reader_ok rd \<Longrightarrow> length buf = len \<Longrightarrow> length (snd (secure_random ok rd buf len)) = len"
  by (simp add: secure_random_def secure_random_loop_length)

lemma fold_or_eq_0: "fold (\<lambda>i z. z OR f i) xs (z0::u8) = 0 \<longleftrightarrow> z0 = 0 \<and> (\<forall>i\<in>set xs. f i = 0)"
  by (induction xs arbitrary: z0) (auto simp: or_eq_0_iff)

lemma le_val_eq_0: "le_val bs = 0 \<longleftrightarrow> (\<forall>i<length bs. bs ! i = 0)"
proof (induction bs)
  case (Cons b bs)
  have "uint b + 256 * le_val bs = 0 \<longleftrightarrow> uint b = 0 \<and> le_val bs = 0"
    using le_val_nonneg [of bs] uint_ge_0 [of b] by linarith
  then show ?case using Cons by (auto simp: nth_Cons' All_less_Suc2 word_uint_eq_iff)
qed simp

text \<open>
  C24. Key agreement reports failure (-1) exactly when the RFC 7748 result is the all-zero point, and
  otherwise returns 0 with the 32-byte shared secret.
\<close>

theorem x25519_key_agreement_correct:
  assumes "length private_key = 32" and "length peer = 32"
  defines "z \<equiv> x25519_spec (le_val (clamp_scalar private_key)) (le_val peer mod 2 ^ 255)"
  shows "fst (x25519_key_agreement private_key peer) = (if z = 0 then -1 else 0) \<and>
    le_val (snd (x25519_key_agreement private_key peer)) = z"
proof -
  define s where "s = x25519_scalarmult private_key peer"
  have s: "length s = 32" "le_val s = z"
    using x25519_scalarmult_spec [OF assms(1,2)] by (simp_all add: s_def z_def)
  have "fold (\<lambda>i zero. zero OR s ! i) [0..<32] 0 = 0 \<longleftrightarrow> z = 0"
    unfolding fold_or_eq_0 s(2) [symmetric] le_val_eq_0 s(1) by auto
  then show ?thesis using s by (simp add: x25519_key_agreement_def Let_def s_def [symmetric])
qed

theorem x25519_key_agreement_correct_witness:
  "fst (x25519_key_agreement (replicate 32 0) x25519_basepoint) =
     (if x25519_spec (2 ^ 254) 9 = 0 then -1 else 0) \<and>
   le_val (snd (x25519_key_agreement (replicate 32 0) x25519_basepoint)) = x25519_spec (2 ^ 254) 9"
proof -
  have l: "length (replicate 32 (0::u8)) = 32" "length x25519_basepoint = 32"
    by (simp_all add: x25519_basepoint_def)
  have "le_val (clamp_scalar (replicate 32 0)) = 2 ^ 254" by code_simp
  moreover have "le_val x25519_basepoint mod 2 ^ 255 = 9" by code_simp
  ultimately show ?thesis using x25519_key_agreement_correct [OF l] by simp
qed



end
