(* ===== verification/Blake3.thy ===== *)
theory Blake3
  imports Prelude
begin

text \<open>
  The BLAKE3 hash of \<^verbatim>\<open>blake3/\<close>: the constants and helpers of \<^verbatim>\<open>blake3_impl.h\<close>, the compression function of
  \<^verbatim>\<open>blake3_portable.c\<close>, the portable dispatch of \<^verbatim>\<open>blake3_dispatch.c\<close>, and the chunk state, the subtree compressor
  and the incremental hasher of \<^verbatim>\<open>blake3.c\<close>. A C array is a list, a pointer with a length is the list of the bytes it
  covers, an out-parameter is a result. The arrays \<^verbatim>\<open>buf\<close> (64 bytes) and \<^verbatim>\<open>cv_stack\<close> (1760 bytes) are lists that a
  copy out of range would lengthen, so that a length is an observable bound. Uninitialised C storage is the argument
  \<open>self\<close> of the initialisers, with any content; \<^verbatim>\<open>cv_array\<close> starts as zeros, of which nothing is read.
\<close>

section \<open>Constants and helpers of blake3\_impl.h\<close>

definition CHUNK_START :: u8 where "CHUNK_START = push_bit 0 1"
definition CHUNK_END :: u8 where "CHUNK_END = push_bit 1 1"
definition PARENT :: u8 where "PARENT = push_bit 2 1"
definition ROOT :: u8 where "ROOT = push_bit 3 1"
definition KEYED_HASH :: u8 where "KEYED_HASH = push_bit 4 1"
definition DERIVE_KEY_CONTEXT :: u8 where "DERIVE_KEY_CONTEXT = push_bit 5 1"
definition DERIVE_KEY_MATERIAL :: u8 where "DERIVE_KEY_MATERIAL = push_bit 6 1"

abbreviation (input) BLAKE3_KEY_LEN :: nat where "BLAKE3_KEY_LEN \<equiv> 32"
abbreviation (input) BLAKE3_OUT_LEN :: nat where "BLAKE3_OUT_LEN \<equiv> 32"
abbreviation (input) BLAKE3_BLOCK_LEN :: nat where "BLAKE3_BLOCK_LEN \<equiv> 64"
abbreviation (input) BLAKE3_CHUNK_LEN :: nat where "BLAKE3_CHUNK_LEN \<equiv> 1024"
abbreviation (input) BLAKE3_MAX_DEPTH :: nat where "BLAKE3_MAX_DEPTH \<equiv> 54"
abbreviation (input) MAX_SIMD_DEGREE_OR_2 :: nat where "MAX_SIMD_DEGREE_OR_2 \<equiv> 2"

definition IV :: "u32 list" where
  "IV = [0x6A09E667, 0xBB67AE85, 0x3C6EF372, 0xA54FF53A, 0x510E527F, 0x9B05688C, 0x1F83D9AB, 0x5BE0CD19]"

definition MSG_SCHEDULE :: "nat list list" where
  "MSG_SCHEDULE = [
    [0, 1, 2, 3, 4, 5, 6, 7, 8, 9, 10, 11, 12, 13, 14, 15],
    [2, 6, 3, 10, 7, 0, 4, 13, 1, 11, 12, 5, 9, 14, 15, 8],
    [3, 4, 10, 12, 13, 2, 7, 14, 6, 5, 9, 0, 11, 15, 8, 1],
    [10, 7, 12, 9, 14, 3, 13, 15, 4, 0, 11, 2, 5, 8, 1, 6],
    [12, 13, 9, 11, 15, 10, 14, 8, 7, 2, 5, 3, 0, 1, 6, 4],
    [9, 14, 11, 5, 8, 12, 15, 1, 13, 3, 0, 10, 2, 6, 4, 7],
    [11, 15, 5, 0, 1, 9, 8, 6, 14, 10, 2, 12, 3, 4, 7, 13]]"

text \<open>The position of the highest set bit and the number of set bits, as the compiler builtins give them.\<close>

fun msb_index :: "nat \<Rightarrow> nat" where
  "msb_index n = (if n \<le> 1 then 0 else Suc (msb_index (n div 2)))"

fun bit_count :: "nat \<Rightarrow> nat" where
  "bit_count n = (if n = 0 then 0 else n mod 2 + bit_count (n div 2))"

declare msb_index.simps [simp del] bit_count.simps [simp del]

definition clzll :: "u64 \<Rightarrow> nat" where
  "clzll x = 63 - msb_index (unat x)"

definition highest_one :: "u64 \<Rightarrow> nat" where
  "highest_one x = 63 XOR clzll x"

definition popcnt :: "u64 \<Rightarrow> nat" where
  "popcnt x = bit_count (unat x)"

definition round_down_to_power_of_2 :: "u64 \<Rightarrow> u64" where
  "round_down_to_power_of_2 x = push_bit (highest_one (x OR 1)) 1"

definition counter_low :: "u64 \<Rightarrow> u32" where "counter_low c = ucast c"
definition counter_high :: "u64 \<Rightarrow> u32" where "counter_high c = ucast (drop_bit 32 c)"

definition load32 :: "u8 list \<Rightarrow> nat \<Rightarrow> u32" where
  "load32 p i = push_bit 0 (ucast (p ! i)) OR push_bit 8 (ucast (p ! (i + 1))) OR
     push_bit 16 (ucast (p ! (i + 2))) OR push_bit 24 (ucast (p ! (i + 3)))"

definition load_key_words :: "u8 list \<Rightarrow> u32 list" where
  "load_key_words key = [load32 key (0 * 4), load32 key (1 * 4), load32 key (2 * 4), load32 key (3 * 4),
     load32 key (4 * 4), load32 key (5 * 4), load32 key (6 * 4), load32 key (7 * 4)]"

definition store32 :: "u32 \<Rightarrow> u8 list" where
  "store32 w = [ucast (drop_bit 0 w), ucast (drop_bit 8 w), ucast (drop_bit 16 w), ucast (drop_bit 24 w)]"

definition store_cv_words :: "u32 list \<Rightarrow> u8 list" where
  "store_cv_words cv = store32 (cv ! 0) @ store32 (cv ! 1) @ store32 (cv ! 2) @ store32 (cv ! 3) @
     store32 (cv ! 4) @ store32 (cv ! 5) @ store32 (cv ! 6) @ store32 (cv ! 7)"

section \<open>The compression function of blake3\_portable.c\<close>

definition rotr32 :: "u32 \<Rightarrow> nat \<Rightarrow> u32" where
  "rotr32 w c = drop_bit c w OR push_bit (32 - c) w"

definition g :: "u32 list \<Rightarrow> nat \<Rightarrow> nat \<Rightarrow> nat \<Rightarrow> nat \<Rightarrow> u32 \<Rightarrow> u32 \<Rightarrow> u32 list" where
  "g state a b c d x y =
    (let state = state[a := state ! a + state ! b + x];
         state = state[d := rotr32 (state ! d XOR state ! a) 16];
         state = state[c := state ! c + state ! d];
         state = state[b := rotr32 (state ! b XOR state ! c) 12];
         state = state[a := state ! a + state ! b + y];
         state = state[d := rotr32 (state ! d XOR state ! a) 8];
         state = state[c := state ! c + state ! d];
         state = state[b := rotr32 (state ! b XOR state ! c) 7]
     in state)"

definition round_fn :: "u32 list \<Rightarrow> u32 list \<Rightarrow> nat \<Rightarrow> u32 list" where
  "round_fn state msg round =
    (let s = MSG_SCHEDULE ! round;
         state = g state 0 4 8 12 (msg ! (s ! 0)) (msg ! (s ! 1));
         state = g state 1 5 9 13 (msg ! (s ! 2)) (msg ! (s ! 3));
         state = g state 2 6 10 14 (msg ! (s ! 4)) (msg ! (s ! 5));
         state = g state 3 7 11 15 (msg ! (s ! 6)) (msg ! (s ! 7));
         state = g state 0 5 10 15 (msg ! (s ! 8)) (msg ! (s ! 9));
         state = g state 1 6 11 12 (msg ! (s ! 10)) (msg ! (s ! 11));
         state = g state 2 7 8 13 (msg ! (s ! 12)) (msg ! (s ! 13));
         state = g state 3 4 9 14 (msg ! (s ! 14)) (msg ! (s ! 15))
     in state)"

definition compress_pre :: "u32 list \<Rightarrow> u8 list \<Rightarrow> u8 \<Rightarrow> u64 \<Rightarrow> u8 \<Rightarrow> u32 list" where
  "compress_pre cv block block_len counter flags =
    (let block_words = map (\<lambda>i. load32 block (4 * i)) [0..<16];
         state = [cv ! 0, cv ! 1, cv ! 2, cv ! 3, cv ! 4, cv ! 5, cv ! 6, cv ! 7,
                  IV ! 0, IV ! 1, IV ! 2, IV ! 3,
                  counter_low counter, counter_high counter, ucast block_len, ucast flags];
         state = round_fn state block_words 0;
         state = round_fn state block_words 1;
         state = round_fn state block_words 2;
         state = round_fn state block_words 3;
         state = round_fn state block_words 4;
         state = round_fn state block_words 5;
         state = round_fn state block_words 6
     in state)"

definition blake3_compress_in_place_portable :: "u32 list \<Rightarrow> u8 list \<Rightarrow> u8 \<Rightarrow> u64 \<Rightarrow> u8 \<Rightarrow> u32 list" where
  "blake3_compress_in_place_portable cv block block_len counter flags =
    (let state = compress_pre cv block block_len counter flags
     in [state ! 0 XOR state ! 8, state ! 1 XOR state ! 9, state ! 2 XOR state ! 10, state ! 3 XOR state ! 11,
         state ! 4 XOR state ! 12, state ! 5 XOR state ! 13, state ! 6 XOR state ! 14, state ! 7 XOR state ! 15])"

definition blake3_compress_xof_portable :: "u32 list \<Rightarrow> u8 list \<Rightarrow> u8 \<Rightarrow> u64 \<Rightarrow> u8 \<Rightarrow> u8 list" where
  "blake3_compress_xof_portable cv block block_len counter flags =
    (let state = compress_pre cv block block_len counter flags
     in store32 (state ! 0 XOR state ! 8) @ store32 (state ! 1 XOR state ! 9) @
        store32 (state ! 2 XOR state ! 10) @ store32 (state ! 3 XOR state ! 11) @
        store32 (state ! 4 XOR state ! 12) @ store32 (state ! 5 XOR state ! 13) @
        store32 (state ! 6 XOR state ! 14) @ store32 (state ! 7 XOR state ! 15) @
        store32 (state ! 8 XOR cv ! 0) @ store32 (state ! 9 XOR cv ! 1) @
        store32 (state ! 10 XOR cv ! 2) @ store32 (state ! 11 XOR cv ! 3) @
        store32 (state ! 12 XOR cv ! 4) @ store32 (state ! 13 XOR cv ! 5) @
        store32 (state ! 14 XOR cv ! 6) @ store32 (state ! 15 XOR cv ! 7))"

fun hash_one_blocks :: "u8 list \<Rightarrow> nat \<Rightarrow> u32 list \<Rightarrow> u64 \<Rightarrow> u8 \<Rightarrow> u8 \<Rightarrow> u8 \<Rightarrow> u32 list" where
  "hash_one_blocks input 0 cv counter block_flags flags flags_end = cv"
| "hash_one_blocks input (Suc blocks) cv counter block_flags flags flags_end =
    (let block_flags = (if Suc blocks = 1 then block_flags OR flags_end else block_flags);
         cv = blake3_compress_in_place_portable cv (take BLAKE3_BLOCK_LEN input) (of_nat BLAKE3_BLOCK_LEN) counter block_flags
     in hash_one_blocks (drop BLAKE3_BLOCK_LEN input) blocks cv counter flags flags flags_end)"

definition hash_one_portable :: "u8 list \<Rightarrow> nat \<Rightarrow> u32 list \<Rightarrow> u64 \<Rightarrow> u8 \<Rightarrow> u8 \<Rightarrow> u8 \<Rightarrow> u8 list" where
  "hash_one_portable input blocks key counter flags flags_start flags_end =
     store_cv_words (hash_one_blocks input blocks key counter (flags OR flags_start) flags flags_end)"

fun blake3_hash_many_portable ::
  "u8 list list \<Rightarrow> nat \<Rightarrow> u32 list \<Rightarrow> u64 \<Rightarrow> bool \<Rightarrow> u8 \<Rightarrow> u8 \<Rightarrow> u8 \<Rightarrow> u8 list" where
  "blake3_hash_many_portable [] blocks key counter inc flags flags_start flags_end = []"
| "blake3_hash_many_portable (input # inputs) blocks key counter inc flags flags_start flags_end =
     hash_one_portable input blocks key counter flags flags_start flags_end @
     blake3_hash_many_portable inputs blocks key (if inc then counter + 1 else counter) inc flags flags_start flags_end"

section \<open>The dispatch of blake3\_dispatch.c\<close>

definition blake3_compress_in_place :: "u32 list \<Rightarrow> u8 list \<Rightarrow> u8 \<Rightarrow> u64 \<Rightarrow> u8 \<Rightarrow> u32 list" where
  "blake3_compress_in_place = blake3_compress_in_place_portable"

definition blake3_compress_xof :: "u32 list \<Rightarrow> u8 list \<Rightarrow> u8 \<Rightarrow> u64 \<Rightarrow> u8 \<Rightarrow> u8 list" where
  "blake3_compress_xof = blake3_compress_xof_portable"

fun blake3_xof_many :: "u32 list \<Rightarrow> u8 list \<Rightarrow> u8 \<Rightarrow> u64 \<Rightarrow> u8 \<Rightarrow> nat \<Rightarrow> u8 list" where
  "blake3_xof_many cv block block_len counter flags 0 = []"
| "blake3_xof_many cv block block_len counter flags (Suc outblocks) =
     blake3_compress_xof_portable cv block block_len counter flags @
     blake3_xof_many cv block block_len (counter + 1) flags outblocks"

definition blake3_hash_many ::
  "u8 list list \<Rightarrow> nat \<Rightarrow> u32 list \<Rightarrow> u64 \<Rightarrow> bool \<Rightarrow> u8 \<Rightarrow> u8 \<Rightarrow> u8 \<Rightarrow> u8 list" where
  "blake3_hash_many = blake3_hash_many_portable"

definition blake3_simd_degree :: nat where "blake3_simd_degree = 1"

section \<open>The chunk state of blake3.c\<close>

record blake3_chunk_state =
  cs_cv :: "u32 list"
  cs_counter :: u64
  cs_buf :: "u8 list"
  cs_buf_len :: u8
  cs_blocks_compressed :: u8
  cs_flags :: u8

record output_t =
  o_input_cv :: "u32 list"
  o_counter :: u64
  o_block :: "u8 list"
  o_block_len :: u8
  o_flags :: u8

definition chunk_state_init :: "u32 list \<Rightarrow> u8 \<Rightarrow> blake3_chunk_state" where
  "chunk_state_init key flags =
     \<lparr>cs_cv = key, cs_counter = 0, cs_buf = replicate BLAKE3_BLOCK_LEN 0, cs_buf_len = 0,
      cs_blocks_compressed = 0, cs_flags = flags\<rparr>"

definition chunk_state_reset :: "blake3_chunk_state \<Rightarrow> u32 list \<Rightarrow> u64 \<Rightarrow> blake3_chunk_state" where
  "chunk_state_reset self key chunk_counter =
     self\<lparr>cs_cv := key, cs_counter := chunk_counter, cs_blocks_compressed := 0,
          cs_buf := replicate BLAKE3_BLOCK_LEN 0, cs_buf_len := 0\<rparr>"

definition chunk_state_len :: "blake3_chunk_state \<Rightarrow> nat" where
  "chunk_state_len self = BLAKE3_BLOCK_LEN * unat (cs_blocks_compressed self) + unat (cs_buf_len self)"

definition chunk_state_fill_buf :: "blake3_chunk_state \<Rightarrow> u8 list \<Rightarrow> blake3_chunk_state \<times> nat" where
  "chunk_state_fill_buf self input =
    (let tk = BLAKE3_BLOCK_LEN - unat (cs_buf_len self);
         tk = (if tk > length input then length input else tk)
     in (self\<lparr>cs_buf := blit (cs_buf self) (unat (cs_buf_len self)) (take tk input),
              cs_buf_len := cs_buf_len self + of_nat tk\<rparr>, tk))"

definition chunk_state_maybe_start_flag :: "blake3_chunk_state \<Rightarrow> u8" where
  "chunk_state_maybe_start_flag self = (if cs_blocks_compressed self = 0 then CHUNK_START else 0)"

definition make_output :: "u32 list \<Rightarrow> u8 list \<Rightarrow> u8 \<Rightarrow> u64 \<Rightarrow> u8 \<Rightarrow> output_t" where
  "make_output input_cv block block_len counter flags =
     \<lparr>o_input_cv = input_cv, o_counter = counter, o_block = block, o_block_len = block_len, o_flags = flags\<rparr>"

definition output_chaining_value :: "output_t \<Rightarrow> u8 list" where
  "output_chaining_value self =
     store_cv_words (blake3_compress_in_place (o_input_cv self) (o_block self) (o_block_len self)
       (o_counter self) (o_flags self))"

definition output_root_bytes :: "output_t \<Rightarrow> u64 \<Rightarrow> nat \<Rightarrow> u8 list" where
  "output_root_bytes self seek out_len =
    (if out_len = 0 then []
     else
       let output_block_counter = seek div 64;
           offset_within_block = unat (seek mod 64);
           xof = (\<lambda>c. blake3_compress_xof (o_input_cv self) (o_block self) (o_block_len self) c (o_flags self OR ROOT));
           (out1, out_len, output_block_counter) =
             (if offset_within_block \<noteq> 0 then
                let wide_buf = xof output_block_counter;
                    available_bytes = 64 - offset_within_block;
                    bytes = (if out_len > available_bytes then available_bytes else out_len)
                in (take bytes (drop offset_within_block wide_buf), out_len - bytes, output_block_counter + 1)
              else ([], out_len, output_block_counter));
           out2 =
             (if out_len div 64 \<noteq> 0 then
                blake3_xof_many (o_input_cv self) (o_block self) (o_block_len self) output_block_counter
                  (o_flags self OR ROOT) (out_len div 64)
              else []);
           output_block_counter = output_block_counter + of_nat (out_len div 64);
           out_len = out_len mod 64;
           out3 = (if out_len \<noteq> 0 then take out_len (xof output_block_counter) else [])
       in out1 @ out2 @ out3)"

fun chunk_state_blocks :: "blake3_chunk_state \<Rightarrow> u8 list \<Rightarrow> blake3_chunk_state \<times> u8 list" where
  "chunk_state_blocks self input =
    (if length input > BLAKE3_BLOCK_LEN then
       chunk_state_blocks
         (self\<lparr>cs_cv := blake3_compress_in_place (cs_cv self) (take BLAKE3_BLOCK_LEN input) (of_nat BLAKE3_BLOCK_LEN)
                 (cs_counter self) (cs_flags self OR chunk_state_maybe_start_flag self),
               cs_blocks_compressed := cs_blocks_compressed self + 1\<rparr>)
         (drop BLAKE3_BLOCK_LEN input)
     else (self, input))"

declare chunk_state_blocks.simps [simp del]

definition chunk_state_update :: "blake3_chunk_state \<Rightarrow> u8 list \<Rightarrow> blake3_chunk_state" where
  "chunk_state_update self input =
    (let (self, input) =
           (if unat (cs_buf_len self) > 0 then
              let (self, tk) = chunk_state_fill_buf self input;
                  input = drop tk input
              in if length input > 0 then
                   (self\<lparr>cs_cv := blake3_compress_in_place (cs_cv self) (cs_buf self) (of_nat BLAKE3_BLOCK_LEN)
                           (cs_counter self) (cs_flags self OR chunk_state_maybe_start_flag self),
                         cs_blocks_compressed := cs_blocks_compressed self + 1,
                         cs_buf_len := 0,
                         cs_buf := replicate BLAKE3_BLOCK_LEN 0\<rparr>, input)
                 else (self, input)
            else (self, input));
         (self, input) = chunk_state_blocks self input
     in fst (chunk_state_fill_buf self input))"

definition chunk_state_output :: "blake3_chunk_state \<Rightarrow> output_t" where
  "chunk_state_output self =
     make_output (cs_cv self) (cs_buf self) (cs_buf_len self) (cs_counter self)
       (cs_flags self OR chunk_state_maybe_start_flag self OR CHUNK_END)"

definition parent_output :: "u8 list \<Rightarrow> u32 list \<Rightarrow> u8 \<Rightarrow> output_t" where
  "parent_output block key flags = make_output key block (of_nat BLAKE3_BLOCK_LEN) 0 (flags OR PARENT)"

section \<open>Subtrees\<close>

definition left_subtree_len :: "nat \<Rightarrow> nat" where
  "left_subtree_len input_len =
     unat (round_down_to_power_of_2 (of_nat ((input_len - 1) div BLAKE3_CHUNK_LEN))) * BLAKE3_CHUNK_LEN"

fun whole_chunks :: "u8 list \<Rightarrow> u8 list list" where
  "whole_chunks input =
    (if length input \<ge> BLAKE3_CHUNK_LEN then take BLAKE3_CHUNK_LEN input # whole_chunks (drop BLAKE3_CHUNK_LEN input) else [])"

declare whole_chunks.simps [simp del]

definition compress_chunks_parallel :: "u8 list \<Rightarrow> u32 list \<Rightarrow> u64 \<Rightarrow> u8 \<Rightarrow> u8 list" where
  "compress_chunks_parallel input key chunk_counter flags =
    (let chunks_array = whole_chunks input;
         chunks_array_len = length chunks_array;
         input_position = BLAKE3_CHUNK_LEN * chunks_array_len;
         out = blake3_hash_many chunks_array (BLAKE3_CHUNK_LEN div BLAKE3_BLOCK_LEN) key chunk_counter True flags
                 CHUNK_START CHUNK_END
     in if length input > input_position then
          let chunk_state = (chunk_state_init key flags)\<lparr>cs_counter := chunk_counter + of_nat chunks_array_len\<rparr>;
              chunk_state = chunk_state_update chunk_state (drop input_position input)
          in out @ output_chaining_value (chunk_state_output chunk_state)
        else out)"

definition compress_parents_parallel :: "u8 list \<Rightarrow> nat \<Rightarrow> u32 list \<Rightarrow> u8 \<Rightarrow> u8 list" where
  "compress_parents_parallel child_chaining_values num_chaining_values key flags =
    (let parents_array_len = num_chaining_values div 2;
         parents_array = map (\<lambda>i. drop (2 * i * BLAKE3_OUT_LEN) child_chaining_values) [0..<parents_array_len];
         out = blake3_hash_many parents_array 1 key 0 False (flags OR PARENT) 0 0
     in if num_chaining_values > 2 * parents_array_len then
          out @ take BLAKE3_OUT_LEN (drop (2 * parents_array_len * BLAKE3_OUT_LEN) child_chaining_values)
        else out)"

lemma msb_index_bounds: "0 < n \<Longrightarrow> 2 ^ msb_index n \<le> n \<and> n < 2 * 2 ^ msb_index n"
proof (induction n rule: msb_index.induct)
  case (1 n)
  then show ?case by (cases "n \<le> 1") (auto simp: msb_index.simps [of n])
qed

lemma unat_bound64: "unat (x::u64) < 2 ^ 64"
  using unsigned_less [of x] by simp

lemma msb_index_64: "msb_index (unat (x::u64)) \<le> 63"
proof (cases "unat x = 0")
  case False
  then have "(2::nat) ^ msb_index (unat x) < 2 ^ 64"
    using msb_index_bounds [of "unat x"] unat_bound64 [of x] by simp
  then show ?thesis using power_less_imp_less_exp [of "2::nat" _ 64] by fastforce
qed (simp add: msb_index.simps)

lemma highest_one_msb: "highest_one x = msb_index (unat x)"
proof -
  have "\<forall>h\<in>set [0..<64]. (63::nat) XOR (63 - h) = h" by code_simp
  then show ?thesis using msb_index_64 [of x] by (simp add: highest_one_def clzll_def)
qed

lemma unat_or_1: "unat ((x::u64) OR 1) = unat x + of_bool (even (unat x))"
  by (subst unsigned_or_eq) (simp only: unsigned_1 or_one_eq)

lemma msb_index_small: "msb_index 0 = 0" "msb_index (Suc 0) = 0"
  by (simp_all add: msb_index.simps)

lemma msb_index_or_1: "0 < n \<Longrightarrow> even n \<Longrightarrow> msb_index (Suc n) = msb_index n"
  by (subst (1 2) msb_index.simps) auto

lemma unat_push_bit_1: "m \<le> 63 \<Longrightarrow> unat (push_bit m (1::u64)) = 2 ^ m"
proof -
  assume "m \<le> 63"
  then have "(2::int) ^ m < 2 ^ 64" by (intro power_strict_increasing) auto
  then have u: "uint (push_bit m (1::u64)) = 2 ^ m" unfolding uint_push_bit_mod by simp
  show ?thesis unfolding unat_eq_nat_uint u by (simp add: nat_power_eq)
qed

lemma unat_round_down: "unat (round_down_to_power_of_2 x) = 2 ^ msb_index (unat x)"
proof -
  have "msb_index (unat (x OR 1)) = msb_index (unat x)"
    unfolding unat_or_1 by (cases "unat x = 0") (auto simp: msb_index_or_1 msb_index_small)
  then show ?thesis
    unfolding round_down_to_power_of_2_def highest_one_msb
    using unat_push_bit_1 [OF msb_index_64] by simp
qed

lemma sub_less_1024: "1024 < (m::nat) \<Longrightarrow> 0 < k \<Longrightarrow> m - k < m"
  by simp

lemma left_subtree_len_pos: "0 < left_subtree_len n"
  by (simp add: left_subtree_len_def unat_round_down)

lemma left_subtree_len_less:
  assumes "BLAKE3_CHUNK_LEN < n"
  shows "left_subtree_len n < n"
proof -
  define m where "m = (n - 1) div 1024"
  have m: "1 \<le> m" using assms by (simp add: m_def)
  have "2 ^ msb_index (unat (of_nat m :: u64)) \<le> m"
  proof (cases "unat (of_nat m :: u64) = 0")
    case True
    then show ?thesis using m by (simp add: msb_index.simps)
  next
    case False
    have "unat (of_nat m :: u64) \<le> m" by (simp add: unat_of_nat)
    with False show ?thesis using msb_index_bounds [of "unat (of_nat m :: u64)"] by linarith
  qed
  then have "left_subtree_len n \<le> m * 1024"
    unfolding left_subtree_len_def unat_round_down m_def [symmetric] by simp
  also have "\<dots> < n" using assms by (simp add: m_def) 
  finally show ?thesis .
qed

function blake3_compress_subtree_wide :: "u8 list \<Rightarrow> u32 list \<Rightarrow> u64 \<Rightarrow> u8 \<Rightarrow> u8 list" where
  "blake3_compress_subtree_wide input key chunk_counter flags =
    (if length input \<le> blake3_simd_degree * BLAKE3_CHUNK_LEN then
       compress_chunks_parallel input key chunk_counter flags
     else
       let left_input_len = left_subtree_len (length input);
           right_input = drop left_input_len input;
           right_chunk_counter = chunk_counter + of_nat (left_input_len div BLAKE3_CHUNK_LEN);
           degree = (if left_input_len > BLAKE3_CHUNK_LEN \<and> blake3_simd_degree = 1 then 2 else blake3_simd_degree);
           left_out = blake3_compress_subtree_wide (take left_input_len input) key chunk_counter flags;
           right_out = blake3_compress_subtree_wide right_input key right_chunk_counter flags;
           cv_array = blit (blit (replicate (2 * MAX_SIMD_DEGREE_OR_2 * BLAKE3_OUT_LEN) 0) 0 left_out)
                        (degree * BLAKE3_OUT_LEN) right_out;
           left_n = length left_out div BLAKE3_OUT_LEN;
           right_n = length right_out div BLAKE3_OUT_LEN
       in if left_n = 1 then take (2 * BLAKE3_OUT_LEN) cv_array
          else compress_parents_parallel cv_array (left_n + right_n) key flags)"
  by pat_completeness auto
termination
  by (relation "measure (\<lambda>(input, _). length input)")
    (simp_all add: blake3_simd_degree_def left_subtree_len_less left_subtree_len_pos sub_less_1024)

declare blake3_compress_subtree_wide.simps [simp del]

definition compress_subtree_to_parent_node :: "u8 list \<Rightarrow> u32 list \<Rightarrow> u64 \<Rightarrow> u8 \<Rightarrow> u8 list" where
  "compress_subtree_to_parent_node input key chunk_counter flags =
     take (2 * BLAKE3_OUT_LEN) (blake3_compress_subtree_wide input key chunk_counter flags)"

section \<open>The hasher\<close>

record blake3_hasher =
  h_key :: "u32 list"
  h_chunk :: blake3_chunk_state
  h_cv_stack_len :: u8
  h_cv_stack :: "u8 list"

definition hasher_init_base :: "blake3_hasher \<Rightarrow> u32 list \<Rightarrow> u8 \<Rightarrow> blake3_hasher" where
  "hasher_init_base self key flags =
     self\<lparr>h_key := key, h_chunk := chunk_state_init key flags, h_cv_stack_len := 0\<rparr>"

definition blake3_hasher_init :: "blake3_hasher \<Rightarrow> blake3_hasher" where
  "blake3_hasher_init self = hasher_init_base self IV 0"

definition blake3_hasher_init_keyed :: "blake3_hasher \<Rightarrow> u8 list \<Rightarrow> blake3_hasher" where
  "blake3_hasher_init_keyed self key = hasher_init_base self (load_key_words key) KEYED_HASH"

lemma unat_minus_one_less: "n < unat (w::'a::len word) \<Longrightarrow> unat (w - 1) < unat w"
  by (metis diff_less not_less_zero unat_eq_zero unat_minus_one zero_less_one neq0_conv)

function hasher_merge_loop :: "blake3_hasher \<Rightarrow> nat \<Rightarrow> blake3_hasher" where
  "hasher_merge_loop self post_merge_stack_len =
    (if unat (h_cv_stack_len self) > post_merge_stack_len then
       let pos = (unat (h_cv_stack_len self) - 2) * BLAKE3_OUT_LEN;
           out = parent_output (take BLAKE3_BLOCK_LEN (drop pos (h_cv_stack self))) (h_key self) (cs_flags (h_chunk self))
       in hasher_merge_loop
            (self\<lparr>h_cv_stack := blit (h_cv_stack self) pos (output_chaining_value out),
                  h_cv_stack_len := h_cv_stack_len self - 1\<rparr>) post_merge_stack_len
     else self)"
  by pat_completeness auto
termination
  by (relation "measure (\<lambda>(self, _). unat (h_cv_stack_len self))")
    (auto simp: unat_minus_one_less)

declare hasher_merge_loop.simps [simp del]

definition hasher_merge_cv_stack :: "blake3_hasher \<Rightarrow> u64 \<Rightarrow> blake3_hasher" where
  "hasher_merge_cv_stack self total_len = hasher_merge_loop self (popcnt total_len)"

definition hasher_push_cv :: "blake3_hasher \<Rightarrow> u8 list \<Rightarrow> u64 \<Rightarrow> blake3_hasher" where
  "hasher_push_cv self new_cv chunk_counter =
    (let self = hasher_merge_cv_stack self chunk_counter
     in self\<lparr>h_cv_stack := blit (h_cv_stack self) (unat (h_cv_stack_len self) * BLAKE3_OUT_LEN) (take BLAKE3_OUT_LEN new_cv),
             h_cv_stack_len := h_cv_stack_len self + 1\<rparr>)"

function shrink_subtree :: "nat \<Rightarrow> u64 \<Rightarrow> nat" where
  "shrink_subtree subtree_len count_so_far =
    (if (of_nat (subtree_len - 1) AND count_so_far) \<noteq> 0 then shrink_subtree (subtree_len div 2) count_so_far
     else subtree_len)"
  by pat_completeness auto
termination
proof (relation "measure (\<lambda>(n, c). n)")
  fix n :: nat and c :: u64
  assume "(of_nat (n - 1) AND c) \<noteq> 0"
  then have "n - 1 \<noteq> 0" by (cases "n - 1 = 0") auto
  then show "((n div 2, c), n, c) \<in> measure (\<lambda>(n, c). n)" by simp
qed simp

declare shrink_subtree.simps [simp del]

lemma shrink_subtree_pos: "0 < n \<Longrightarrow> 0 < shrink_subtree n c"
proof (induction n c rule: shrink_subtree.induct)
  case (1 n c)
  show ?case
  proof (cases "n = 1")
    case True
    then show ?thesis by (subst shrink_subtree.simps) simp
  next
    case False
    with 1 show ?thesis by (subst shrink_subtree.simps) auto
  qed
qed

definition update_subtree_len :: "blake3_hasher \<Rightarrow> nat \<Rightarrow> nat" where
  "update_subtree_len self input_len =
     shrink_subtree (unat (round_down_to_power_of_2 (of_nat input_len)))
       (cs_counter (h_chunk self) * of_nat BLAKE3_CHUNK_LEN)"

lemma update_subtree_len_pos: "0 < update_subtree_len self n"
  by (simp add: update_subtree_len_def unat_round_down shrink_subtree_pos)

definition hasher_absorb_subtree :: "blake3_hasher \<Rightarrow> u8 list \<Rightarrow> nat \<Rightarrow> blake3_hasher" where
  "hasher_absorb_subtree self input subtree_len =
    (let subtree_chunks = (of_nat (subtree_len div BLAKE3_CHUNK_LEN) :: u64);
         self =
           (if subtree_len \<le> BLAKE3_CHUNK_LEN then
              let chunk_state = (chunk_state_init (h_key self) (cs_flags (h_chunk self)))
                                  \<lparr>cs_counter := cs_counter (h_chunk self)\<rparr>;
                  chunk_state = chunk_state_update chunk_state (take subtree_len input)
              in hasher_push_cv self (output_chaining_value (chunk_state_output chunk_state)) (cs_counter chunk_state)
            else
              let cv_pair = compress_subtree_to_parent_node (take subtree_len input) (h_key self)
                              (cs_counter (h_chunk self)) (cs_flags (h_chunk self));
                  self = hasher_push_cv self cv_pair (cs_counter (h_chunk self))
              in hasher_push_cv self (drop BLAKE3_OUT_LEN cv_pair)
                   (cs_counter (h_chunk self) + subtree_chunks div 2))
     in self\<lparr>h_chunk := (h_chunk self)\<lparr>cs_counter := cs_counter (h_chunk self) + subtree_chunks\<rparr>\<rparr>)"

function hasher_update_subtrees :: "blake3_hasher \<Rightarrow> u8 list \<Rightarrow> blake3_hasher \<times> u8 list" where
  "hasher_update_subtrees self input =
    (if length input > BLAKE3_CHUNK_LEN then
       let subtree_len = update_subtree_len self (length input)
       in hasher_update_subtrees (hasher_absorb_subtree self input subtree_len) (drop subtree_len input)
     else (self, input))"
  by pat_completeness auto
termination
  by (relation "measure (\<lambda>(_, input). length input)") 
    (simp_all add: update_subtree_len_pos sub_less_1024)

declare hasher_update_subtrees.simps [simp del]

definition blake3_hasher_update :: "blake3_hasher \<Rightarrow> u8 list \<Rightarrow> blake3_hasher" where
  "blake3_hasher_update self input =
    (if length input = 0 then self
     else
       let (done, self, input) =
         (if chunk_state_len (h_chunk self) > 0 then
            let tk = BLAKE3_CHUNK_LEN - chunk_state_len (h_chunk self);
                tk = (if tk > length input then length input else tk);
                self = self\<lparr>h_chunk := chunk_state_update (h_chunk self) (take tk input)\<rparr>;
                input = drop tk input
            in if length input > 0 then
                 let chunk_cv = output_chaining_value (chunk_state_output (h_chunk self));
                     self = hasher_push_cv self chunk_cv (cs_counter (h_chunk self))
                 in (False, self\<lparr>h_chunk := chunk_state_reset (h_chunk self) (h_key self)
                                    (cs_counter (h_chunk self) + 1)\<rparr>, input)
               else (True, self, input)
          else (False, self, input))
       in if done then self
          else
            let (self, input) = hasher_update_subtrees self input
            in if length input > 0 then
                 let self = self\<lparr>h_chunk := chunk_state_update (h_chunk self) input\<rparr>
                 in hasher_merge_cv_stack self (cs_counter (h_chunk self))
               else self)"

fun finalize_parents :: "blake3_hasher \<Rightarrow> nat \<Rightarrow> output_t \<Rightarrow> output_t" where
  "finalize_parents self 0 out = out"
| "finalize_parents self (Suc cvs_remaining) out =
    (let parent_block = take 32 (drop (cvs_remaining * 32) (h_cv_stack self)) @ output_chaining_value out
     in finalize_parents self cvs_remaining (parent_output parent_block (h_key self) (cs_flags (h_chunk self))))"

definition blake3_hasher_finalize_seek :: "blake3_hasher \<Rightarrow> u64 \<Rightarrow> nat \<Rightarrow> u8 list" where
  "blake3_hasher_finalize_seek self seek out_len =
    (if out_len = 0 then []
     else if h_cv_stack_len self = 0 then output_root_bytes (chunk_state_output (h_chunk self)) seek out_len
     else
       let (cvs_remaining, out) =
         (if chunk_state_len (h_chunk self) > 0 then
            (unat (h_cv_stack_len self), chunk_state_output (h_chunk self))
          else
            let cvs_remaining = unat (h_cv_stack_len self) - 2
            in (cvs_remaining, parent_output (take BLAKE3_BLOCK_LEN (drop (cvs_remaining * 32) (h_cv_stack self)))
                  (h_key self) (cs_flags (h_chunk self))))
       in output_root_bytes (finalize_parents self cvs_remaining out) seek out_len)"

definition blake3_hasher_finalize :: "blake3_hasher \<Rightarrow> nat \<Rightarrow> u8 list" where
  "blake3_hasher_finalize self out_len = blake3_hasher_finalize_seek self 0 out_len"

definition blake3_hasher_init_derive_key_raw :: "blake3_hasher \<Rightarrow> u8 list \<Rightarrow> blake3_hasher" where
  "blake3_hasher_init_derive_key_raw self context =
    (let context_hasher = hasher_init_base self IV DERIVE_KEY_CONTEXT;
         context_hasher = blake3_hasher_update context_hasher context;
         context_key = blake3_hasher_finalize context_hasher BLAKE3_KEY_LEN
     in hasher_init_base self (load_key_words context_key) DERIVE_KEY_MATERIAL)"

text \<open>\<^verbatim>\<open>strlen\<close>: the bytes of a C string before its terminating zero.\<close>

definition blake3_hasher_init_derive_key :: "blake3_hasher \<Rightarrow> u8 list \<Rightarrow> blake3_hasher" where
  "blake3_hasher_init_derive_key self context =
     blake3_hasher_init_derive_key_raw self (takeWhile (\<lambda>b. b \<noteq> 0) context)"

definition blake3_hasher_reset :: "blake3_hasher \<Rightarrow> blake3_hasher" where
  "blake3_hasher_reset self =
     self\<lparr>h_chunk := chunk_state_reset (h_chunk self) (h_key self) 0, h_cv_stack_len := 0\<rparr>"

end
