(* ===== verification/Blake3_Chunk.thy ===== *)
theory Blake3_Chunk
  imports Blake3
begin

text \<open>
  One chunk of up to 1024 bytes. \<open>chunk_output_spec\<close> is the output node of a chunk given whole; \<open>chunk_abs\<close> is the chunk
  state after any sequence of updates with these bytes. The lemmas show that \<^verbatim>\<open>chunk_state_update\<close> keeps the abstraction
  and that the one-shot \<^verbatim>\<open>hash_one_portable\<close> agrees with it on a full chunk.
\<close>

lemma length_store32 [simp]: "length (store32 w) = 4"
  by (simp add: store32_def)

lemma length_store_cv_words [simp]: "length (store_cv_words cv) = 32"
  by (simp add: store_cv_words_def)

lemma length_output_cv [simp]: "length (output_chaining_value out) = 32"
  by (simp add: output_chaining_value_def)

definition pad_block :: "u8 list \<Rightarrow> u8 list" where
  "pad_block bs = bs @ replicate (64 - length bs) 0"

definition start_flag :: "nat \<Rightarrow> u8" where
  "start_flag n = (if n = 0 then CHUNK_START else 0)"

primrec chain_cv :: "u32 list \<Rightarrow> u64 \<Rightarrow> u8 \<Rightarrow> u8 list \<Rightarrow> nat \<Rightarrow> u32 list" where
  "chain_cv key c fl bs 0 = key"
| "chain_cv key c fl bs (Suc n) =
     blake3_compress_in_place (chain_cv key c fl bs n) (take 64 (drop (64 * n) bs)) 64 c (fl OR start_flag n)"

definition chunk_output_spec :: "u32 list \<Rightarrow> u64 \<Rightarrow> u8 \<Rightarrow> u8 list \<Rightarrow> output_t" where
  "chunk_output_spec key c fl bs =
    (let n = (length bs - 1) div 64
     in make_output (chain_cv key c fl bs n) (pad_block (drop (64 * n) bs)) (of_nat (length bs - 64 * n)) c
          (fl OR start_flag n OR CHUNK_END))"

definition chunk_at :: "u32 list \<Rightarrow> u64 \<Rightarrow> u8 \<Rightarrow> u8 list \<Rightarrow> nat \<Rightarrow> blake3_chunk_state" where
  "chunk_at key c fl bs n =
     \<lparr>cs_cv = chain_cv key c fl bs n, cs_counter = c, cs_buf = pad_block (drop (64 * n) bs),
      cs_buf_len = of_nat (length bs - 64 * n), cs_blocks_compressed = of_nat n, cs_flags = fl\<rparr>"

definition chunk_abs :: "u32 list \<Rightarrow> u64 \<Rightarrow> u8 \<Rightarrow> u8 list \<Rightarrow> blake3_chunk_state" where
  "chunk_abs key c fl bs = chunk_at key c fl bs ((length bs - 1) div 64)"

lemma chain_cv_append:
  "64 * n \<le> length bs \<Longrightarrow> chain_cv key c fl (bs @ xs) n = chain_cv key c fl bs n"
  by (induction n) auto

lemma chunk_at_sel [simp]:
  "cs_cv (chunk_at key c fl bs n) = chain_cv key c fl bs n"
  "cs_counter (chunk_at key c fl bs n) = c"
  "cs_flags (chunk_at key c fl bs n) = fl"
  "cs_buf (chunk_at key c fl bs n) = pad_block (drop (64 * n) bs)"
  by (simp_all add: chunk_at_def)

lemma unat_of_nat_u8: "n < 256 \<Longrightarrow> unat (of_nat n :: u8) = n"
  by (simp add: unat_of_nat)

lemma chunk_at_lens:
  "length bs - 64 * n \<le> 64 \<Longrightarrow> unat (cs_buf_len (chunk_at key c fl bs n)) = length bs - 64 * n"
  "n \<le> 16 \<Longrightarrow> unat (cs_blocks_compressed (chunk_at key c fl bs n)) = n"
  by (simp_all add: chunk_at_def unat_of_nat_u8)

lemma chunk_at_start:
  "n \<le> 16 \<Longrightarrow> chunk_state_maybe_start_flag (chunk_at key c fl bs n) = start_flag n"
  using chunk_at_lens(2) [of n key c fl bs]
  by (auto simp: chunk_state_maybe_start_flag_def start_flag_def chunk_at_def unat_of_nat_u8 simp flip: unat_eq_zero)

lemma chunk_fill_buf:
  fixes n :: nat and bs xs :: "u8 list"
  assumes "64 * n \<le> length bs" "length bs \<le> 64 * n + 64"
  defines "k \<equiv> min (64 * n + 64 - length bs) (length xs)"
  shows "chunk_state_fill_buf (chunk_at key c fl bs n) xs = (chunk_at key c fl (bs @ take k xs) n, k)"
proof -
  define m where "m = length bs - 64 * n"
  have m: "length bs = 64 * n + m" "m \<le> 64" using assms by (simp_all add: m_def)
  have u: "unat (cs_buf_len (chunk_at key c fl bs n)) = m"
    using m by (simp add: chunk_at_lens)
  have k: "k = min (64 - m) (length xs)" using m by (simp add: k_def)
  have b: "blit (pad_block (drop (64 * n) bs)) m (take k xs) = pad_block (drop (64 * n) (bs @ take k xs))"
    using m k by (auto simp: blit_def pad_block_def min_def)
  have l: "(of_nat m + of_nat k :: u8) = of_nat (length (bs @ take k xs) - 64 * n)"
    using m k by (simp add: min_def)
  show ?thesis
    using m b l u by (auto simp: chunk_state_fill_buf_def Let_def k min_def chunk_at_def chain_cv_append)
qed

lemma chunk_blocks:
  assumes "length bs = 64 * n" "length bs + length xs \<le> 1024"
  shows "\<exists>m ys zs. xs = ys @ zs \<and> length zs \<le> 64 \<and> (xs \<noteq> [] \<longrightarrow> zs \<noteq> []) \<and> length (bs @ ys) = 64 * m \<and>
    chunk_state_blocks (chunk_at key c fl bs n) xs = (chunk_at key c fl (bs @ ys) m, zs)"
  using assms
proof (induction xs arbitrary: bs n rule: length_induct)
  case (1 xs)
  show ?case
  proof (cases "64 < length xs")
    case False
    then show ?thesis
      using "1.prems" by (intro exI [of _ n] exI [of _ "[]"] exI [of _ xs]) (auto simp: chunk_state_blocks.simps)
  next
    case True
    let ?y = "take 64 xs" and ?x = "drop 64 xs"
    have n: "n \<le> 16" using "1.prems" by simp
    have step: "(chunk_at key c fl bs n)\<lparr>cs_cv := blake3_compress_in_place (chain_cv key c fl bs n) ?y 64 c
                  (fl OR start_flag n), cs_blocks_compressed := of_nat n + 1\<rparr> = chunk_at key c fl (bs @ ?y) (Suc n)"
      using "1.prems" True by (simp add: chunk_at_def chain_cv_append pad_block_def)
    have b: "cs_blocks_compressed (chunk_at key c fl bs n) = of_nat n" by (simp add: chunk_at_def)
    have e: "chunk_state_blocks (chunk_at key c fl bs n) xs = chunk_state_blocks (chunk_at key c fl (bs @ ?y) (Suc n)) ?x"
      using True n by (subst chunk_state_blocks.simps) (simp add: chunk_at_start step b)
    have "length ?x < length xs" "length (bs @ ?y) = 64 * Suc n" "length (bs @ ?y) + length ?x \<le> 1024"
      using True "1.prems" by auto
    with "1.IH" obtain m ys zs where ih: "?x = ys @ zs" "length zs \<le> 64" "?x \<noteq> [] \<longrightarrow> zs \<noteq> []"
      "length ((bs @ ?y) @ ys) = 64 * m"
      "chunk_state_blocks (chunk_at key c fl (bs @ ?y) (Suc n)) ?x = (chunk_at key c fl ((bs @ ?y) @ ys) m, zs)"
      by blast
    have "xs = (?y @ ys) @ zs" using ih(1) by (metis append_assoc append_take_drop_id)
    moreover have "?x \<noteq> []" using True by simp
    ultimately show ?thesis
      using ih e by (intro exI [of _ m] exI [of _ "?y @ ys"] exI [of _ zs]) auto
  qed
qed

lemma block_index: "0 < l \<Longrightarrow> 64 * ((l - 1) div 64) < l \<and> l \<le> 64 * ((l - 1) div 64) + (64::nat)"
  using div_mult_mod_eq [of "l - 1" 64] mod_less_divisor [of 64 "l - 1"] by linarith

lemma block_index_unique: "64 * n < l \<Longrightarrow> l \<le> 64 * n + (64::nat) \<Longrightarrow> (l - 1) div 64 = n"
  by (intro div_nat_eqI) simp_all

lemma chunk_at_finish:
  assumes "length bs = 64 * m" "zs \<noteq> []" "length zs \<le> 64"
  shows "fst (chunk_state_fill_buf (chunk_at key c fl bs m) zs) = chunk_abs key c fl (bs @ zs)"
proof -
  have "(length (bs @ zs) - 1) div 64 = m"
    using assms by (intro block_index_unique) simp_all
  then show ?thesis using assms chunk_fill_buf [where n = m and bs = bs and xs = zs and key = key and c = c and fl = fl] by (simp add: chunk_abs_def)
qed

lemma chunk_update_empty_buf:
  assumes "length bs = 64 * n" "length bs + length xs \<le> 1024" "xs \<noteq> []"
  shows "(let (self, input) = chunk_state_blocks (chunk_at key c fl bs n) xs
          in fst (chunk_state_fill_buf self input)) = chunk_abs key c fl (bs @ xs)"
proof -
  from chunk_blocks [OF assms(1,2), of key c fl] assms(3)
  obtain m ys zs where "xs = ys @ zs" "length zs \<le> 64" "zs \<noteq> []" "length (bs @ ys) = 64 * m"
    "chunk_state_blocks (chunk_at key c fl bs n) xs = (chunk_at key c fl (bs @ ys) m, zs)" by blast
  then show ?thesis using chunk_at_finish [where bs = "bs @ ys" and m = m and zs = zs and key = key and c = c and fl = fl] by simp
qed

lemma chunk_state_update_abs:
  assumes "length bs + length xs \<le> 1024"
  shows "chunk_state_update (chunk_abs key c fl bs) xs = chunk_abs key c fl (bs @ xs)"
proof (cases "bs = []")
  case True
  show ?thesis
  proof (cases "xs = []")
    case True
    with \<open>bs = []\<close> show ?thesis
      using chunk_fill_buf [where n = 0 and bs = "[]" and xs = "[]" and key = key and c = c and fl = fl]
      by (simp add: chunk_state_update_def chunk_abs_def chunk_at_lens chunk_state_blocks.simps Let_def)
  next
    case False
    with \<open>bs = []\<close> assms show ?thesis
      using chunk_update_empty_buf [where bs = "[]" and n = 0 and xs = xs and key = key and c = c and fl = fl]
      by (simp add: chunk_state_update_def chunk_abs_def [of _ _ _ "[]"] chunk_at_lens)
  qed
next
  case False
  define n where "n = (length bs - 1) div 64"
  have n: "64 * n < length bs" "length bs \<le> 64 * n + 64" "n \<le> 16"
    using block_index [of "length bs"] False assms by (simp_all add: n_def)
  define k where "k = min (64 * n + 64 - length bs) (length xs)"
  have bl: "unat (cs_buf_len (chunk_at key c fl bs n)) > 0" using n by (simp add: chunk_at_lens)
  have fill: "chunk_state_fill_buf (chunk_at key c fl bs n) xs = (chunk_at key c fl (bs @ take k xs) n, k)"
    using chunk_fill_buf [where n = n and bs = bs and xs = xs and key = key and c = c and fl = fl] n by (simp add: k_def)
  show ?thesis
  proof (cases "drop k xs = []")
    case True
    then have t: "take k xs = xs" by simp
    have len: "length (bs @ xs) \<le> 64 * n + 64" using True n by (simp add: k_def min_def split: if_splits)
    have i: "(length (bs @ xs) - 1) div 64 = n" using n len by (intro block_index_unique) simp_all
    have e: "chunk_state_fill_buf (chunk_at key c fl (bs @ xs) n) [] = (chunk_at key c fl (bs @ xs) n, 0)"
      using chunk_fill_buf [where n = n and bs = "bs @ xs" and xs = "[]" and key = key and c = c and fl = fl] n len by simp
    have b: "chunk_state_blocks s [] = (s, [])" for s by (simp add: chunk_state_blocks.simps)
    have a: "chunk_abs key c fl bs = chunk_at key c fl bs n" "chunk_abs key c fl (bs @ xs) = chunk_at key c fl (bs @ xs) n"
      by (simp_all only: chunk_abs_def i n_def)
    show ?thesis
      unfolding a chunk_state_update_def fill t Let_def prod.case
      by (simp only: bl True if_True b prod.case e fst_conv list.size less_irrefl if_False)
  next
    case f: False
    then have len: "length (bs @ take k xs) = 64 * Suc n" using n by (auto simp: k_def min_def)
    have step: "(chunk_at key c fl (bs @ take k xs) n)\<lparr>cs_cv := blake3_compress_in_place
        (chain_cv key c fl (bs @ take k xs) n) (pad_block (drop (64 * n) (bs @ take k xs))) 64 c (fl OR start_flag n),
        cs_blocks_compressed := of_nat n + 1, cs_buf_len := 0, cs_buf := replicate 64 0\<rparr> =
        chunk_at key c fl (bs @ take k xs) (Suc n)"
      using len by (simp add: chunk_at_def pad_block_def)
    have b: "cs_blocks_compressed (chunk_at key c fl (bs @ take k xs) n) = of_nat n" by (simp add: chunk_at_def)
    have a: "chunk_abs key c fl bs = chunk_at key c fl bs n" by (simp only: chunk_abs_def n_def)
    have l: "0 < length (drop k xs)" using f by simp
    have st: "chunk_state_maybe_start_flag (chunk_at key c fl (bs @ take k xs) n) = start_flag n"
      using n by (intro chunk_at_start) simp
    show ?thesis
      unfolding a chunk_state_update_def fill Let_def prod.case
      using chunk_update_empty_buf [OF len, where xs = "drop k xs" and key = key and c = c and fl = fl] assms f
      by (simp add: bl l st b step [simplified])
  qed
qed


lemma chunk_abs_facts:
  assumes "length bs \<le> 1024"
  shows "chunk_state_output (chunk_abs key c fl bs) = chunk_output_spec key c fl bs"
    and "chunk_state_len (chunk_abs key c fl bs) = length bs"
proof -
  define n where "n = (length bs - 1) div 64"
  have n: "64 * n \<le> length bs" "length bs - 64 * n \<le> 64" "n \<le> 16"
    using block_index [of "length bs"] assms by (cases "bs = []"; simp add: n_def)+
  show "chunk_state_output (chunk_abs key c fl bs) = chunk_output_spec key c fl bs"
    using n unfolding chunk_abs_def n_def [symmetric] chunk_state_output_def chunk_at_start [OF n(3)]
    by (simp add: chunk_output_spec_def n_def [symmetric] chunk_at_def ac_simps del: One_nat_def)
  show "chunk_state_len (chunk_abs key c fl bs) = length bs"
    using n unfolding chunk_abs_def n_def [symmetric] by (simp add: chunk_state_len_def chunk_at_lens)
qed

lemma chunk_abs_empty: "chunk_abs key c fl [] = (chunk_state_init key fl)\<lparr>cs_counter := c\<rparr>"
  by (simp add: chunk_abs_def chunk_at_def chunk_state_init_def pad_block_def)

lemma chunk_abs_sel [simp]:
  "cs_counter (chunk_abs key c fl bs) = c" "cs_flags (chunk_abs key c fl bs) = fl"
  by (simp_all add: chunk_abs_def)

lemma chunk_abs_reset: "cs_flags s = fl \<Longrightarrow> chunk_state_reset s key c = chunk_abs key c fl []"
  by (cases s) (simp add: chunk_abs_empty chunk_state_init_def chunk_state_reset_def)

lemma chunk_abs_empty_counter: "(chunk_abs key c fl [])\<lparr>cs_counter := c'\<rparr> = chunk_abs key c' fl []"
  by (simp add: chunk_abs_empty)

lemma hash_one_blocks_chain:
  "hash_one_blocks (drop (64 * i) bs) (Suc n) (chain_cv key c fl bs i) c (fl OR start_flag i) fl fe =
   blake3_compress_in_place (chain_cv key c fl bs (i + n)) (take 64 (drop (64 * (i + n)) bs)) 64 c
     (fl OR start_flag (i + n) OR fe)"
proof (induction n arbitrary: i)
  case 0
  show ?case by (simp add: blake3_compress_in_place_def ac_simps)
next
  case (Suc n)
  have "start_flag (Suc i) = 0" by (simp add: start_flag_def)
  with Suc [of "Suc i"] show ?case
    by (simp add: blake3_compress_in_place_def add.commute)
qed

text \<open>\<^verbatim>\<open>hash_one_portable\<close> on one whole chunk computes the same chaining value as the incremental chunk state.\<close>

lemma hash_one_chunk:
  assumes "length bs = 1024"
  shows "hash_one_portable bs 16 key c fl CHUNK_START CHUNK_END = output_chaining_value (chunk_output_spec key c fl bs)"
  using hash_one_blocks_chain [of 0 bs 15 key c fl CHUNK_END] assms
  by (simp add: hash_one_portable_def start_flag_def chunk_output_spec_def output_chaining_value_def make_output_def pad_block_def)

lemma hash_one_parent:
  "hash_one_portable xs 1 key 0 (fl OR PARENT) 0 0 = output_chaining_value (parent_output (take 64 xs) key fl)"
  by (simp add: hash_one_portable_def parent_output_def output_chaining_value_def make_output_def
      blake3_compress_in_place_def)

end
