(* ===== verification/Blake3_Tree.thy ===== *)
theory Blake3_Tree
  imports Blake3_Chunk
begin

text \<open>
  The binary tree over the chunks, as the BLAKE3 paper defines it (\<open>node_output\<close>: the left subtree is the largest power
  of two of whole chunks that leaves at least one byte on the right), and the proof that the recursive
  \<^verbatim>\<open>blake3_compress_subtree_wide\<close> computes the two chaining values under the root of its input.
\<close>

section \<open>The tree hash\<close>

definition left_len :: "nat \<Rightarrow> nat" where
  "left_len n = 1024 * 2 ^ msb_index ((n - 1) div 1024)"

lemma msb_index_unique: "2 ^ j \<le> n \<Longrightarrow> n < 2 * 2 ^ j \<Longrightarrow> msb_index n = j"
proof -
  assume a: "2 ^ j \<le> n" "n < 2 * 2 ^ j"
  then have "0 < n" using zero_less_power [of "2::nat" j] by linarith
  then have b: "2 ^ msb_index n \<le> n" "n < 2 * 2 ^ msb_index n" using msb_index_bounds by auto
  have "(2::nat) ^ j < 2 ^ Suc (msb_index n)" "(2::nat) ^ msb_index n < 2 ^ Suc j" using a b by simp_all
  then have "j < Suc (msb_index n)" "msb_index n < Suc j"
    using power_less_imp_less_exp [of "2::nat"] by (metis one_less_numeral_iff semiring_norm(76))+
  then show "msb_index n = j" by simp
qed

lemma left_len_bounds: "1024 < n \<Longrightarrow> 1024 \<le> left_len n \<and> left_len n < n \<and> n \<le> 2 * left_len n"
proof -
  assume n: "1024 < n"
  define m where "m = (n - 1) div 1024"
  have m: "0 < m" "1024 * m < n" "n \<le> 1024 * m + 1024"
    using n div_mult_mod_eq [of "n - 1" 1024] mod_less_divisor [of 1024 "n - 1"]
    unfolding m_def by (simp_all del: mod_less_divisor)
  then have "2 ^ msb_index m \<le> m" "m < 2 * 2 ^ msb_index m" using msb_index_bounds by auto
  moreover have "(1::nat) \<le> 2 ^ msb_index m" by simp
  ultimately show ?thesis using m unfolding left_len_def m_def [symmetric] by linarith
qed

lemma left_len_unique:
  assumes "1024 * 2 ^ j < n" "n \<le> 1024 * 2 ^ j + 1024 * 2 ^ j"
  shows "left_len n = 1024 * 2 ^ j"
proof -
  have "2 ^ j \<le> (n - 1) div 1024" using assms by (simp add: less_eq_div_iff_mult_less_eq)
  moreover have "(n - 1) div 1024 < 2 * 2 ^ j" 
    using assms by (subst div_less_iff_less_mult) auto
  ultimately have "msb_index ((n - 1) div 1024) = j" by (rule msb_index_unique)
  then show ?thesis by (simp add: left_len_def)
qed

lemma left_subtree_len_eq: "n < 2 ^ 64 \<Longrightarrow> left_subtree_len n = left_len n"
proof -
  assume "n < 2 ^ 64"
  then have "(n - 1) div 1024 < 2 ^ 64" by (simp add: div_less_iff_less_mult)
  then have "unat (of_nat ((n - 1) div 1024) :: u64) = (n - 1) div 1024" by (simp add: unat_of_nat)
  then show ?thesis by (simp add: left_subtree_len_def left_len_def unat_round_down)
qed

text \<open>The specification: the node over a byte string is the chunk itself up to 1024 bytes, and above that the
parent of the largest full left subtree and the rest.\<close>

function node_output :: "u32 list \<Rightarrow> u8 \<Rightarrow> u64 \<Rightarrow> u8 list \<Rightarrow> output_t" where
  "node_output key fl c bs =
    (if length bs \<le> 1024 then chunk_output_spec key c fl bs
     else let l = left_len (length bs)
          in parent_output (output_chaining_value (node_output key fl c (take l bs)) @
               output_chaining_value (node_output key fl (c + of_nat (l div 1024)) (drop l bs))) key fl)"
  by pat_completeness auto
termination
proof (relation "measure (\<lambda>(_, _, _, bs). length bs)")
  fix bs :: "u8 list" and l
  assume "\<not> length bs \<le> 1024" "l = left_len (length bs)"
  then have l: "0 < l" "l < length bs" using left_len_bounds [of "length bs"] by simp_all
  show "((key, fl, c, take l bs), key, fl, c', bs) \<in> measure (\<lambda>(_, _, _, bs). length bs)"
    "((key, fl, c + of_nat (l div 1024), drop l bs), key, fl, c', bs) \<in> measure (\<lambda>(_, _, _, bs). length bs)"
    for key :: "u32 list" and fl :: u8 and c c' :: u64
    using l by (auto simp: min_def)
qed simp

declare node_output.simps [simp del]

definition node_cv :: "u32 list \<Rightarrow> u8 \<Rightarrow> u64 \<Rightarrow> u8 list \<Rightarrow> u8 list" where
  "node_cv key fl c bs = output_chaining_value (node_output key fl c bs)"

lemma length_node_cv [simp]: "length (node_cv key fl c bs) = 32"
  by (simp add: node_cv_def)

definition node_children :: "u32 list \<Rightarrow> u8 \<Rightarrow> u64 \<Rightarrow> u8 list \<Rightarrow> u8 list" where
  "node_children key fl c bs =
    (let l = left_len (length bs)
     in node_cv key fl c (take l bs) @ node_cv key fl (c + of_nat (l div 1024)) (drop l bs))"

lemma length_node_children [simp]: "length (node_children key fl c bs) = 64"
  by (simp add: node_children_def Let_def)

lemma node_output_chunk: "length bs \<le> 1024 \<Longrightarrow> node_output key fl c bs = chunk_output_spec key c fl bs"
  by (simp add: node_output.simps)

lemma node_output_parent:
  "1024 < length bs \<Longrightarrow> node_output key fl c bs = parent_output (node_children key fl c bs) key fl"
  by (subst node_output.simps) (simp add: node_children_def node_cv_def Let_def)

text \<open>The node over a full left subtree of \<^verbatim>\<open>2^j\<close> chunks followed by at most as many bytes.\<close>

lemma node_output_split:
  assumes "length xs = 1024 * 2 ^ j" "ys \<noteq> []" "length ys \<le> 1024 * 2 ^ j"
  shows "node_output key fl c (xs @ ys) =
    parent_output (node_cv key fl c xs @ node_cv key fl (c + 2 ^ j) ys) key fl"
proof -
  have l: "left_len (length (xs @ ys)) = 1024 * 2 ^ j"
    using assms by (intro left_len_unique) simp_all
  have "(1::nat) \<le> 2 ^ j" "0 < length ys" using assms(2) by simp_all
  then have "1024 < length (xs @ ys)" using assms(1) by (simp only: length_append)
  from node_output_parent [OF this] show ?thesis
    unfolding node_children_def l Let_def using assms by simp
qed

section \<open>The subtree compressor\<close>

lemma compress_chunks_parallel_cv:
  assumes "bs \<noteq> []" "length bs \<le> 1024"
  shows "compress_chunks_parallel bs key c fl = node_cv key fl c bs"
proof (cases "length bs = 1024")
  case True
  then have w: "whole_chunks bs = [bs]" by (subst whole_chunks.simps) (simp add: whole_chunks.simps)
  show ?thesis
    using True by (simp add: compress_chunks_parallel_def w blake3_hash_many_def hash_one_chunk node_cv_def node_output_chunk)
next
  case False
  then have w: "whole_chunks bs = []" using assms by (subst whole_chunks.simps) simp
  show ?thesis
    using assms chunk_state_update_abs [of "[]" bs key c fl] chunk_abs_facts(1) [of bs key c fl]
    by (simp add: compress_chunks_parallel_def w blake3_hash_many_def chunk_abs_empty [symmetric] node_cv_def
        node_output_chunk)
qed

lemma compress_parents_two_cvs:
  assumes "length xs = 64" "length ys = 32"
  shows "compress_parents_parallel (xs @ ys @ zs) (Suc (Suc (Suc 0))) key fl = output_chaining_value (parent_output xs key fl) @ ys"
  using assms by (simp add: compress_parents_parallel_def blake3_hash_many_def hash_one_parent [simplified])

lemma compress_parents_four_cvs:
  assumes "length xs = 64" "length ys = 64"
  shows "compress_parents_parallel (xs @ ys @ zs) 4 key fl =
    output_chaining_value (parent_output xs key fl) @ output_chaining_value (parent_output ys key fl)"
  using assms by (simp add: compress_parents_parallel_def blake3_hash_many_def hash_one_parent [simplified]
      upt_conv_Cons)

lemma compress_subtree_wide_correct:
  assumes "bs \<noteq> []" "length bs < 2 ^ 64"
  shows "blake3_compress_subtree_wide bs key c fl =
    (if length bs \<le> 1024 then node_cv key fl c bs else node_children key fl c bs)"
  using assms
proof (induction bs arbitrary: c rule: length_induct)
  case (1 bs)
  show ?case
  proof (cases "length bs \<le> 1024")
    case True
    then show ?thesis
      using "1.prems" by (subst blake3_compress_subtree_wide.simps)
        (simp add: blake3_simd_degree_def compress_chunks_parallel_cv)
  next
    case False
    define l where "l = left_len (length bs)"
    have l: "1024 \<le> l" "l < length bs" "length bs \<le> 2 * l"
      using left_len_bounds [of "length bs"] False by (simp_all add: l_def)
    have sub: "left_subtree_len (length bs) = l" using "1.prems" by (simp add: left_subtree_len_eq l_def)
    let ?L = "take l bs" and ?R = "drop l bs" and ?c = "c + of_nat (l div 1024)"
    have "length ?L < length bs" "length ?R < length bs" "?L \<noteq> []" "?R \<noteq> []"
      "length ?L < 2 ^ 64" "length ?R < 2 ^ 64" using l "1.prems" by auto
    then have ihl: "blake3_compress_subtree_wide ?L key c fl =
         (if length ?L \<le> 1024 then node_cv key fl c ?L else node_children key fl c ?L)"
      and ihr: "blake3_compress_subtree_wide ?R key ?c fl =
         (if length ?R \<le> 1024 then node_cv key fl ?c ?R else node_children key fl ?c ?R)"
      using "1.IH" by blast+
    have unf: "blake3_compress_subtree_wide bs key c fl =
      (let degree = (if l > 1024 then 2 else 1); left_out = blake3_compress_subtree_wide ?L key c fl;
           right_out = blake3_compress_subtree_wide ?R key ?c fl;
           cv_array = blit (blit (replicate 128 0) 0 left_out) (degree * 32) right_out
       in if length left_out div 32 = 1 then take 64 cv_array
          else compress_parents_parallel cv_array (length left_out div 32 + length right_out div 32) key fl)"
      using False by (subst blake3_compress_subtree_wide.simps) (simp add: blake3_simd_degree_def sub Let_def)
    have ch: "node_children key fl c bs = node_cv key fl c ?L @ node_cv key fl ?c ?R"
      by (simp add: node_children_def Let_def l_def)
    show ?thesis
    proof (cases "l = 1024")
      case True
      then have "length ?R \<le> 1024" using l by simp
      then show ?thesis using True False l unf ihl ihr ch by (simp add: blit_def split: if_splits)
    next
      case big: False
      then have nl: "node_cv key fl c ?L = output_chaining_value (parent_output (node_children key fl c ?L) key fl)"
        using l by (simp add: node_cv_def node_output_parent)
      have nr: "length ?R > 1024 \<Longrightarrow>
          node_cv key fl ?c ?R = output_chaining_value (parent_output (node_children key fl ?c ?R) key fl)"
        by (simp add: node_cv_def node_output_parent)
      show ?thesis
      proof (cases "length ?R \<le> 1024")
        case True
        then show ?thesis
          using False big l unf ihl ihr ch nl by (simp add: blit_def compress_parents_two_cvs)
      next
        case r: False
        then show ?thesis
          using False big l unf ihl ihr ch nl nr by (simp add: blit_def compress_parents_four_cvs [where zs = "[]", simplified])
      qed
    qed
  qed
qed

end
