(* ===== verification/Blake3_Stream.thy ===== *)
theory Blake3_Stream
  imports Blake3_Tree
begin

text \<open>
  The stack of chaining values of the incremental hasher. With \<open>n\<close> whole chunks absorbed the stack holds the subtrees of
  the binary decomposition of \<open>n\<close>, merged lazily: the last subtree pushed may still wait for its merge (\<open>lazy_form\<close>).
  The lemmas show that \<^verbatim>\<open>hasher_merge_cv_stack\<close> turns a lazy stack into the decomposition and that \<^verbatim>\<open>hasher_push_cv\<close>
  keeps the form and stays within the 55 entries of the C array.
\<close>

section \<open>Binary decomposition of the chunk count\<close>

function decomp :: "nat \<Rightarrow> nat list" where
  "decomp n = (if n = 0 then [] else 2 ^ msb_index n # decomp (n - 2 ^ msb_index n))"
  by pat_completeness auto
termination by (relation "measure id") auto

declare decomp.simps [simp del]

lemma decomp_0 [simp]: "decomp 0 = []" by (simp add: decomp.simps)

lemma sum_decomp [simp]: "sum_list (decomp n) = n"
proof (induction n rule: decomp.induct)
  case (1 n)
  then show ?case using msb_index_bounds [of n] by (cases "n = 0") (simp_all add: decomp.simps [of n])
qed

lemma decomp_pow: "decomp (2 ^ j) = [2 ^ j]"
proof -
  have "msb_index (2 ^ j) = j" by (rule msb_index_unique) simp_all
  then show ?thesis by (subst decomp.simps) simp
qed

lemma dvd_less_pow:
  assumes "(2::nat) ^ j dvd k" "k < 2 ^ m" "2 ^ j \<le> (2::nat) ^ m"
  shows "k + 2 ^ j \<le> 2 ^ m"
proof -
  have jm: "j \<le> m" using assms(3) by simp
  obtain a where a: "k = 2 ^ j * a" using assms(1) by blast
  have m: "(2::nat) ^ m = 2 ^ j * 2 ^ (m - j)" using jm by (simp flip: power_add)
  have "a < 2 ^ (m - j)" using assms(2) unfolding a m by simp
  then have "2 ^ j * (a + 1) \<le> 2 ^ j * 2 ^ (m - j)" by (intro mult_le_mono2) simp
  then show ?thesis by (simp add: a m)
qed

lemma decomp_add:
  "2 * 2 ^ j dvd k \<Longrightarrow> decomp (k + 2 ^ j) = decomp k @ [2 ^ j]"
proof (induction k rule: decomp.induct)
  case (1 k)
  show ?case
  proof (cases "k = 0")
    case True
    then show ?thesis by (simp add: decomp_pow)
  next
    case False
    define m where "m = msb_index k"
    have m: "2 ^ m \<le> k" "k < 2 * 2 ^ m" using msb_index_bounds False by (auto simp: m_def)
    have "2 ^ Suc j \<le> k" using "1.prems" False by (simp add: dvd_imp_le)
    then have "(2::nat) ^ Suc j < 2 ^ Suc m" using m by (simp only: power_Suc)
    then have jm: "Suc j \<le> m" using power_less_imp_less_exp [of "2::nat" "Suc j" "Suc m"] by simp
    have d: "2 * 2 ^ j dvd (2::nat) ^ m" using le_imp_power_dvd [OF jm, of "2::nat"] by simp
    have "k + 2 ^ Suc j \<le> 2 ^ Suc m"
      using "1.prems" m jm by (intro dvd_less_pow) simp_all
    moreover have "(0::nat) < 2 ^ j" by simp
    ultimately have "k + 2 ^ j < 2 * 2 ^ m" unfolding power_Suc by linarith
    moreover have "2 ^ m \<le> k + 2 ^ j" using m by simp
    ultimately have msb: "msb_index (k + 2 ^ j) = m" by (intro msb_index_unique)
    have ih: "decomp (k - 2 ^ m + 2 ^ j) = decomp (k - 2 ^ m) @ [2 ^ j]"
      using "1.IH" False "1.prems" d by (simp add: m_def dvd_diff_nat)
    have "k + 2 ^ j - 2 ^ m = k - 2 ^ m + 2 ^ j" using m by simp
    with False show ?thesis
      by (subst (1 2) decomp.simps) (simp add: msb ih flip: m_def)
  qed
qed

lemma decomp_drop:
  assumes "2 ^ j dvd k" "\<not> 2 * 2 ^ j dvd k"
  shows "decomp k = decomp (k - 2 ^ j) @ [2 ^ j]" and "2 * 2 ^ j dvd k - 2 ^ j" and "2 ^ j \<le> k"
proof -
  obtain a where a: "k = 2 ^ j * a" using assms(1) by blast
  have "odd a" using assms(2) by (auto simp: a elim!: evenE)
  then obtain b where b: "a = 2 * b + 1" by (rule oddE)
  show le: "2 ^ j \<le> k" by (simp add: a b)
  show d: "2 * 2 ^ j dvd k - 2 ^ j" by (simp add: a b algebra_simps)
  show "decomp k = decomp (k - 2 ^ j) @ [2 ^ j]"
    using decomp_add [OF d] le by simp
qed

lemma bit_count_eq: "bit_count n = length (decomp n)"
proof (induction n rule: bit_count.induct)
  case (1 n)
  have double: "length (decomp (2 * m)) = length (decomp m)" for m
  proof (induction m rule: decomp.induct)
    case (1 m)
    show ?case
    proof (cases "m = 0")
      case False
      have "msb_index (2 * m) = Suc (msb_index m)" using False by (subst msb_index.simps) simp
      then have "2 * m - 2 ^ msb_index (2 * m) = 2 * (m - 2 ^ msb_index m)" by simp
      then show ?thesis using 1 False by (subst (1 2) decomp.simps) simp
    qed simp
  qed
  show ?case
  proof (cases "n = 0")
    case False
    then have ih: "bit_count n = n mod 2 + length (decomp (n div 2))" using 1 by (simp add: bit_count.simps [of n])
    have n: "n = 2 * (n div 2) + n mod 2" by simp
    have "length (decomp n) = length (decomp (2 * (n div 2))) + n mod 2"
    proof (cases "even n")
      case False
      then have "n = 2 * (n div 2) + 2 ^ 0" by simp
      moreover have "decomp (2 * (n div 2) + 2 ^ 0) = decomp (2 * (n div 2)) @ [2 ^ 0]" by (rule decomp_add) simp
      ultimately show ?thesis using False by (metis length_append_singleton odd_iff_mod_2_eq_one plus_1_eq_Suc add.commute)
    qed simp
    then show ?thesis using ih by (simp add: double)
  qed (simp add: bit_count.simps)
qed

lemma length_decomp_bound: "n < 2 ^ m \<Longrightarrow> length (decomp n) \<le> m"
proof (induction m arbitrary: n)
  case (Suc m)
  have "n div 2 < 2 ^ m" using Suc.prems by simp
  from Suc.IH [OF this] have "bit_count (n div 2) \<le> m" by (simp add: bit_count_eq)
  then have "bit_count n \<le> Suc m" by (subst bit_count.simps) (use mod_less_divisor [of 2 n] in auto)
  then show ?case by (simp add: bit_count_eq)
qed simp

text \<open>The stack before a lazy merge: the decomposition of \<open>k\<close> chunks and one more subtree of \<^verbatim>\<open>2^j\<close>.\<close>

definition lazy_form :: "nat \<Rightarrow> nat \<Rightarrow> nat \<Rightarrow> nat list \<Rightarrow> bool" where
  "lazy_form n k j ss \<longleftrightarrow> n = k + 2 ^ j \<and> 2 ^ j dvd k \<and> ss = decomp k @ [2 ^ j]"

lemma lazy_form_decomp: "0 < n \<Longrightarrow> \<exists>k j. lazy_form n k j (decomp n)"
proof -
  assume n: "0 < n"
  define j where "j = (GREATEST j. 2 ^ j dvd n)"
  have bnd: "\<forall>i. (2::nat) ^ i dvd n \<longrightarrow> i \<le> n"
    using n by (meson dvd_imp_le le_less_trans less_imp_le_nat less_exp order.trans)
  have j: "2 ^ j dvd n" unfolding j_def by (rule GreatestI_nat [where k = 0]) (use bnd in auto)
  have "\<not> 2 ^ Suc j dvd n" using Greatest_le_nat [of "\<lambda>i. 2 ^ i dvd n" "Suc j" n] bnd by (auto simp: j_def)
  then have "\<not> 2 * 2 ^ j dvd n" by simp
  from decomp_drop [OF j this] show ?thesis
    by (intro exI [of _ "n - 2 ^ j"] exI [of _ j]) (auto simp: lazy_form_def elim: dvd_trans [rotated])
qed

lemma length_decomp_lazy:
  "2 ^ j dvd k \<Longrightarrow> length (decomp (k + 2 ^ j)) \<le> length (decomp k) + 1"
proof (induction k arbitrary: j rule: less_induct)
  case (less k)
  show ?case
  proof (cases "2 * 2 ^ j dvd k")
    case True
    then show ?thesis by (simp add: decomp_add)
  next
    case False
    note d = decomp_drop [OF less.prems False]
    have "k + 2 ^ j = (k - 2 ^ j) + 2 ^ Suc j" using d(3) by simp
    moreover have "k - 2 ^ j < k" using d(3) by (metis diff_less less_le_trans zero_less_numeral zero_less_power)
    ultimately show ?thesis using less.IH [of "k - 2 ^ j" "Suc j"] d by (simp add: add.commute)
  qed
qed

lemma lazy_form_merge:
  assumes "lazy_form n k j ss" "length ss > bit_count n"
  shows "\<exists>ts. ss = ts @ [2 ^ j, 2 ^ j] \<and> lazy_form n (k - 2 ^ j) (Suc j) (ts @ [2 ^ Suc j])"
proof -
  have l: "n = k + 2 ^ j" "2 ^ j dvd k" "ss = decomp k @ [2 ^ j]" using assms(1) by (auto simp: lazy_form_def)
  have "\<not> 2 * 2 ^ j dvd k" using assms(2) l by (auto simp: bit_count_eq decomp_add)
  note d = decomp_drop [OF l(2) this]
  show ?thesis using l d by (intro exI [of _ "decomp (k - 2 ^ j)"]) (auto simp: lazy_form_def)
qed

lemma lazy_form_done:
  assumes "lazy_form n k j ss" "\<not> length ss > bit_count n"
  shows "ss = decomp n"
proof (cases "2 * 2 ^ j dvd k")
  case True
  then show ?thesis using assms by (simp add: lazy_form_def decomp_add)
next
  case False
  have l: "n = k + 2 ^ j" "2 ^ j dvd k" "ss = decomp k @ [2 ^ j]" using assms(1) by (auto simp: lazy_form_def)
  note d = decomp_drop [OF l(2) False]
  have "length (decomp ((k - 2 ^ j) + 2 ^ Suc j)) \<le> length (decomp (k - 2 ^ j)) + 1"
    using d(2) by (intro length_decomp_lazy) simp
  moreover have "(k - 2 ^ j) + 2 ^ Suc j = n" using l(1) d(3) by simp
  ultimately have "length (decomp n) < length ss" using l(3) d(1) by simp
  then show ?thesis using assms(2) by (simp add: bit_count_eq)
qed


section \<open>Chaining values of a list of subtrees\<close>

fun segs :: "u32 list \<Rightarrow> u8 \<Rightarrow> nat \<Rightarrow> nat list \<Rightarrow> u8 list \<Rightarrow> u8 list list" where
  "segs key fl n [] bs = []"
| "segs key fl n (s # ss) bs =
     node_cv key fl (of_nat n) (take (1024 * s) bs) # segs key fl (n + s) ss (drop (1024 * s) bs)"

lemma length_segs [simp]: "length (segs key fl n ss bs) = length ss"
  by (induction ss arbitrary: n bs) auto

lemma length_concat_segs [simp]: "length (concat (segs key fl n ss bs)) = 32 * length ss"
  by (induction ss arbitrary: n bs) auto

lemma segs_append:
  "segs key fl n (ss @ ts) bs = segs key fl n ss bs @ segs key fl (n + sum_list ss) ts (drop (1024 * sum_list ss) bs)"
  by (induction ss arbitrary: n bs) (simp_all add: algebra_simps)

lemma segs_prefix:
  "1024 * sum_list ss \<le> length bs \<Longrightarrow> segs key fl n ss (bs @ xs) = segs key fl n ss bs"
  by (induction ss arbitrary: n bs) auto

lemma segs_snoc:
  assumes "length bs = 1024 * sum_list ss" "length t = 1024 * s"
  shows "segs key fl n (ss @ [s]) (bs @ t) = segs key fl n ss bs @ [node_cv key fl (of_nat (n + sum_list ss)) t]"
  using assms by (simp add: segs_append segs_prefix)

lemma segs_merge:
  assumes "length bs = 1024 * (sum_list ss + 2 ^ j + 2 ^ j)"
  shows "segs key fl n (ss @ [2 ^ Suc j]) bs =
    segs key fl n ss bs @ [output_chaining_value (parent_output (concat (drop (length ss)
       (segs key fl n (ss @ [2 ^ j, 2 ^ j]) bs))) key fl)]"
proof -
  define t where "t = drop (1024 * sum_list ss) bs"
  have t: "length t = 1024 * 2 ^ j + 1024 * 2 ^ j" using assms by (simp add: t_def)
  define x y where "x = take (1024 * 2 ^ j) t" and "y = drop (1024 * 2 ^ j) t"
  have xy: "t = x @ y" "length x = 1024 * 2 ^ j" "length y = 1024 * 2 ^ j" using t by (simp_all add: x_def y_def)
  have "y \<noteq> []" using xy(3) by auto
  with xy have "node_cv key fl (of_nat (n + sum_list ss)) t = output_chaining_value (parent_output
      (node_cv key fl (of_nat (n + sum_list ss)) x @ node_cv key fl (of_nat (n + sum_list ss) + 2 ^ j) y) key fl)"
    unfolding xy(1) node_cv_def [of _ _ _ "x @ y"] by (subst node_output_split) simp_all
  note cv = this
  have a: "segs key fl n (ss @ [2 ^ Suc j]) bs = segs key fl n ss bs @ [node_cv key fl (of_nat (n + sum_list ss)) t]"
    unfolding segs_append t_def [symmetric] using t by simp
  have b: "drop (length ss) (segs key fl n (ss @ [2 ^ j, 2 ^ j]) bs) =
      [node_cv key fl (of_nat (n + sum_list ss)) x, node_cv key fl (of_nat (n + sum_list ss) + 2 ^ j) y]"
    unfolding segs_append t_def [symmetric] using xy(3) by (simp add: x_def y_def)
  show ?thesis unfolding a b cv by simp
qed

text \<open>A byte string cut into full subtrees and a tail is a right spine of parents.\<close>

fun fits :: "nat list \<Rightarrow> nat \<Rightarrow> bool" where
  "fits [] l \<longleftrightarrow> 0 < l"
| "fits (s # ss) l \<longleftrightarrow> fits ss l \<and> s = 2 ^ msb_index s \<and> 1024 * sum_list ss + l \<le> 1024 * s"

definition spine :: "u32 list \<Rightarrow> u8 \<Rightarrow> u8 list list \<Rightarrow> output_t \<Rightarrow> output_t" where
  "spine key fl cvs out = foldr (\<lambda>cv out. parent_output (cv @ output_chaining_value out) key fl) cvs out"

lemma fits_pos: "fits ss l \<Longrightarrow> 0 < l"
  by (induction ss) auto

lemma node_output_spine:
  assumes "fits ss (length t)" "length bs = 1024 * sum_list ss"
  shows "node_output key fl (of_nat n) (bs @ t) =
    spine key fl (segs key fl n ss bs) (node_output key fl (of_nat (n + sum_list ss)) t)"
  using assms
proof (induction ss arbitrary: n bs)
  case Nil
  then show ?case by (simp add: spine_def)
next
  case (Cons s ss)
  define j where "j = msb_index s"
  have s: "s = 2 ^ j" using Cons.prems by (simp add: j_def)
  define x y where "x = take (1024 * s) bs" and "y = drop (1024 * s) bs"
  have xy: "bs = x @ y" "length x = 1024 * 2 ^ j" "length y = 1024 * sum_list ss"
    using Cons.prems(2) by (simp_all add: x_def y_def s)
  have f: "fits ss (length t)" "0 < length t" "1024 * sum_list ss + length t \<le> 1024 * 2 ^ j"
    using Cons.prems(1) fits_pos [of ss "length t"] s by auto
  have "node_output key fl (of_nat n) (x @ (y @ t)) =
     parent_output (node_cv key fl (of_nat n) x @ node_cv key fl (of_nat n + 2 ^ j) (y @ t)) key fl"
    using xy f by (intro node_output_split) auto
  moreover have "node_cv key fl (of_nat n + 2 ^ j) (y @ t) = output_chaining_value
     (spine key fl (segs key fl (n + s) ss y) (node_output key fl (of_nat (n + s + sum_list ss)) t))"
    using Cons.IH [OF f(1) xy(3), of "n + s"] by (simp add: node_cv_def s)
  ultimately show ?case
    using xy by (simp add: spine_def s add.assoc)
qed

lemma fits_decomp:
  assumes "2 ^ j dvd k" "0 < l" "l \<le> 1024 * 2 ^ j"
  shows "fits (decomp k) l"
  using assms(1)
proof (induction k rule: decomp.induct)
  case (1 k)
  show ?case
  proof (cases "k = 0")
    case True
    then show ?thesis using assms(2) by simp
  next
    case False
    define m where "m = msb_index k"
    have m: "2 ^ m \<le> k" "k < 2 * 2 ^ m" using msb_index_bounds False by (auto simp: m_def)
    have "2 ^ j \<le> k" using "1.prems" False by (simp add: dvd_imp_le)
    then have "(2::nat) ^ j < 2 ^ Suc m" using m by simp
    then have jm: "j \<le> m" using power_less_imp_less_exp [of "2::nat" j "Suc m"] by simp
    have d: "2 ^ j dvd (2::nat) ^ m" using jm by (rule le_imp_power_dvd)
    have dd: "2 ^ j dvd k - 2 ^ m" using "1.prems" d by (rule dvd_diff_nat)
    have "k - 2 ^ m + 2 ^ j \<le> 2 ^ m" using dd m jm by (intro dvd_less_pow) simp_all
    then have "1024 * (k - 2 ^ m) + l \<le> 1024 * 2 ^ m" using assms(3) by linarith
    moreover have "fits (decomp (k - 2 ^ m)) l" using "1.IH" False dd by (simp add: m_def)
    moreover have "msb_index (2 ^ m) = m" by (rule msb_index_unique) simp_all
    ultimately show ?thesis using False by (subst decomp.simps) (simp flip: m_def)
  qed
qed


section \<open>The chaining value stack\<close>

definition stack_rep :: "u32 list \<Rightarrow> u8 \<Rightarrow> blake3_hasher \<Rightarrow> nat list \<Rightarrow> u8 list \<Rightarrow> bool" where
  "stack_rep key fl h ss bs \<longleftrightarrow>
     h_key h = key \<and> cs_flags (h_chunk h) = fl \<and> unat (h_cv_stack_len h) = length ss \<and> length ss \<le> 55 \<and>
     length (h_cv_stack h) = 1760 \<and> length bs = 1024 * sum_list ss \<and>
     take (32 * length ss) (h_cv_stack h) = concat (segs key fl 0 ss bs)"

lemma unat_plus_1_u8: "unat (w::u8) < 255 \<Longrightarrow> unat (w + 1) = unat w + 1"
  by (simp add: unat_word_ariths)

lemma unat_minus_1_u8: "0 < unat (w::u8) \<Longrightarrow> unat (w - 1) = unat w - 1"
  by (metis unat_minus_one unat_eq_zero neq0_conv)

lemma stack_rep_merge_step:
  assumes rep: "stack_rep key fl h (ts @ [2 ^ j, 2 ^ j]) bs"
  defines "pos \<equiv> (unat (h_cv_stack_len h) - 2) * 32"
  shows "stack_rep key fl (h\<lparr>h_cv_stack := blit (h_cv_stack h) pos (output_chaining_value
           (parent_output (take 64 (drop pos (h_cv_stack h))) key fl)), h_cv_stack_len := h_cv_stack_len h - 1\<rparr>)
         (ts @ [2 ^ Suc j]) bs"
proof -
  let ?S = "h_cv_stack h" and ?ss = "ts @ [2 ^ j, 2 ^ j]"
  have r: "unat (h_cv_stack_len h) = length ts + 2" "length ts + 2 \<le> 55" "length ?S = 1760"
    "length bs = 1024 * (sum_list ts + 2 ^ j + 2 ^ j)" "take (32 * (length ts + 2)) ?S = concat (segs key fl 0 ?ss bs)"
    using rep by (simp_all add: stack_rep_def)
  have pos: "pos = 32 * length ts" using r by (simp add: pos_def)
  have "take 64 (drop pos ?S) = drop pos (take (32 * (length ts + 2)) ?S)"
    by (simp add: pos drop_take)
  also have "\<dots> = concat (drop (length ts) (segs key fl 0 ?ss bs))"
    unfolding r(5) pos by (simp add: segs_append)
  finally have b: "take 64 (drop pos ?S) = concat (drop (length ts) (segs key fl 0 ?ss bs))" .
  have "take pos ?S = take pos (take (32 * (length ts + 2)) ?S)" by (simp add: pos)
  also have "\<dots> = concat (segs key fl 0 ts bs)" unfolding r(5) pos by (simp add: segs_append)
  finally have p: "take pos ?S = concat (segs key fl 0 ts bs)" .
  define cv where "cv = output_chaining_value (parent_output (take 64 (drop pos ?S)) key fl)"
  have "concat (segs key fl 0 (ts @ [2 ^ Suc j]) bs) = take pos ?S @ cv"
    unfolding p cv_def b segs_merge [OF r(4)] by simp
  moreover have "take (pos + 32) (blit ?S pos cv) = take pos ?S @ cv"
    using take_blit [of pos ?S cv] r pos by (simp add: cv_def)
  moreover have "length (blit ?S pos cv) = 1760" using r pos by (simp add: cv_def)
  ultimately show ?thesis
    using rep r unfolding cv_def [symmetric] by (simp add: stack_rep_def unat_minus_1_u8 pos algebra_simps)
qed

lemma hasher_merge_loop_chunk [simp]:
  "h_chunk (hasher_merge_loop h p) = h_chunk h" "h_key (hasher_merge_loop h p) = h_key h"
proof (induction h p rule: hasher_merge_loop.induct)
  case (1 h p)
  {
    case 1
    then show ?case using "1.IH" by (subst hasher_merge_loop.simps) (simp add: Let_def)
  next
    case 2
    then show ?case using "1.IH" by (subst hasher_merge_loop.simps) (simp add: Let_def)
  }
qed

lemma hasher_merge_loop_rep:
  assumes "stack_rep key fl h ss bs" "lazy_form n k j ss"
  shows "stack_rep key fl (hasher_merge_loop h (bit_count n)) (decomp n) bs"
  using assms
proof (induction "length ss" arbitrary: h ss k j)
  case 0
  then show ?case by (simp add: lazy_form_def)
next
  case (Suc x)
  have len: "unat (h_cv_stack_len h) = length ss" "h_key h = key" "cs_flags (h_chunk h) = fl"
    using Suc.prems(1) by (simp_all add: stack_rep_def)
  show ?case
  proof (cases "length ss > bit_count n")
    case False
    then show ?thesis using lazy_form_done [OF Suc.prems(2) False] Suc.prems(1) len
      by (subst hasher_merge_loop.simps) simp
  next
    case True
    obtain ts where ts: "ss = ts @ [2 ^ j, 2 ^ j]" "lazy_form n (k - 2 ^ j) (Suc j) (ts @ [2 ^ Suc j])"
      using lazy_form_merge [OF Suc.prems(2) True] by blast
    have "x = length (ts @ [2 ^ Suc j])" using Suc.hyps(2) ts(1) by simp
    from Suc.hyps(1) [OF this stack_rep_merge_step [OF Suc.prems(1) [unfolded ts(1)]] ts(2)]
    show ?thesis using True len by (subst hasher_merge_loop.simps) (simp add: Let_def)
  qed
qed

definition stack_form :: "nat \<Rightarrow> nat list \<Rightarrow> bool" where
  "stack_form n ss \<longleftrightarrow> (n = 0 \<and> ss = []) \<or> (\<exists>k j. lazy_form n k j ss)"

lemma stack_form_decomp: "stack_form n (decomp n)"
  using lazy_form_decomp [of n] by (cases "n = 0") (auto simp: stack_form_def)

lemma stack_form_sum: "stack_form n ss \<Longrightarrow> sum_list ss = n"
  by (auto simp: stack_form_def lazy_form_def)

lemma merge_cv_stack_rep:
  assumes "stack_rep key fl h ss bs" "stack_form n ss" "n < 2 ^ 64"
  shows "stack_rep key fl (hasher_merge_cv_stack h (of_nat n)) (decomp n) bs"
proof -
  have p: "popcnt (of_nat n) = bit_count n" using assms(3) by (simp add: popcnt_def unat_of_nat)
  show ?thesis
  proof (cases "n = 0")
    case True
    then show ?thesis using assms
      by (simp add: stack_form_def lazy_form_def hasher_merge_cv_stack_def p hasher_merge_loop.simps [of h] bit_count_eq
          stack_rep_def)
  next
    case False
    then obtain k j where "lazy_form n k j ss" using assms(2) by (auto simp: stack_form_def)
    from hasher_merge_loop_rep [OF assms(1) this] show ?thesis by (simp add: hasher_merge_cv_stack_def p)
  qed
qed

lemma push_cv_rep:
  assumes rep: "stack_rep key fl h ss bs" and form: "stack_form n ss" and n: "n < 2 ^ 54"
    and t: "length t = 1024 * 2 ^ j" and cv: "take 32 cv = node_cv key fl (of_nat n) t" "2 ^ j dvd n"
  shows "stack_rep key fl (hasher_push_cv h cv (of_nat n)) (decomp n @ [2 ^ j]) (bs @ t)"
    and "stack_form (n + 2 ^ j) (decomp n @ [2 ^ j])"
    and "h_chunk (hasher_push_cv h cv (of_nat n)) = h_chunk h"
    and "h_key (hasher_push_cv h cv (of_nat n)) = h_key h"
proof -
  define g where "g = hasher_merge_cv_stack h (of_nat n)"
  have "n < 2 ^ 64" using n by simp
  from merge_cv_stack_rep [OF rep form this] have r: "stack_rep key fl g (decomp n) bs" by (simp add: g_def)
  have l: "length (decomp n) \<le> 54" using n by (rule length_decomp_bound)
  let ?m = "length (decomp n)" and ?c = "node_cv key fl (of_nat n) t"
  have g: "unat (h_cv_stack_len g) = ?m" "length (h_cv_stack g) = 1760" "length bs = 1024 * sum_list (decomp n)"
    "take (32 * ?m) (h_cv_stack g) = concat (segs key fl 0 (decomp n) bs)"
    "h_key g = key" "cs_flags (h_chunk g) = fl"
    using r unfolding stack_rep_def by blast+
  have s: "segs key fl 0 (decomp n @ [2 ^ j]) (bs @ t) = segs key fl 0 (decomp n) bs @ [?c]"
    using segs_snoc [OF g(3), of t "2 ^ j"] t by simp
  have tk: "take (32 * ?m + 32) (blit (h_cv_stack g) (32 * ?m) ?c) = take (32 * ?m) (h_cv_stack g) @ ?c"
    using take_blit [of "32 * ?m" "h_cv_stack g" ?c] l g(2) by simp
  show "stack_rep key fl (hasher_push_cv h cv (of_nat n)) (decomp n @ [2 ^ j]) (bs @ t)"
    using g l t s tk unat_plus_1_u8 [of "h_cv_stack_len g"]
    by (simp add: stack_rep_def hasher_push_cv_def g_def [symmetric] cv(1) mult.commute [of _ 32] add.commute [of 32])
  show "stack_form (n + 2 ^ j) (decomp n @ [2 ^ j])" using cv(2) by (auto simp: stack_form_def lazy_form_def)
  show "h_chunk (hasher_push_cv h cv (of_nat n)) = h_chunk h" "h_key (hasher_push_cv h cv (of_nat n)) = h_key h"
    by (simp_all add: hasher_push_cv_def Let_def hasher_merge_cv_stack_def)
qed

end
