(* ===== verification/Blake3_Hasher.thy ===== *)
theory Blake3_Hasher
  imports Blake3_Stream
begin

text \<open>
  The incremental hasher: the choice of the next subtree, the invariant \<open>hasher_rep\<close> (the hasher has absorbed exactly these
  bytes), that every update keeps it, that finalization at any moment yields the root node of the tree, and that
  \<^verbatim>\<open>output_root_bytes\<close> reads the extendable output at any position.
\<close>

section \<open>Choosing the next subtree\<close>

lemma low_bits_zero: "(of_nat (2 ^ i - 1) AND (c::u64)) = 0 \<longleftrightarrow> 2 ^ i dvd unat c"
proof -
  have "(of_nat (2 ^ i - 1) :: u64) = mask i"
    by (metis mask_eq_exp_minus_1 of_nat_mask_eq)
  then have "(of_nat (2 ^ i - 1) AND c) = take_bit i c" by (simp add: take_bit_eq_mask and.commute)
  moreover have "unat (take_bit i c) = unat c mod 2 ^ i"
    by (simp only: unsigned_take_bit_eq) (simp add: take_bit_eq_mod)
  ultimately show ?thesis by (metis dvd_eq_mod_eq_0 unat_eq_zero)
qed

lemma shrink_subtree_pow:
  "10 \<le> i \<Longrightarrow> 2 ^ 10 dvd unat c \<Longrightarrow>
   \<exists>m. 10 \<le> m \<and> m \<le> i \<and> shrink_subtree (2 ^ i) c = 2 ^ m \<and> 2 ^ m dvd unat c"
proof (induction i)
  case (Suc i)
  show ?case
  proof (cases "2 ^ Suc i dvd unat c")
    case True
    then have "shrink_subtree (2 ^ Suc i) c = 2 ^ Suc i"
      using low_bits_zero [of "Suc i" c] by (subst shrink_subtree.simps) simp
    then show ?thesis using True Suc.prems(1) by blast
  next
    case False
    then have "Suc i \<noteq> 10" using Suc.prems(2) by (metis (no_types))
    then have "10 \<le> i" using Suc.prems(1) by simp
    moreover have "shrink_subtree (2 ^ Suc i) c = shrink_subtree (2 ^ i) c"
      using False low_bits_zero [of "Suc i" c] by (subst shrink_subtree.simps) simp
    ultimately show ?thesis using Suc.IH Suc.prems(2) le_Suc_eq by metis
  qed
qed simp

lemma unat_counter_bytes: "n < 2 ^ 54 \<Longrightarrow> unat (of_nat n * of_nat 1024 :: u64) = n * 1024"
proof -
  assume "n < 2 ^ 54"
  then have "unat (of_nat (n * 1024) :: u64) = n * 1024" by (subst unat_of_nat) simp
  then show ?thesis by simp
qed

lemma update_subtree_len_pow:
  assumes "cs_counter (h_chunk h) = of_nat n" "n < 2 ^ 54" "1024 < l" "l < 2 ^ 64"
  shows "\<exists>m. update_subtree_len h l = 1024 * 2 ^ m \<and> 2 ^ m dvd n \<and> 1024 * 2 ^ m \<le> l"
proof -
  define i where "i = msb_index l"
  have i: "2 ^ i \<le> l" "l < 2 * 2 ^ i" using msb_index_bounds [of l] assms(3) by (auto simp: i_def)
  have "(2::nat) ^ 10 < 2 ^ Suc i" using i assms(3) by simp
  then have i10: "10 \<le> i" using power_less_imp_less_exp [of "2::nat" 10 "Suc i"] by simp
  let ?c = "cs_counter (h_chunk h) * of_nat 1024"
  have c: "unat ?c = n * 1024" using assms by (simp only: unat_counter_bytes)
  then have "2 ^ 10 dvd unat ?c" by simp
  from shrink_subtree_pow [OF i10 this] obtain m where
    m: "10 \<le> m" "m \<le> i" "shrink_subtree (2 ^ i) ?c = 2 ^ m" "2 ^ m dvd unat ?c" by blast
  define d where "d = m - 10"
  have md: "(2::nat) ^ m = 1024 * 2 ^ d" 
  proof -
    have "(2::nat) ^ (10 + d) = 2 ^ 10 * 2 ^ d" by (rule power_add)
    then show ?thesis using m(1) by (simp add: d_def)
  qed
  have "unat (of_nat l :: u64) = l" using assms(4) by (simp add: unat_of_nat)
  then have "update_subtree_len h l = 1024 * 2 ^ d"
    using m(3) by (simp add: update_subtree_len_def unat_round_down i_def md)
  moreover have "2 ^ d dvd n" using m(4) unfolding c md by (simp add: mult.commute)
  moreover have "1024 * 2 ^ d \<le> l"
    using i(1) m(2) power_increasing [of m i "2::nat"] md by simp
  ultimately show ?thesis by blast
qed

lemma unat_eqI64: "unat (a::u64) = unat b \<Longrightarrow> a = b"
  by (simp add: word_unat_eq_iff)

section \<open>Absorbing one subtree\<close>

text \<open>A hasher between chunks: \<open>n\<close> whole chunks on the stack, the chunk state empty.\<close>

definition between :: "u32 list \<Rightarrow> u8 \<Rightarrow> blake3_hasher \<Rightarrow> nat \<Rightarrow> nat list \<Rightarrow> u8 list \<Rightarrow> bool" where
  "between key fl h n ss bs \<longleftrightarrow>
     stack_rep key fl h ss bs \<and> stack_form n ss \<and> h_chunk h = chunk_abs key (of_nat n) fl []"

lemma absorb_one_chunk:
  assumes b: "between key fl h n ss bs" and n: "n < 2 ^ 54" and t: "length t = 1024"
  shows "between key fl (hasher_absorb_subtree h (t @ rest) 1024) (n + 1) (decomp n @ [1]) (bs @ t)"
proof -
  have ch: "h_chunk h = chunk_abs key (of_nat n) fl []" "h_key h = key"
    and rep: "stack_rep key fl h ss bs" "stack_form n ss" using b by (auto simp: between_def stack_rep_def)
  have up: "chunk_state_update ((chunk_state_init key fl)\<lparr>cs_counter := of_nat n\<rparr>) t = chunk_abs key (of_nat n) fl t"
    using t chunk_state_update_abs [of "[]" t key "of_nat n" fl] by (simp add: chunk_abs_empty)
  have cv: "take 32 (output_chaining_value (chunk_output_spec key (of_nat n) fl t)) = node_cv key fl (of_nat n) t"
    using t by (simp add: node_cv_def node_output_chunk)
  have "length t = 1024 * 2 ^ 0" "2 ^ 0 dvd n" using t by simp_all
  note p = push_cv_rep [OF rep n this(1) cv this(2)]
  have e: "hasher_absorb_subtree h (t @ rest) 1024 =
      (let s = hasher_push_cv h (output_chaining_value (chunk_output_spec key (of_nat n) fl t)) (of_nat n)
       in s\<lparr>h_chunk := (h_chunk s)\<lparr>cs_counter := cs_counter (h_chunk s) + 1\<rparr>\<rparr>)"
    using t by (simp add: hasher_absorb_subtree_def ch up chunk_abs_facts)
  show ?thesis
    using p by (simp add: e Let_def between_def stack_rep_def ch chunk_abs_empty_counter)
      (simp add: add.commute)
qed

lemma absorb_pair:
  assumes b: "between key fl h n ss bs" and n: "n + 2 ^ Suc m < 2 ^ 54"
    and t: "length t = 1024 * 2 ^ Suc m" and d: "2 ^ Suc m dvd n"
  shows "between key fl (hasher_absorb_subtree h (t @ rest) (1024 * 2 ^ Suc m)) (n + 2 ^ Suc m)
     (decomp (n + 2 ^ m) @ [2 ^ m]) (bs @ t)"
proof -
  have ch: "h_chunk h = chunk_abs key (of_nat n) fl []" "h_key h = key"
    and rep: "stack_rep key fl h ss bs" "stack_form n ss" using b by (auto simp: between_def stack_rep_def)
  define x y where "x = take (1024 * 2 ^ m) t" and "y = drop (1024 * 2 ^ m) t"
  have xy: "t = x @ y" "length x = 1024 * 2 ^ m" "length y = 1024 * 2 ^ m" using t by (simp_all add: x_def y_def)
  have pos: "(0::nat) < 2 ^ m" "n + 2 ^ m < 2 ^ 54" "n < 2 ^ 54" using n zero_less_power [of "2::nat" m]
    unfolding power_Suc by linarith+
  have ll: "left_len (length t) = 1024 * 2 ^ m" unfolding t power_Suc using pos(1) by (intro left_len_unique) simp_all
  have lt: "1024 < length t" using pos(1) unfolding t power_Suc by linarith
  have "1024 * 2 ^ Suc m < (2::nat) ^ 64" using n by simp
  then have "t \<noteq> []" "length t < 2 ^ 64" using t lt by auto
  then have "blake3_compress_subtree_wide t key (of_nat n) fl = node_children key fl (of_nat n) t"
    using compress_subtree_wide_correct [of t key "of_nat n" fl] lt by simp
  then have cvp: "compress_subtree_to_parent_node t key (of_nat n) fl =
      node_cv key fl (of_nat n) x @ node_cv key fl (of_nat (n + 2 ^ m)) y" (is "_ = ?cv")
    by (simp add: compress_subtree_to_parent_node_def node_children_def ll Let_def x_def y_def)
  have d1: "2 ^ m dvd n" using d by (metis dvd_mult_right power_Suc mult.commute dvd_trans dvd_triv_left)
  have c1: "take 32 ?cv = node_cv key fl (of_nat n) x" by simp
  note p1 = push_cv_rep [OF rep pos(3) xy(2) c1 d1]
  have c2: "take 32 (drop 32 ?cv) = node_cv key fl (of_nat (n + 2 ^ m)) y" by simp
  have d2: "2 ^ m dvd n + 2 ^ m" using d1 by simp
  note p2 = push_cv_rep [OF p1(1,2) pos(2) xy(3) c2 d2]
  have half: "(of_nat (2 ^ Suc m) :: u64) div 2 = of_nat (2 ^ m)"
  proof -
    have "unat (of_nat (2 ^ Suc m) :: u64) = 2 ^ Suc m" using n by (subst unat_of_nat) simp
    moreover have "unat (of_nat (2 ^ m) :: u64) = 2 ^ m" using n by (subst unat_of_nat) simp
    ultimately show ?thesis by (intro unat_eqI64) (simp add: unat_div)
  qed
  have not_one: "\<not> 2 * 2 ^ m \<le> Suc 0" using pos(1) by linarith
  have e: "hasher_absorb_subtree h (t @ rest) (1024 * 2 ^ Suc m) =
      (let s = hasher_push_cv (hasher_push_cv h ?cv (of_nat n)) (drop 32 ?cv) (of_nat (n + 2 ^ m))
       in s\<lparr>h_chunk := (h_chunk s)\<lparr>cs_counter := cs_counter (h_chunk s) + of_nat (2 ^ Suc m)\<rparr>\<rparr>)"
    using t half p1(3) not_one by (simp add: hasher_absorb_subtree_def ch cvp Let_def)
  have n2: "n + 2 ^ Suc m = n + 2 ^ m + 2 ^ m" by simp
  show ?thesis
    using p2 p1(3,4) unfolding n2 e Let_def
    by (simp add: between_def stack_rep_def ch chunk_abs_empty_counter xy(1) algebra_simps)
qed


section \<open>The streaming invariant\<close>

lemma between_len: "between key fl h n ss bs \<Longrightarrow> length bs = 1024 * n"
  using stack_form_sum [of n ss] by (auto simp: between_def stack_rep_def)

lemma absorb_rep:
  assumes b: "between key fl h n ss bs" and l: "length bs + length inp < 2 ^ 64" "1024 < length inp"
  defines "sl \<equiv> update_subtree_len h (length inp)"
  shows "\<exists>n' ss'. between key fl (hasher_absorb_subtree h inp sl) n' ss' (bs @ take sl inp) \<and> 0 < sl \<and> sl \<le> length inp \<and>
    (sl = length inp \<longrightarrow> (\<exists>k j. 0 < k \<and> lazy_form n' k j ss'))"
proof -
  have n: "1024 * n + length inp < 2 ^ 64" using between_len [OF b] l by simp
  have c: "cs_counter (h_chunk h) = of_nat n" using b by (simp add: between_def)
  have "n < 2 ^ 54" "length inp < 2 ^ 64" using n by simp_all
  from update_subtree_len_pow [OF c this(1) l(2) this(2)]
  obtain m where m: "sl = 1024 * 2 ^ m" "2 ^ m dvd n" "sl \<le> length inp" by (auto simp: sl_def)
  have t: "length (take sl inp) = sl" "take sl inp @ drop sl inp = inp" using m by simp_all
  show ?thesis
  proof (cases m)
    case 0
    then have "length (take sl inp) = 1024" using t m by simp
    from absorb_one_chunk [OF b \<open>n < 2 ^ 54\<close> this, of "drop sl inp"]
    show ?thesis using m 0 l(2) by auto
  next
    case (Suc i)
    have "1024 * (n + 2 ^ Suc i) < 2 ^ 64" using n m Suc by simp
    then have "n + 2 ^ Suc i < 2 ^ 54" by simp
    from absorb_pair [OF b this, of "take sl inp" "drop sl inp"] m Suc t
    have "between key fl (hasher_absorb_subtree h inp sl) (n + 2 ^ Suc i) (decomp (n + 2 ^ i) @ [2 ^ i]) (bs @ take sl inp)"
      by simp
    moreover have "lazy_form (n + 2 ^ Suc i) (n + 2 ^ i) i (decomp (n + 2 ^ i) @ [2 ^ i])"
      using m(2) Suc by (auto simp: lazy_form_def elim: dvd_mult_right)
    moreover have "0 < n + 2 ^ i" "0 < sl" using m(1) by simp_all
    ultimately show ?thesis using m(3) by blast
  qed
qed

lemma update_subtrees_rep:
  assumes "between key fl h n ss bs" "length bs + length inp < 2 ^ 64"
    and "inp = [] \<Longrightarrow> \<exists>k j. 0 < k \<and> lazy_form n k j ss"
  shows "\<exists>h' n' ss' bs' r. hasher_update_subtrees h inp = (h', r) \<and> between key fl h' n' ss' bs' \<and> bs' @ r = bs @ inp \<and>
    length r \<le> 1024 \<and> (r = [] \<longrightarrow> (\<exists>k j. 0 < k \<and> lazy_form n' k j ss'))"
  using assms
proof (induction inp arbitrary: h n ss bs rule: length_induct)
  case (1 inp)
  show ?case
  proof (cases "1024 < length inp")
    case False
    have "hasher_update_subtrees h inp = (h, inp)" using False by (subst hasher_update_subtrees.simps) simp
    then show ?thesis using False "1.prems" by (intro exI [of _ h] exI [of _ n] exI [of _ ss] exI [of _ bs] exI [of _ inp]) simp
  next
    case True
    define sl where "sl = update_subtree_len h (length inp)"
    obtain n' ss' where s: "between key fl (hasher_absorb_subtree h inp sl) n' ss' (bs @ take sl inp)" "0 < sl"
      "sl \<le> length inp" "sl = length inp \<longrightarrow> (\<exists>k j. 0 < k \<and> lazy_form n' k j ss')"
      using absorb_rep [OF "1.prems"(1,2) True] unfolding sl_def by blast
    have e: "hasher_update_subtrees h inp = hasher_update_subtrees (hasher_absorb_subtree h inp sl) (drop sl inp)"
      using True by (subst hasher_update_subtrees.simps) (simp add: sl_def Let_def)
    have "length (drop sl inp) < length inp" using s True by auto
    moreover have "length (bs @ take sl inp) + length (drop sl inp) < 2 ^ 64" using "1.prems"(2) s(3) by simp
    moreover have "drop sl inp = [] \<Longrightarrow> \<exists>k j. 0 < k \<and> lazy_form n' k j ss'" using s(3,4) by simp
    ultimately obtain h' n2 ss2 bs' r where "hasher_update_subtrees (hasher_absorb_subtree h inp sl) (drop sl inp) = (h', r)"
      "between key fl h' n2 ss2 bs'" "bs' @ r = (bs @ take sl inp) @ drop sl inp" "length r \<le> 1024"
      "r = [] \<longrightarrow> (\<exists>k j. 0 < k \<and> lazy_form n2 k j ss2)"
      using "1.IH" [rule_format, OF _ s(1)] by blast
    then show ?thesis unfolding e by (metis append.assoc append_take_drop_id)
  qed
qed

text \<open>A hasher that has absorbed exactly the bytes \<open>inp\<close>.\<close>

definition hasher_rep :: "u32 list \<Rightarrow> u8 \<Rightarrow> blake3_hasher \<Rightarrow> u8 list \<Rightarrow> bool" where
  "hasher_rep key fl h inp \<longleftrightarrow>
    (\<exists>n ss bs r. inp = bs @ r \<and> stack_rep key fl h ss bs \<and> stack_form n ss \<and>
       h_chunk h = chunk_abs key (of_nat n) fl r \<and> length r \<le> 1024 \<and>
       (if r = [] then ss = [] \<or> (\<exists>k j. 0 < k \<and> lazy_form n k j ss) else ss = decomp n))"

lemma hasher_rep_init:
  "length (h_cv_stack h) = 1760 \<Longrightarrow> hasher_rep key fl (hasher_init_base h key fl) []"
  unfolding hasher_rep_def
  by (intro exI [of _ 0] exI [of _ "[]"]) 
    (simp add: hasher_init_base_def stack_rep_def stack_form_def chunk_abs_empty chunk_state_init_def)

lemma update_from_between:
  assumes "between key fl h n ss bs" "length bs + length inp < 2 ^ 64" "inp \<noteq> []"
  shows "hasher_rep key fl
    (let (self, input) = hasher_update_subtrees h inp
     in if length input > 0 then
          let self = self\<lparr>h_chunk := chunk_state_update (h_chunk self) input\<rparr>
          in hasher_merge_cv_stack self (cs_counter (h_chunk self))
        else self) (bs @ inp)"
proof -
  obtain h' n' ss' bs' r where u: "hasher_update_subtrees h inp = (h', r)" "between key fl h' n' ss' bs'"
    "bs' @ r = bs @ inp" "length r \<le> 1024" "r = [] \<longrightarrow> (\<exists>k j. 0 < k \<and> lazy_form n' k j ss')"
    using update_subtrees_rep [OF assms(1,2)] assms(3) by blast
  have ch: "h_chunk h' = chunk_abs key (of_nat n') fl []" and st: "stack_rep key fl h' ss' bs'" "stack_form n' ss'"
    using u(2) by (auto simp: between_def)
  have "length bs' + length r < 2 ^ 64" using u(3) assms(2) by (metis length_append)
  then have n': "n' < 2 ^ 64" using between_len [OF u(2)] by simp
  show ?thesis
  proof (cases "r = []")
    case True
    then show ?thesis using u ch st unfolding hasher_rep_def
      by (intro exI [of _ n'] exI [of _ ss'] exI [of _ bs'] exI [of _ "[]"]) auto
  next
    case False
    define g where "g = h'\<lparr>h_chunk := chunk_state_update (h_chunk h') r\<rparr>"
    have up: "chunk_state_update (h_chunk h') r = chunk_abs key (of_nat n') fl r"
      using u(4) chunk_state_update_abs [of "[]" r key "of_nat n'" fl] by (simp add: ch)
    have "stack_rep key fl g ss' bs'" using st(1) by (simp add: stack_rep_def g_def up)
    from merge_cv_stack_rep [OF this st(2) n']
    have m: "stack_rep key fl (hasher_merge_cv_stack g (of_nat n')) (decomp n') bs'" .
    have "h_chunk (hasher_merge_cv_stack g (of_nat n')) = chunk_abs key (of_nat n') fl r"
      by (simp add: hasher_merge_cv_stack_def g_def up)
    with m have "hasher_rep key fl (hasher_merge_cv_stack g (of_nat n')) (bs' @ r)"
      unfolding hasher_rep_def using stack_form_decomp u(4) False by metis
    moreover have "cs_counter (h_chunk g) = of_nat n'" by (simp add: g_def up)
    ultimately show ?thesis
      using False by (simp add: u(1,3) Let_def flip: g_def)
  qed
qed

lemma hasher_rep_len: "stack_rep key fl h ss bs \<Longrightarrow> stack_form n ss \<Longrightarrow> length bs = 1024 * n"
  using stack_form_sum [of n ss] by (auto simp: stack_rep_def)

lemma hasher_rep_update:
  assumes "hasher_rep key fl h a" "length (a @ b) < 2 ^ 64"
  shows "hasher_rep key fl (blake3_hasher_update h b) (a @ b)"
proof (cases "b = []")
  case True
  then show ?thesis using assms(1) by (simp add: blake3_hasher_update_def)
next
  case nb: False
  obtain n ss bs r where r: "a = bs @ r" "stack_rep key fl h ss bs" "stack_form n ss"
    "h_chunk h = chunk_abs key (of_nat n) fl r" "length r \<le> 1024"
    "if r = [] then ss = [] \<or> (\<exists>k j. 0 < k \<and> lazy_form n k j ss) else ss = decomp n"
    using assms(1) unfolding hasher_rep_def by blast
  have cl: "chunk_state_len (h_chunk h) = length r" using r by (simp add: chunk_abs_facts)
  have key: "h_key h = key" using r(2) by (simp add: stack_rep_def)
  show ?thesis
  proof (cases "r = []")
    case True
    then have "between key fl h n ss bs" using r by (simp add: between_def)
    from update_from_between [OF this _ nb] show ?thesis
      using True r(1) nb assms(2) by (simp add: blake3_hasher_update_def cl)
  next
    case nr: False
    define tk where "tk = min (1024 - length r) (length b)"
    have up: "chunk_state_update (h_chunk h) (take tk b) = chunk_abs key (of_nat n) fl (r @ take tk b)"
      using r(4,5) by (simp add: chunk_state_update_abs tk_def)
    have if_min: "(if 1024 - length r > length b then length b else 1024 - length r) = tk"
      by (simp add: tk_def min_def)
    define g where "g = h\<lparr>h_chunk := chunk_abs key (of_nat n) fl (r @ take tk b)\<rparr>"
    have sg: "stack_rep key fl g ss bs" using r(2) by (simp add: g_def stack_rep_def)
    show ?thesis
    proof (cases "length b \<le> tk")
      case True
      have "blake3_hasher_update h b = g"
        using nb nr True using up by (simp add: blake3_hasher_update_def cl if_min Let_def g_def)
      moreover have "hasher_rep key fl g (a @ b)"
        unfolding hasher_rep_def
        using sg r True nr
        by (intro exI [of _ n] exI [of _ ss] exI [of _ bs] exI [of _ "r @ b"]) (auto simp: g_def tk_def)
      ultimately show ?thesis by simp
    next
      case False
      then have lt: "length (r @ take tk b) = 1024" using r(5) by (auto simp: tk_def min_def)
      have gc: "h_chunk g = chunk_abs key (of_nat n) fl (r @ take tk b)" by (simp add: g_def)
      define p where "p = hasher_push_cv g (node_cv key fl (of_nat n) (r @ take tk b)) (of_nat n)"
      have "1024 * n + 1024 < (2::nat) ^ 64" using False hasher_rep_len [OF r(2,3)] assms(2) r(1) lt by simp
      then have n: "n < 2 ^ 54" by simp
      have "length (r @ take tk b) = 1024 * 2 ^ 0" "take 32 (node_cv key fl (of_nat n) (r @ take tk b)) =
         node_cv key fl (of_nat n) (r @ take tk b)" "2 ^ 0 dvd n" using lt by simp_all
      note push = push_cv_rep [OF sg r(3) n this, folded p_def]
      have pc: "h_chunk p = chunk_abs key (of_nat n) fl (r @ take tk b)" "h_key p = key"
        using push(3,4) key by (simp_all add: g_def)
      define q where "q = p\<lparr>h_chunk := chunk_abs key (of_nat n + 1) fl []\<rparr>"
      have bq: "between key fl q (n + 1) (decomp n @ [1]) (bs @ r @ take tk b)"
        using push(1,2) by (simp add: between_def q_def stack_rep_def) (simp add: add.commute)
      have cvr: "output_chaining_value (chunk_state_output (chunk_abs key (of_nat n) fl (r @ take tk b))) =
          node_cv key fl (of_nat n) (r @ take tk b)"
        using lt by (subst chunk_abs_facts) (simp_all add: node_cv_def node_output_chunk)
      have e: "blake3_hasher_update h b = (let (self, input) = hasher_update_subtrees q (drop tk b)
         in if length input > 0 then
          let self = self\<lparr>h_chunk := chunk_state_update (h_chunk self) input\<rparr>
          in hasher_merge_cv_stack self (cs_counter (h_chunk self))
        else self)"
        using nb nr False pc
        by (simp add: blake3_hasher_update_def cl if_min up Let_def key g_def [symmetric] gc cvr p_def [symmetric] q_def
            chunk_abs_reset [of _ fl])
      have "length (bs @ r @ take tk b) + length (drop tk b) < 2 ^ 64" "drop tk b \<noteq> []"
        using assms(2) r(1) False by (simp_all add: tk_def)
      from update_from_between [OF bq this] show ?thesis unfolding e r(1) by simp
    qed
  qed
qed


section \<open>Finalization\<close>

lemma finalize_parents_spine:
  assumes "\<forall>cv\<in>set cvs. length cv = 32" "take (32 * length cvs) (h_cv_stack h) = concat cvs"
  shows "finalize_parents h (length cvs) out = spine (h_key h) (cs_flags (h_chunk h)) cvs out"
  using assms
proof (induction cvs arbitrary: out rule: rev_induct)
  case (snoc cv cvs)
  have len: "length (concat cvs) = 32 * length cvs" using snoc.prems(1)
    by (induction cvs) auto
  have st: "take (32 * length cvs + 32) (h_cv_stack h) = concat cvs @ cv" using snoc.prems(2) by (simp add: add.commute)
  have "take 32 (drop (32 * length cvs) (h_cv_stack h)) = drop (32 * length cvs) (take (32 * length cvs + 32) (h_cv_stack h))"
    by (simp add: drop_take)
  then have cv: "take 32 (drop (32 * length cvs) (h_cv_stack h)) = cv" unfolding st using len by simp
  have "take (32 * length cvs) (h_cv_stack h) = take (32 * length cvs) (take (32 * length cvs + 32) (h_cv_stack h))" by simp
  then have pre: "take (32 * length cvs) (h_cv_stack h) = concat cvs" unfolding st using len by simp
  show ?case
    using snoc.IH [OF _ pre] snoc.prems(1) cv by (simp add: spine_def mult.commute)
qed (simp add: spine_def)

lemma segs_len32: "\<forall>cv\<in>set (segs key fl n ss bs). length cv = 32"
  by (induction ss arbitrary: n bs) auto

lemma stack_rep_spine:
  assumes "stack_rep key fl h ss bs" "ss = ts @ us"
  shows "finalize_parents h (length ts) out = spine key fl (segs key fl 0 ts bs) out"
proof -
  have s: "take (32 * length ss) (h_cv_stack h) = concat (segs key fl 0 ss bs)" "h_key h = key" "cs_flags (h_chunk h) = fl"
    using assms(1) by (simp_all add: stack_rep_def)
  have "take (32 * length ts) (h_cv_stack h) = take (32 * length ts) (take (32 * length ss) (h_cv_stack h))"
    by (simp add: assms(2))
  also have "\<dots> = concat (segs key fl 0 ts bs)"
    unfolding s(1) by (simp add: assms(2) segs_append)
  finally have "take (32 * length (segs key fl 0 ts bs)) (h_cv_stack h) = concat (segs key fl 0 ts bs)" by simp
  from finalize_parents_spine [OF segs_len32 this] show ?thesis using s by simp
qed

lemma finalize_lazy:
  assumes rep: "stack_rep key fl h ss bs" and lz: "lazy_form n k j ss" "0 < k"
  defines "m \<equiv> length ss - 2"
  shows "finalize_parents h m (parent_output (take 64 (drop (m * 32) (h_cv_stack h))) key fl) = node_output key fl 0 bs"
proof -
  have l: "n = k + 2 ^ j" "2 ^ j dvd k" "ss = decomp k @ [2 ^ j]" using lz by (auto simp: lazy_form_def)
  have r: "length bs = 1024 * (k + 2 ^ j)" "take (32 * length ss) (h_cv_stack h) = concat (segs key fl 0 ss bs)"
    using rep l by (simp_all add: stack_rep_def)
  define x t where "x = take (1024 * k) bs" and "t = drop (1024 * k) bs"
  have xt: "bs = x @ t" "length x = 1024 * sum_list (decomp k)" "length t = 1024 * 2 ^ j"
    using r(1) by (simp_all add: x_def t_def)
  have "decomp k \<noteq> []" using lz(2) sum_decomp [of k] by (metis sum_list.Nil less_irrefl)
  then obtain ts s where ts: "decomp k = ts @ [s]" by (metis rev_exhaust)
  define cv where "cv = node_cv key fl (of_nat (sum_list ts)) (drop (1024 * sum_list ts) x)"
  have sg: "segs key fl 0 (decomp k) x = segs key fl 0 ts x @ [cv]"
    using xt(2) by (simp add: ts segs_append cv_def)
  have sx: "segs key fl 0 ts bs = segs key fl 0 ts x" unfolding xt(1) using xt(2) by (intro segs_prefix) (simp add: ts)
  have all: "segs key fl 0 ss bs = segs key fl 0 ts bs @ [cv, node_cv key fl (of_nat k) t]"
    using xt sg sx by (simp add: l(3) segs_snoc del: sum_decomp) simp
  have m: "m = length ts" "length ss = length ts + 2" by (simp_all add: m_def l(3) ts)
  have "take 64 (drop (m * 32) (h_cv_stack h)) = drop (32 * m) (take (32 * length ss) (h_cv_stack h))"
    by (simp add: m drop_take mult.commute)
  also have "\<dots> = cv @ node_cv key fl (of_nat k) t" unfolding r(2) all m(1) by simp
  finally have blk: "take 64 (drop (m * 32) (h_cv_stack h)) = cv @ node_cv key fl (of_nat k) t" .
  have "0 < length t" using xt(3) by simp
  then have "fits (decomp k) (length t)" using l(2) xt(3) by (intro fits_decomp [of j]) simp_all
  from node_output_spine [OF this xt(2), of key fl 0]
  have "node_output key fl 0 bs = spine key fl (segs key fl 0 ts x @ [cv]) (node_output key fl (of_nat k) t)"
    unfolding xt(1) sg by simp
  also have "\<dots> = spine key fl (segs key fl 0 ts bs) (parent_output (cv @ node_cv key fl (of_nat k) t) key fl)"
    by (simp add: spine_def sx node_cv_def)
  finally show ?thesis
    unfolding blk unfolding m(1) using stack_rep_spine [OF rep, of ts "[s, 2 ^ j]"] l(3) ts by simp
qed

lemma hasher_rep_finalize:
  assumes "hasher_rep key fl h inp"
  shows "blake3_hasher_finalize_seek h seek out_len = output_root_bytes (node_output key fl 0 inp) seek out_len"
proof (cases "out_len = 0")
  case True
  then show ?thesis by (simp add: blake3_hasher_finalize_seek_def output_root_bytes_def)
next
  case o: False
  obtain n ss bs r where r: "inp = bs @ r" "stack_rep key fl h ss bs" "stack_form n ss"
    "h_chunk h = chunk_abs key (of_nat n) fl r" "length r \<le> 1024"
    "if r = [] then ss = [] \<or> (\<exists>k j. 0 < k \<and> lazy_form n k j ss) else ss = decomp n"
    using assms unfolding hasher_rep_def by blast
  have cl: "chunk_state_len (h_chunk h) = length r" "chunk_state_output (h_chunk h) = node_output key fl (of_nat n) r"
    using r by (simp_all add: chunk_abs_facts node_output_chunk)
  have hh: "h_key h = key" "unat (h_cv_stack_len h) = length ss" using r(2) by (simp_all add: stack_rep_def)
  have z: "h_cv_stack_len h = 0 \<longleftrightarrow> ss = []" using hh(2) by (metis length_0_conv unat_eq_zero)
  have sum: "sum_list ss = n" using r(3) by (rule stack_form_sum)
  show ?thesis
  proof (cases "ss = []")
    case True
    then have "bs = []" "n = 0" using r(2) sum by (simp_all add: stack_rep_def)
    then show ?thesis using o True r(1) cl(2) by (simp add: blake3_hasher_finalize_seek_def z)
  next
    case ns: False
    show ?thesis
    proof (cases "r = []")
      case True
      then obtain k j where "0 < k" "lazy_form n k j ss" using r(6) ns by auto
      from finalize_lazy [OF r(2) this(2,1)] show ?thesis
        using o True ns r(1,4) hh cl(1) by (simp add: blake3_hasher_finalize_seek_def z Let_def)
    next
      case False
      then have d: "ss = decomp n" using r(6) by simp
      have "fits ss (length r)" unfolding d using False r(5) by (intro fits_decomp [of 0]) simp_all
      from node_output_spine [OF this, of bs key fl 0] r(2) sum
      have "node_output key fl 0 inp = spine key fl (segs key fl 0 ss bs) (node_output key fl (of_nat n) r)"
        by (simp add: r(1) stack_rep_def)
      also have "\<dots> = finalize_parents h (length ss) (node_output key fl (of_nat n) r)"
        using stack_rep_spine [OF r(2), of ss "[]"] by simp
      finally show ?thesis
        using o False ns cl hh by (simp add: blake3_hasher_finalize_seek_def z)
    qed
  qed
qed

section \<open>The output stream\<close>

definition xof_block :: "output_t \<Rightarrow> nat \<Rightarrow> u8 list" where
  "xof_block out i = blake3_compress_xof (o_input_cv out) (o_block out) (o_block_len out) (of_nat i) (o_flags out OR ROOT)"

definition xof_stream :: "output_t \<Rightarrow> nat \<Rightarrow> nat \<Rightarrow> u8 list" where
  "xof_stream out pos n = map (\<lambda>p. xof_block out (p div 64) ! (p mod 64)) [pos..<pos + n]"

lemma length_xof_block [simp]: "length (xof_block out i) = 64"
  by (simp add: xof_block_def blake3_compress_xof_def blake3_compress_xof_portable_def Let_def)

lemma xof_stream_append: "xof_stream out p (a + b) = xof_stream out p a @ xof_stream out (p + a) b"
proof -
  have "[p..<p + (a + b)] = [p..<p + a] @ [p + a..<p + a + b]"
    using upt_add_eq_append [of p "p + a" b] by (simp add: add.assoc)
  then show ?thesis by (simp add: xof_stream_def)
qed

lemma xof_stream_part:
  "off + n \<le> 64 \<Longrightarrow> xof_stream out (64 * q + off) n = take n (drop off (xof_block out q))"
proof (rule nth_equalityI)
  fix i assume "off + n \<le> 64" "i < length (xof_stream out (64 * q + off) n)"
  then have i: "off + i < 64" "i < n" by (simp_all add: xof_stream_def)
  have "(64 * q + (off + i)) div 64 = q" "(64 * q + (off + i)) mod 64 = off + i" using i(1) by simp_all
  then show "xof_stream out (64 * q + off) n ! i = take n (drop off (xof_block out q)) ! i"
    using i by (simp add: xof_stream_def add.assoc del: mod_mult_self4 div_mult_self4)
qed (simp add: xof_stream_def)

lemma xof_stream_blocks:
  "xof_stream out (64 * q) (64 * m) =
   blake3_xof_many (o_input_cv out) (o_block out) (o_block_len out) (of_nat q) (o_flags out OR ROOT) m"
proof (induction m arbitrary: q)
  case 0
  show ?case by (simp add: xof_stream_def)
next
  case (Suc m)
  have "xof_stream out (64 * q) (64 * Suc m) = xof_stream out (64 * q + 0) 64 @ xof_stream out (64 * Suc q) (64 * m)"
    using xof_stream_append [of out "64 * q" 64 "64 * m"] by (simp add: algebra_simps)
  also have "xof_stream out (64 * q + 0) 64 = xof_block out q" by (subst xof_stream_part) simp_all
  finally show ?case
    using Suc [of "Suc q"] by (simp add: xof_block_def blake3_compress_xof_def add.commute)
qed

lemma output_root_bytes_stream: "output_root_bytes out seek n = xof_stream out (unat seek) n"
proof -
  define q off where "q = unat seek div 64" and "off = unat seek mod 64"
  have s: "unat seek = 64 * q + off" "off < 64" by (simp_all add: q_def off_def)
  have "unat (seek div 64) = q" by (simp add: q_def unat_div)
  then have w: "seek div 64 = of_nat q" "unat (seek mod 64) = off"
    by (auto simp: off_def unat_mod)
  define rest where "rest cw m = (if m div 64 \<noteq> 0 then blake3_xof_many (o_input_cv out) (o_block out) (o_block_len out) cw
        (o_flags out OR ROOT) (m div 64) else []) @
      (if m mod 64 \<noteq> 0 then take (m mod 64) (blake3_compress_xof (o_input_cv out) (o_block out) (o_block_len out)
        (cw + of_nat (m div 64)) (o_flags out OR ROOT)) else [])" for cw m
  have tail: "rest (of_nat c) m = xof_stream out (64 * c) m" for c m
  proof -
    have "xof_stream out (64 * c) m = xof_stream out (64 * c) (64 * (m div 64) + m mod 64)" by simp
    also have "\<dots> = xof_stream out (64 * c) (64 * (m div 64)) @ xof_stream out (64 * (c + m div 64) + 0) (m mod 64)"
      by (subst xof_stream_append) (simp add: algebra_simps)
    also have "xof_stream out (64 * (c + m div 64) + 0) (m mod 64) = take (m mod 64) (xof_block out (c + m div 64))"
      by (subst xof_stream_part) simp_all
    finally show ?thesis by (auto simp: rest_def xof_stream_blocks xof_block_def)
  qed
  define b where "b = (if n > 64 - off then 64 - off else n)"
  have root: "output_root_bytes out seek n = (if off \<noteq> 0 then take b (drop off (xof_block out q)) @ rest (of_nat (Suc q)) (n - b)
      else rest (of_nat q) n)"
    by (simp add: output_root_bytes_def Let_def w xof_block_def rest_def b_def add.commute [of _ 1])
  show ?thesis
  proof (cases "off = 0")
    case True
    then show ?thesis unfolding root using s(1) by (simp only: tail add_0_right if_False simp_thms)
  next
    case False
    have first: "xof_stream out (unat seek) b = take b (drop off (xof_block out q))"
      unfolding s(1) by (rule xof_stream_part) (use s(2) in \<open>auto simp: b_def\<close>)
    have "xof_stream out (unat seek) n = xof_stream out (unat seek) b @ xof_stream out (unat seek + b) (n - b)"
      using xof_stream_append [of out "unat seek" b "n - b"] by (simp add: b_def)
    also have "xof_stream out (unat seek + b) (n - b) = xof_stream out (64 * Suc q) (n - b)"
    proof (cases "n \<le> 64 - off")
      case True
      then show ?thesis by (simp add: b_def xof_stream_def)
    next
      case f: False
      then show ?thesis using s by (simp add: b_def add.commute)
    qed
    finally show ?thesis unfolding root first tail using False by simp
  qed
qed

end
