(* ===== verification/Blake3_Props.thy ===== *)
theory Blake3_Props
  imports Blake3_Hasher
begin

text \<open>
  What the BLAKE3 component promises. The locale \<open>streaming_hash\<close> is the contract of an incremental hash: an update
  extends the bytes a state represents, and finalization yields the digest of the represented bytes. It is interpreted on
  the hasher for every key and mode, and the properties of the three modes are its consequences.
\<close>

section \<open>The streaming contract\<close>

locale streaming_hash =
  fixes upd :: "'s \<Rightarrow> 'b list \<Rightarrow> 's"
    and fin :: "'s \<Rightarrow> 'q \<Rightarrow> 'd"
    and rep :: "'s \<Rightarrow> 'b list \<Rightarrow> bool"
    and digest :: "'b list \<Rightarrow> 'q \<Rightarrow> 'd"
    and limit :: nat
  assumes rep_update: "rep s a \<Longrightarrow> length (a @ b) < limit \<Longrightarrow> rep (upd s b) (a @ b)"
    and rep_final: "rep s a \<Longrightarrow> fin s q = digest a q"
begin

lemma rep_updates: "rep s a \<Longrightarrow> length (a @ concat ps) < limit \<Longrightarrow> rep (foldl upd s ps) (a @ concat ps)"
proof (induction ps arbitrary: s a)
  case (Cons p ps)
  have "rep (upd s p) (a @ p)" using Cons.prems by (intro rep_update) simp_all
  from Cons.IH [OF this] show ?case using Cons.prems(2) by simp
qed simp

lemma fin_updates: "rep s [] \<Longrightarrow> length (concat ps) < limit \<Longrightarrow> fin (foldl upd s ps) q = digest (concat ps) q"
  using rep_updates [of s "[]" ps] rep_final by simp

lemma fin_split_independent:
  assumes "rep s a" "concat ps = concat qs" "length (a @ concat ps) < limit"
  shows "fin (foldl upd s ps) q = fin (foldl upd s qs) q"
  using rep_updates [OF assms(1), of ps] rep_updates [OF assms(1), of qs] assms(2,3) rep_final by metis

end

text \<open>The specification: the extendable output of the root node of the tree over the input, from byte position
\<open>fst q\<close> on, \<open>snd q\<close> bytes.\<close>

definition blake3_xof :: "u32 list \<Rightarrow> u8 \<Rightarrow> u8 list \<Rightarrow> u64 \<times> nat \<Rightarrow> u8 list" where
  "blake3_xof key fl inp q = xof_stream (node_output key fl 0 inp) (unat (fst q)) (snd q)"

lemma length_blake3_xof [simp]: "length (blake3_xof key fl inp q) = snd q"
  by (simp add: blake3_xof_def xof_stream_def)

interpretation b3: streaming_hash blake3_hasher_update
  "\<lambda>h (q :: u64 \<times> nat). blake3_hasher_finalize_seek h (fst q) (snd q)"
  "hasher_rep key fl" "blake3_xof key fl" "2 ^ 64" for key fl
  by unfold_locales
    (simp_all add: hasher_rep_update hasher_rep_finalize output_root_bytes_stream blake3_xof_def)

text \<open>The bytes a context string contributes and a hasher in zeroed storage, for concrete runs.\<close>

definition zero_hasher :: blake3_hasher where
  "zero_hasher = \<lparr>h_key = replicate 8 0, h_chunk = chunk_state_init (replicate 8 0) 0, h_cv_stack_len = 0,
     h_cv_stack = replicate 1760 0\<rparr>"

lemma zero_hasher_stack [simp]: "length (h_cv_stack zero_hasher) = 1760"
  by (simp add: zero_hasher_def)

lemma fin_from_init:
  assumes "length (h_cv_stack h) = 1760" "length (concat pieces) < 2 ^ 64"
  shows "blake3_hasher_finalize_seek (foldl blake3_hasher_update (hasher_init_base h key fl) pieces) seek n =
    blake3_xof key fl (concat pieces) (seek, n)"
  using b3.fin_updates [OF hasher_rep_init [OF assms(1)] assms(2), of key fl "(seek, n)"] by simp

section \<open>Properties\<close>

text \<open>
  C7. Streaming BLAKE3: whatever pieces the input arrives in, finalization yields, at every seek position and output
  length, the bytes of the extendable output of the BLAKE3 tree over the concatenated input (for inputs below
  \<^verbatim>\<open>2^64\<close> bytes, the limit of the byte counter).\<close>

theorem blake3_hash_correct:
  assumes "length (h_cv_stack h) = 1760" "length (concat pieces) < 2 ^ 64"
  shows "blake3_hasher_finalize_seek (foldl blake3_hasher_update (blake3_hasher_init h) pieces) seek n =
    blake3_xof IV 0 (concat pieces) (seek, n)"
  unfolding blake3_hasher_init_def by (rule fin_from_init [OF assms])

theorem blake3_hash_correct_witness:
  "blake3_hasher_finalize_seek (foldl blake3_hasher_update (blake3_hasher_init zero_hasher)
     [replicate 1024 7, [1, 2, 3], replicate 3000 9]) 5 32 =
   blake3_xof IV 0 (replicate 1024 7 @ [1, 2, 3] @ replicate 3000 9) (5, 32)"
  using blake3_hash_correct [of zero_hasher "[replicate 1024 7, [1, 2, 3], replicate 3000 9]" 5 32] by simp

text \<open>
  Keyed BLAKE3: the same for the keyed mode, with the 32 key bytes read as little-endian words.\<close>

theorem blake3_keyed_hash_correct:
  assumes "length (h_cv_stack h) = 1760" "length (concat pieces) < 2 ^ 64"
  shows "blake3_hasher_finalize_seek (foldl blake3_hasher_update (blake3_hasher_init_keyed h key) pieces) seek n =
    blake3_xof (load_key_words key) KEYED_HASH (concat pieces) (seek, n)"
  unfolding blake3_hasher_init_keyed_def by (rule fin_from_init [OF assms])

theorem blake3_keyed_hash_correct_witness:
  "blake3_hasher_finalize_seek (foldl blake3_hasher_update (blake3_hasher_init_keyed zero_hasher (replicate 32 5))
     [[1], [2]]) 0 16 = blake3_xof (load_key_words (replicate 32 5)) KEYED_HASH [1, 2] (0, 16)"
  using blake3_keyed_hash_correct [of zero_hasher "[[1], [2]]" "replicate 32 5" 0 16] by simp

lemma derive_key_context:
  assumes "length (h_cv_stack h) = 1760" "length context < 2 ^ 64"
  shows "blake3_hasher_init_derive_key_raw h context =
    hasher_init_base h (load_key_words (blake3_xof IV DERIVE_KEY_CONTEXT context (0, 32))) DERIVE_KEY_MATERIAL"
  using fin_from_init [OF assms(1), of "[context]" IV DERIVE_KEY_CONTEXT 0 32] assms(2)
  by (simp add: blake3_hasher_init_derive_key_raw_def blake3_hasher_finalize_def)

text \<open>
  BLAKE3 key derivation: the key material is hashed under the key that is the 32-byte hash of the context string (its
  bytes up to the terminating zero) in context mode.\<close>

theorem blake3_derive_key_correct:
  assumes "length (h_cv_stack h) = 1760" "length context < 2 ^ 64" "length (concat pieces) < 2 ^ 64"
  shows "blake3_hasher_finalize_seek (foldl blake3_hasher_update (blake3_hasher_init_derive_key h context) pieces) seek n =
    blake3_xof (load_key_words (blake3_xof IV DERIVE_KEY_CONTEXT (takeWhile (\<lambda>b. b \<noteq> 0) context) (0, 32)))
      DERIVE_KEY_MATERIAL (concat pieces) (seek, n)"
proof -
  have l: "length (takeWhile (\<lambda>b. b \<noteq> 0) context) < 2 ^ 64" using assms(2) length_takeWhile_le le_less_trans by blast
  show ?thesis
    unfolding blake3_hasher_init_derive_key_def derive_key_context [OF assms(1) l]
    by (intro fin_from_init assms)
qed

theorem blake3_derive_key_correct_witness:
  "blake3_hasher_finalize_seek (foldl blake3_hasher_update (blake3_hasher_init_derive_key zero_hasher [65, 66, 0, 67])
     [[1, 2, 3]]) 0 32 =
   blake3_xof (load_key_words (blake3_xof IV DERIVE_KEY_CONTEXT [65, 66] (0, 32))) DERIVE_KEY_MATERIAL [1, 2, 3] (0, 32)"
  using blake3_derive_key_correct [of zero_hasher "[65, 66, 0, 67]" "[[1, 2, 3]]" 0 32] by simp

lemma hasher_rep_stack:
  "hasher_rep key fl h inp \<Longrightarrow> length (h_cv_stack h) = 1760 \<and> unat (h_cv_stack_len h) \<le> 55"
  by (auto simp: hasher_rep_def stack_rep_def)

text \<open>
  C26. Memory safety of the chaining value stack: no sequence of updates writes outside the 1760 bytes of
  \<^verbatim>\<open>cv_stack\<close>, and its entry count never passes \<^verbatim>\<open>BLAKE3_MAX_DEPTH + 1\<close>.\<close>

theorem blake3_stack_bounded:
  assumes "length (h_cv_stack h) = 1760" "length (concat pieces) < 2 ^ 64"
  shows "length (h_cv_stack (foldl blake3_hasher_update (hasher_init_base h key fl) pieces)) = 1760 \<and>
    unat (h_cv_stack_len (foldl blake3_hasher_update (hasher_init_base h key fl) pieces)) \<le> BLAKE3_MAX_DEPTH + 1"
  using hasher_rep_stack [OF b3.rep_updates [OF hasher_rep_init [OF assms(1)], of pieces key fl]] assms(2) by simp

theorem blake3_stack_bounded_witness:
  "length (h_cv_stack (foldl blake3_hasher_update (hasher_init_base zero_hasher IV 0) [replicate 9000 1])) = 1760 \<and>
   unat (h_cv_stack_len (foldl blake3_hasher_update (hasher_init_base zero_hasher IV 0) [replicate 9000 1])) \<le> 55"
  using blake3_stack_bounded [of zero_hasher "[replicate 9000 1]" IV 0] by simp

text \<open>
  Reset: a hasher that has absorbed any input behaves after \<^verbatim>\<open>blake3_hasher_reset\<close> like a fresh one of the same key
  and mode.\<close>

theorem blake3_reset_correct:
  assumes "length (h_cv_stack h) = 1760" "length (concat before) < 2 ^ 64" "length (concat pieces) < 2 ^ 64"
  shows "blake3_hasher_finalize_seek (foldl blake3_hasher_update (blake3_hasher_reset
     (foldl blake3_hasher_update (hasher_init_base h key fl) before)) pieces) seek n = blake3_xof key fl (concat pieces) (seek, n)"
proof -
  define s where "s = foldl blake3_hasher_update (hasher_init_base h key fl) before"
  have "hasher_rep key fl s (concat before)"
    using b3.rep_updates [OF hasher_rep_init [OF assms(1)], of before key fl] assms(2) by (simp add: s_def)
  then have s: "h_key s = key" "cs_flags (h_chunk s) = fl" "length (h_cv_stack s) = 1760"
    by (auto simp: hasher_rep_def stack_rep_def)
  have "blake3_hasher_reset s = hasher_init_base s key fl"
    using s by (simp add: blake3_hasher_reset_def hasher_init_base_def chunk_abs_reset chunk_abs_empty chunk_state_init_def)
  then show ?thesis using fin_from_init [OF s(3) assms(3)] by (simp add: s_def)
qed

theorem blake3_reset_correct_witness:
  "blake3_hasher_finalize_seek (foldl blake3_hasher_update (blake3_hasher_reset
     (foldl blake3_hasher_update (hasher_init_base zero_hasher IV 0) [replicate 2000 3])) [[8]]) 0 32 = blake3_xof IV 0 [8] (0, 32)"
  using blake3_reset_correct [of zero_hasher "[replicate 2000 3]" "[[8]]" IV 0 0 32] by simp

text \<open>
  C27. The recursive subtree compressor: on more than one chunk, \<^verbatim>\<open>compress_subtree_to_parent_node\<close> returns the chaining
  values of the two subtrees under the tree's root, so that the parent of the returned block is the root node.\<close>

theorem compress_subtree_correct:
  assumes "1024 < length input" "length input < 2 ^ 64"
  shows "parent_output (compress_subtree_to_parent_node input key c flags) key flags = node_output key flags c input"
proof -
  have "input \<noteq> []" using assms(1) by auto
  then show ?thesis
    using assms compress_subtree_wide_correct [of input key c flags]
    by (simp add: compress_subtree_to_parent_node_def node_output_parent)
qed

theorem compress_subtree_correct_witness:
  "parent_output (compress_subtree_to_parent_node (replicate 5000 1) IV 0 0) IV 0 = node_output IV 0 0 (replicate 5000 1)"
  using compress_subtree_correct [of "replicate 5000 1" IV 0 0] by simp

end
