(* ===== verification/Blake3_JNI.thy ===== *)
theory Blake3_JNI
  imports Blake3_Props
begin

text \<open>
  The Java entry points of \<^verbatim>\<open>blake3_jni_bridge.c\<close>. The Java virtual machine is a parameter: \<open>jvm\<close> says which of its
  calls succeed and what a pinned array or string holds. A native call is a state transformer over \<open>jni_state\<close>, which
  records the buffers currently pinned and the pending Java exception; its result is the returned byte array, or \<open>None\<close>
  for \<^verbatim>\<open>NULL\<close>. Java references are \<open>None\<close> for \<^verbatim>\<open>null\<close> and \<open>Some\<close> of a reference otherwise.
\<close>

section \<open>The Java side\<close>

type_synonym jref = nat

datatype exn = IllegalArgumentException string | RuntimeException string | OutOfMemoryError

record jvm =
  vm_find_class :: "string \<Rightarrow> bool"
  vm_array :: "jref \<Rightarrow> u8 list"
  vm_pin_array :: "jref \<Rightarrow> bool"
  vm_utf_chars :: "jref \<Rightarrow> u8 list"
  vm_pin_string :: "jref \<Rightarrow> bool"
  vm_new_array :: "nat \<Rightarrow> bool"

record jni_state =
  js_pinned :: "jref list"
  js_pending :: "exn option"

type_synonym 'a jni = "jni_state \<Rightarrow> 'a \<times> jni_state"

definition throw_illegal_argument :: "jvm \<Rightarrow> string \<Rightarrow> jni_state \<Rightarrow> jni_state" where
  "throw_illegal_argument env msg s =
     (if vm_find_class env ''java/lang/IllegalArgumentException''
      then s\<lparr>js_pending := Some (IllegalArgumentException msg)\<rparr> else s)"

definition throw_runtime :: "jvm \<Rightarrow> string \<Rightarrow> jni_state \<Rightarrow> jni_state" where
  "throw_runtime env msg s =
     (if vm_find_class env ''java/lang/RuntimeException''
      then s\<lparr>js_pending := Some (RuntimeException msg)\<rparr> else s)"

text \<open>\<^verbatim>\<open>GetByteArrayElements\<close>, \<^verbatim>\<open>GetStringUTFChars\<close> (a zero-terminated copy), their releases, and \<^verbatim>\<open>NewByteArray\<close>, which
leaves an \<^verbatim>\<open>OutOfMemoryError\<close> pending when it fails.\<close>

definition get_array :: "jvm \<Rightarrow> jref \<Rightarrow> u8 list option jni" where
  "get_array env a s =
     (if vm_pin_array env a then (Some (vm_array env a), s\<lparr>js_pinned := a # js_pinned s\<rparr>) else (None, s))"

definition get_string :: "jvm \<Rightarrow> jref \<Rightarrow> u8 list option jni" where
  "get_string env a s =
     (if vm_pin_string env a then (Some (vm_utf_chars env a @ [0]), s\<lparr>js_pinned := a # js_pinned s\<rparr>) else (None, s))"

definition release :: "jref \<Rightarrow> jni_state \<Rightarrow> jni_state" where
  "release a s = s\<lparr>js_pinned := remove1 a (js_pinned s)\<rparr>"

definition return_bytes :: "jvm \<Rightarrow> u8 list \<Rightarrow> u8 list option jni" where
  "return_bytes env out s =
     (if vm_new_array env (length out) then (Some out, s) else (None, s\<lparr>js_pending := Some OutOfMemoryError\<rparr>))"

section \<open>The entry points\<close>

definition nativeBlake3Hash :: "jvm \<Rightarrow> blake3_hasher \<Rightarrow> jref option \<Rightarrow> u8 list option jni" where
  "nativeBlake3Hash env hasher input s =
    (case input of
       None \<Rightarrow> (None, throw_illegal_argument env ''input must not be null'' s)
     | Some input \<Rightarrow>
        (case get_array env input s of
           (None, s) \<Rightarrow> (None, throw_runtime env ''Failed to access input byte array'' s)
         | (Some input_bytes, s) \<Rightarrow>
            let hasher = blake3_hasher_init hasher;
                hasher = blake3_hasher_update hasher input_bytes;
                out = blake3_hasher_finalize hasher BLAKE3_OUT_LEN;
                s = release input s
            in return_bytes env out s))"

definition nativeBlake3KeyedHash :: "jvm \<Rightarrow> blake3_hasher \<Rightarrow> jref option \<Rightarrow> jref option \<Rightarrow> u8 list option jni" where
  "nativeBlake3KeyedHash env hasher key input s =
    (case key of
       None \<Rightarrow> (None, throw_illegal_argument env ''key must not be null'' s)
     | Some key \<Rightarrow>
    (case input of
       None \<Rightarrow> (None, throw_illegal_argument env ''input must not be null'' s)
     | Some input \<Rightarrow>
        if length (vm_array env key) \<noteq> BLAKE3_KEY_LEN
        then (None, throw_illegal_argument env ''key must be exactly 32 bytes'' s)
        else
        (case get_array env key s of
           (None, s) \<Rightarrow> (None, throw_runtime env ''Failed to access key byte array'' s)
         | (Some key_bytes, s) \<Rightarrow>
        (case get_array env input s of
           (None, s) \<Rightarrow> (None, throw_runtime env ''Failed to access input byte array'' (release key s))
         | (Some input_bytes, s) \<Rightarrow>
            let hasher = blake3_hasher_init_keyed hasher key_bytes;
                hasher = blake3_hasher_update hasher input_bytes;
                out = blake3_hasher_finalize hasher BLAKE3_OUT_LEN;
                s = release key s;
                s = release input s
            in return_bytes env out s))))"

definition nativeBlake3DeriveKey ::
  "jvm \<Rightarrow> blake3_hasher \<Rightarrow> jref option \<Rightarrow> jref option \<Rightarrow> u32 \<Rightarrow> u8 list option jni" where
  "nativeBlake3DeriveKey env hasher context input outLen s =
    (case context of
       None \<Rightarrow> (None, throw_illegal_argument env ''context must not be null'' s)
     | Some context \<Rightarrow>
    (case input of
       None \<Rightarrow> (None, throw_illegal_argument env ''input must not be null'' s)
     | Some input \<Rightarrow>
        if sint outLen \<le> 0 \<or> sint outLen > 64
        then (None, throw_illegal_argument env ''outLen must be 1..64'' s)
        else
        (case get_string env context s of
           (None, s) \<Rightarrow> (None, throw_runtime env ''Failed to access context string'' s)
         | (Some ctx_str, s) \<Rightarrow>
        (case get_array env input s of
           (None, s) \<Rightarrow> (None, throw_runtime env ''Failed to access input byte array'' (release context s))
         | (Some input_bytes, s) \<Rightarrow>
            let hasher = blake3_hasher_init_derive_key hasher ctx_str;
                hasher = blake3_hasher_update hasher input_bytes;
                out = blake3_hasher_finalize hasher (unat outLen);
                s = release context s;
                s = release input s
            in return_bytes env out s))))"

section \<open>Properties\<close>

lemma throw_pinned [simp]:
  "js_pinned (throw_illegal_argument env m s) = js_pinned s" "js_pinned (throw_runtime env m s) = js_pinned s"
  by (simp_all add: throw_illegal_argument_def throw_runtime_def)

lemma release_simps [simp]:
  "release a (s\<lparr>js_pinned := a # p\<rparr>) = s\<lparr>js_pinned := p\<rparr>"
  "js_pinned (release a s) = remove1 a (js_pinned s)" "js_pending (release a s) = js_pending s"
  by (simp_all add: release_def)

lemma return_bytes_pinned [simp]: "js_pinned (snd (return_bytes env out s)) = js_pinned s"
  by (simp add: return_bytes_def)

lemmas jni_simps = get_array_def get_string_def Let_def split_def

text \<open>
  C28. No native buffer is leaked: on every path of the three entry points, error paths included, the buffers pinned on
  return are those pinned on entry.\<close>

theorem blake3_jni_no_leak:
  "js_pinned (snd (nativeBlake3Hash env h input s)) = js_pinned s \<and>
   js_pinned (snd (nativeBlake3KeyedHash env h key input s)) = js_pinned s \<and>
   js_pinned (snd (nativeBlake3DeriveKey env h context input outLen s)) = js_pinned s"
  by (intro conjI)
    (auto simp: nativeBlake3Hash_def nativeBlake3KeyedHash_def nativeBlake3DeriveKey_def jni_simps split: option.splits)

text \<open>
  A native call returns \<^verbatim>\<open>NULL\<close> exactly when it leaves a Java exception pending (entered with none pending, and with
  the exception classes found): no failure is silent and no success leaves an exception.\<close>

theorem blake3_jni_null_iff_exception:
  assumes "js_pending s = None" "\<And>c. vm_find_class env c"
  shows "(fst (nativeBlake3Hash env h input s) = None \<longleftrightarrow> js_pending (snd (nativeBlake3Hash env h input s)) \<noteq> None) \<and>
    (fst (nativeBlake3KeyedHash env h key input s) = None \<longleftrightarrow>
       js_pending (snd (nativeBlake3KeyedHash env h key input s)) \<noteq> None) \<and>
    (fst (nativeBlake3DeriveKey env h context input outLen s) = None \<longleftrightarrow>
       js_pending (snd (nativeBlake3DeriveKey env h context input outLen s)) \<noteq> None)"
  using assms
  by (intro conjI)
    (auto simp: nativeBlake3Hash_def nativeBlake3KeyedHash_def nativeBlake3DeriveKey_def jni_simps return_bytes_def
      throw_illegal_argument_def throw_runtime_def split: option.splits)

text \<open>A virtual machine on which every call succeeds and every array holds the given bytes, for concrete runs.\<close>

definition sample_vm :: "u8 list \<Rightarrow> jvm" where
  "sample_vm bs = \<lparr>vm_find_class = (\<lambda>_. True), vm_array = (\<lambda>_. bs), vm_pin_array = (\<lambda>_. True),
     vm_utf_chars = (\<lambda>_. bs), vm_pin_string = (\<lambda>_. True), vm_new_array = (\<lambda>_. True)\<rparr>"

definition idle :: jni_state where "idle = \<lparr>js_pinned = [], js_pending = None\<rparr>"

theorem blake3_jni_null_iff_exception_witness:
  "(fst (nativeBlake3Hash (sample_vm [1]) zero_hasher None idle) = None \<longleftrightarrow>
     js_pending (snd (nativeBlake3Hash (sample_vm [1]) zero_hasher None idle)) \<noteq> None) \<and>
   js_pending (snd (nativeBlake3KeyedHash (sample_vm [1]) zero_hasher (Some 0) (Some 1) idle)) \<noteq> None"
  using blake3_jni_null_iff_exception [of idle "sample_vm [1]" zero_hasher None "Some 0"]
    blake3_jni_null_iff_exception [of idle "sample_vm [1]" zero_hasher "Some 1" "Some 0"]
  by (simp add: idle_def sample_vm_def nativeBlake3KeyedHash_def)

lemma sint_pos_unat: "0 < sint (w::u32) \<Longrightarrow> unat w = nat (sint w)"
  unfolding unat_eq_nat_uint by (simp add: uint_sint_nonneg)

lemma takeWhile_terminated: "0 \<notin> set bs \<Longrightarrow> takeWhile (\<lambda>b. b \<noteq> 0) (bs @ [0]) = bs"
  by (simp add: takeWhile_append)

text \<open>
  C29. Key derivation from Java: with an output length of 1 to 64 and all calls of the virtual machine succeeding, the
  returned array is that many bytes of the BLAKE3 derive-key output for the context string and the input, and no exception
  is raised. The virtual machine's documented behaviour that a modified UTF-8 string contains no zero byte is a hypothesis.\<close>

theorem nativeBlake3DeriveKey_correct:
  assumes "length (h_cv_stack h) = 1760" "vm_pin_string env ctx" "vm_pin_array env inp" "\<And>n. vm_new_array env n"
    and "0 \<notin> set (vm_utf_chars env ctx)" "length (vm_utf_chars env ctx) < 2 ^ 31" "length (vm_array env inp) < 2 ^ 31"
    and "0 < sint outLen" "sint outLen \<le> 64"
  shows "nativeBlake3DeriveKey env h (Some ctx) (Some inp) outLen s =
    (Some (blake3_xof (load_key_words (blake3_xof IV DERIVE_KEY_CONTEXT (vm_utf_chars env ctx) (0, 32)))
       DERIVE_KEY_MATERIAL (vm_array env inp) (0, nat (sint outLen))), s)"
proof -
  have "length (vm_utf_chars env ctx) < 2 ^ 64" "length (concat [vm_array env inp]) < 2 ^ 64" using assms(6,7) by simp_all
  note d = derive_key_context [OF assms(1) this(1)] fin_from_init [OF assms(1) this(2)]
  have "blake3_hasher_finalize (blake3_hasher_update (blake3_hasher_init_derive_key h (vm_utf_chars env ctx @ [0]))
      (vm_array env inp)) (unat outLen) =
     blake3_xof (load_key_words (blake3_xof IV DERIVE_KEY_CONTEXT (vm_utf_chars env ctx) (0, 32)))
       DERIVE_KEY_MATERIAL (vm_array env inp) (0, nat (sint outLen))"
    using d(2) assms(8) unfolding blake3_hasher_init_derive_key_def takeWhile_terminated [OF assms(5)] d(1)
    by (simp add: blake3_hasher_finalize_def sint_pos_unat)
  then show ?thesis
    using assms by (simp add: nativeBlake3DeriveKey_def jni_simps return_bytes_def release_def)
qed

theorem nativeBlake3DeriveKey_correct_witness:
  "nativeBlake3DeriveKey (sample_vm [65, 66]) zero_hasher (Some 0) (Some 1) 32 idle =
   (Some (blake3_xof (load_key_words (blake3_xof IV DERIVE_KEY_CONTEXT [65, 66] (0, 32))) DERIVE_KEY_MATERIAL [65, 66] (0, 32)),
    idle)"
  using nativeBlake3DeriveKey_correct [of zero_hasher "sample_vm [65, 66]" 0 1 32 idle] by (simp add: sample_vm_def)

text \<open>
  C30. Plain and keyed hashing from Java: the returned array is the 32-byte BLAKE3 hash, and a key of any length other than
  32 is refused with an exception before anything is read.\<close>

theorem nativeBlake3Hash_correct:
  assumes "length (h_cv_stack h) = 1760" "vm_pin_array env key" "vm_pin_array env inp" "\<And>n. vm_new_array env n"
    and "length (vm_array env inp) < 2 ^ 31"
  shows "nativeBlake3Hash env h (Some inp) s = (Some (blake3_xof IV 0 (vm_array env inp) (0, 32)), s) \<and>
    nativeBlake3KeyedHash env h (Some key) (Some inp) s =
      (if length (vm_array env key) = 32
       then (Some (blake3_xof (load_key_words (vm_array env key)) KEYED_HASH (vm_array env inp) (0, 32)), s)
       else (None, throw_illegal_argument env ''key must be exactly 32 bytes'' s))"
proof -
  have "length (concat [vm_array env inp]) < 2 ^ 64" using assms(5) by simp
  note d = fin_from_init [OF assms(1) this]
  have "blake3_hasher_finalize (blake3_hasher_update (hasher_init_base h k fl) (vm_array env inp)) 32 =
     blake3_xof k fl (vm_array env inp) (0, 32)" for k fl
    using d by (simp add: blake3_hasher_finalize_def)
  then show ?thesis
    using assms by (simp add: nativeBlake3Hash_def nativeBlake3KeyedHash_def blake3_hasher_init_def
        blake3_hasher_init_keyed_def jni_simps return_bytes_def release_def)
qed

theorem nativeBlake3Hash_correct_witness:
  "nativeBlake3Hash (sample_vm (replicate 32 7)) zero_hasher (Some 0) idle =
     (Some (blake3_xof IV 0 (replicate 32 7) (0, 32)), idle) \<and>
   nativeBlake3KeyedHash (sample_vm (replicate 32 7)) zero_hasher (Some 1) (Some 0) idle =
     (Some (blake3_xof (load_key_words (replicate 32 7)) KEYED_HASH (replicate 32 7) (0, 32)), idle)"
  using nativeBlake3Hash_correct [of zero_hasher "sample_vm (replicate 32 7)" 1 0 idle] by (simp add: sample_vm_def)

end
