(* ===== verification/TLS_KDF.thy ===== *)
theory TLS_KDF
  imports Prelude "HOL-Library.Monad_Syntax"
begin

text \<open>
  The TLS 1.3 key schedule of \<^verbatim>\<open>blake3/CTLSKeyDerivation.c\<close>. CommonCrypto is a parameter: the record \<open>cc\<close> holds its one-shot
  and incremental HMAC and its two digests, and \<open>common_crypto\<close> states what its documentation promises (an incremental HMAC
  is the HMAC of the concatenated updates, and the lengths of the results). An out-parameter is a result; the loop of
  HKDF-Expand is a partial function, whose value is \<open>None\<close> if it does not end. The specification is RFC 5869 and RFC 8446.
\<close>

section \<open>CommonCrypto\<close>

datatype CCHmacAlgorithm = kCCHmacAlgSHA256 | kCCHmacAlgSHA384

record 'ctx cc =
  CCHmac :: "CCHmacAlgorithm \<Rightarrow> u8 list \<Rightarrow> u8 list \<Rightarrow> u8 list"
  CCHmacInit :: "CCHmacAlgorithm \<Rightarrow> u8 list \<Rightarrow> 'ctx"
  CCHmacUpdate :: "'ctx \<Rightarrow> u8 list \<Rightarrow> 'ctx"
  CCHmacFinal :: "'ctx \<Rightarrow> u8 list"
  CC_SHA256 :: "u8 list \<Rightarrow> u8 list"
  CC_SHA384 :: "u8 list \<Rightarrow> u8 list"

fun alg_len :: "CCHmacAlgorithm \<Rightarrow> nat" where
  "alg_len kCCHmacAlgSHA256 = 32"
| "alg_len kCCHmacAlgSHA384 = 48"

definition common_crypto :: "'ctx cc \<Rightarrow> bool" where
  "common_crypto lib \<longleftrightarrow>
     (\<forall>alg key ds. CCHmacFinal lib (foldl (CCHmacUpdate lib) (CCHmacInit lib alg key) ds) = CCHmac lib alg key (concat ds)) \<and>
     (\<forall>alg key d. length (CCHmac lib alg key d) = alg_len alg) \<and>
     (\<forall>d. length (CC_SHA256 lib d) = 32) \<and> (\<forall>d. length (CC_SHA384 lib d) = 48)"

section \<open>Internal helpers\<close>

abbreviation (input) TLS_AES_128_GCM_SHA256 :: u16 where "TLS_AES_128_GCM_SHA256 \<equiv> 0x1301"
abbreviation (input) TLS_AES_256_GCM_SHA384 :: u16 where "TLS_AES_256_GCM_SHA384 \<equiv> 0x1302"
abbreviation (input) TLS_CHACHA20_POLY1305_SHA256 :: u16 where "TLS_CHACHA20_POLY1305_SHA256 \<equiv> 0x1303"

definition get_suite_params :: "u16 \<Rightarrow> CCHmacAlgorithm \<times> nat \<times> nat" where
  "get_suite_params cs =
    (if cs = TLS_AES_256_GCM_SHA384 then (kCCHmacAlgSHA384, 48, 32)
     else (kCCHmacAlgSHA256, 32, if cs = TLS_CHACHA20_POLY1305_SHA256 then 32 else 16))"

text \<open>The length argument of the digests is a 32-bit \<^verbatim>\<open>CC_LONG\<close>.\<close>

definition sha_hash :: "'ctx cc \<Rightarrow> u16 \<Rightarrow> u8 list \<Rightarrow> u8 list" where
  "sha_hash lib cs data =
    (let n = length data mod 2 ^ 32
     in if cs = TLS_AES_256_GCM_SHA384 then CC_SHA384 lib (take n data) else CC_SHA256 lib (take n data))"

definition hkdf_extract :: "'ctx cc \<Rightarrow> CCHmacAlgorithm \<Rightarrow> nat \<Rightarrow> u8 list \<Rightarrow> u8 list \<Rightarrow> u8 list" where
  "hkdf_extract lib alg hash_len salt ikm =
    (if length salt = 0 then CCHmac lib alg (take hash_len (replicate 48 0)) ikm else CCHmac lib alg salt ikm)"

partial_function (option) hkdf_expand_loop ::
  "'ctx cc \<Rightarrow> CCHmacAlgorithm \<Rightarrow> nat \<Rightarrow> u8 list \<Rightarrow> u8 list \<Rightarrow> nat \<Rightarrow> u8 list \<Rightarrow> nat \<Rightarrow> nat \<Rightarrow> u8 \<Rightarrow> u8 list \<Rightarrow> u8 list option"
where
  "hkdf_expand_loop lib alg hash_len prk info len t t_len offset counter out =
    (if offset < len then
       let ctx = CCHmacInit lib alg prk;
           ctx = (if t_len > 0 then CCHmacUpdate lib ctx (take t_len t) else ctx);
           ctx = CCHmacUpdate lib ctx info;
           ctx = CCHmacUpdate lib ctx [counter];
           t = CCHmacFinal lib ctx;
           t_len = hash_len;
           to_copy = (if offset + hash_len > len then len - offset else hash_len);
           out = blit out offset (take to_copy t)
       in hkdf_expand_loop lib alg hash_len prk info len t t_len (offset + to_copy) (counter + 1) out
     else Some out)"

definition hkdf_expand :: "'ctx cc \<Rightarrow> CCHmacAlgorithm \<Rightarrow> nat \<Rightarrow> u8 list \<Rightarrow> u8 list \<Rightarrow> nat \<Rightarrow> u8 list option" where
  "hkdf_expand lib alg hash_len prk info len = hkdf_expand_loop lib alg hash_len prk info len [] 0 0 1 []"

text \<open>The 256-byte buffer and the number of bytes written into it. A write past the end would lengthen the buffer.\<close>

definition expand_label_info :: "u8 list \<Rightarrow> u8 list \<Rightarrow> nat \<Rightarrow> u8 list \<times> nat" where
  "expand_label_info label context len =
    (let info = replicate 256 0; info_len = 0;
         label_len = length label;
         full_label_len = 6 + label_len;
         info = blit info info_len [of_nat (len div 256)]; info_len = info_len + 1;
         info = blit info info_len [of_nat (len mod 256)]; info_len = info_len + 1;
         info = blit info info_len [of_nat full_label_len]; info_len = info_len + 1;
         info = blit info info_len [0x74, 0x6c, 0x73, 0x31, 0x33, 0x20]; info_len = info_len + 6;
         info = blit info info_len label; info_len = info_len + label_len;
         info = blit info info_len [of_nat (length context)]; info_len = info_len + 1
     in if length context > 0 then (blit info info_len context, info_len + length context) else (info, info_len))"

definition hkdf_expand_label ::
  "'ctx cc \<Rightarrow> CCHmacAlgorithm \<Rightarrow> nat \<Rightarrow> u8 list \<Rightarrow> u8 list \<Rightarrow> u8 list \<Rightarrow> nat \<Rightarrow> u8 list option" where
  "hkdf_expand_label lib alg hash_len secret label context len =
    (let (info, info_len) = expand_label_info label context len
     in hkdf_expand lib alg hash_len secret (take info_len info) len)"

definition derive_secret ::
  "'ctx cc \<Rightarrow> u16 \<Rightarrow> CCHmacAlgorithm \<Rightarrow> nat \<Rightarrow> u8 list \<Rightarrow> u8 list \<Rightarrow> u8 list \<Rightarrow> u8 list option" where
  "derive_secret lib cs alg hash_len secret label messages =
    (let hash = sha_hash lib cs messages
     in hkdf_expand_label lib alg hash_len secret label (take hash_len hash) hash_len)"

section \<open>Public interface\<close>

text \<open>The bytes of a C string literal.\<close>

definition cstr :: "string \<Rightarrow> u8 list" where
  "cstr s = map (\<lambda>c. of_nat (of_char c)) s"

record handshake_keys =
  hk_hs_secret :: "u8 list"
  hk_client_key :: "u8 list"
  hk_client_iv :: "u8 list"
  hk_server_key :: "u8 list"
  hk_server_iv :: "u8 list"
  hk_client_traffic_secret :: "u8 list"
  hk_server_traffic_secret :: "u8 list"

definition tls13_derive_handshake_keys :: "'ctx cc \<Rightarrow> u16 \<Rightarrow> u8 list \<Rightarrow> u8 list \<Rightarrow> handshake_keys option" where
  "tls13_derive_handshake_keys lib cipher_suite shared_secret transcript =
    (let (alg, hash_len, key_len) = get_suite_params cipher_suite;
         early_secret = hkdf_extract lib alg hash_len [] (take hash_len (replicate 48 0))
     in do {
       derived_early \<leftarrow> derive_secret lib cipher_suite alg hash_len early_secret (cstr ''derived'') [];
       let hs_secret = hkdf_extract lib alg hash_len derived_early shared_secret;
       client_traffic \<leftarrow> derive_secret lib cipher_suite alg hash_len hs_secret (cstr ''c hs traffic'') transcript;
       client_key \<leftarrow> hkdf_expand_label lib alg hash_len client_traffic (cstr ''key'') [] key_len;
       client_iv \<leftarrow> hkdf_expand_label lib alg hash_len client_traffic (cstr ''iv'') [] 12;
       server_traffic \<leftarrow> derive_secret lib cipher_suite alg hash_len hs_secret (cstr ''s hs traffic'') transcript;
       server_key \<leftarrow> hkdf_expand_label lib alg hash_len server_traffic (cstr ''key'') [] key_len;
       server_iv \<leftarrow> hkdf_expand_label lib alg hash_len server_traffic (cstr ''iv'') [] 12;
       Some \<lparr>hk_hs_secret = hs_secret, hk_client_key = client_key, hk_client_iv = client_iv,
             hk_server_key = server_key, hk_server_iv = server_iv,
             hk_client_traffic_secret = client_traffic, hk_server_traffic_secret = server_traffic\<rparr>
     })"

record application_keys =
  ak_client_key :: "u8 list"
  ak_client_iv :: "u8 list"
  ak_server_key :: "u8 list"
  ak_server_iv :: "u8 list"

definition tls13_derive_application_keys :: "'ctx cc \<Rightarrow> u16 \<Rightarrow> u8 list \<Rightarrow> u8 list \<Rightarrow> application_keys option" where
  "tls13_derive_application_keys lib cipher_suite hs_secret transcript =
    (let (alg, hash_len, key_len) = get_suite_params cipher_suite
     in do {
       derived_hs \<leftarrow> derive_secret lib cipher_suite alg hash_len hs_secret (cstr ''derived'') [];
       let master_secret = hkdf_extract lib alg hash_len derived_hs (take hash_len (replicate 48 0));
       client_ats \<leftarrow> derive_secret lib cipher_suite alg hash_len master_secret (cstr ''c ap traffic'') transcript;
       client_key \<leftarrow> hkdf_expand_label lib alg hash_len client_ats (cstr ''key'') [] key_len;
       client_iv \<leftarrow> hkdf_expand_label lib alg hash_len client_ats (cstr ''iv'') [] 12;
       server_ats \<leftarrow> derive_secret lib cipher_suite alg hash_len master_secret (cstr ''s ap traffic'') transcript;
       server_key \<leftarrow> hkdf_expand_label lib alg hash_len server_ats (cstr ''key'') [] key_len;
       server_iv \<leftarrow> hkdf_expand_label lib alg hash_len server_ats (cstr ''iv'') [] 12;
       Some \<lparr>ak_client_key = client_key, ak_client_iv = client_iv, ak_server_key = server_key, ak_server_iv = server_iv\<rparr>
     })"

definition tls13_compute_finished :: "'ctx cc \<Rightarrow> u16 \<Rightarrow> u8 list \<Rightarrow> u8 list \<Rightarrow> u8 list option" where
  "tls13_compute_finished lib cipher_suite client_traffic_secret transcript =
    (let (alg, hash_len, key_len) = get_suite_params cipher_suite
     in do {
       finished_key \<leftarrow> hkdf_expand_label lib alg hash_len client_traffic_secret (cstr ''finished'') [] hash_len;
       let th = sha_hash lib cipher_suite transcript;
       Some (CCHmac lib alg (take hash_len finished_key) (take hash_len th))
     })"

definition tls13_transcript_hash :: "'ctx cc \<Rightarrow> u16 \<Rightarrow> u8 list \<Rightarrow> u8 list" where
  "tls13_transcript_hash lib cipher_suite messages = sha_hash lib cipher_suite messages"

section \<open>The specification: RFC 5869 and RFC 8446, section 7.1\<close>

text \<open>\<open>hmac\<close> is HMAC under the fixed key of the expansion. \<open>T(i)\<close> of RFC 5869, the output keying material, and the structure
\<^verbatim>\<open>HkdfLabel\<close> of RFC 8446.\<close>

primrec rfc_T :: "(u8 list \<Rightarrow> u8 list) \<Rightarrow> u8 list \<Rightarrow> nat \<Rightarrow> u8 list" where
  "rfc_T hmac info 0 = []"
| "rfc_T hmac info (Suc i) = hmac (rfc_T hmac info i @ info @ [of_nat (Suc i)])"

primrec rfc_okm :: "(u8 list \<Rightarrow> u8 list) \<Rightarrow> u8 list \<Rightarrow> nat \<Rightarrow> u8 list" where
  "rfc_okm hmac info 0 = []"
| "rfc_okm hmac info (Suc n) = rfc_okm hmac info n @ rfc_T hmac info (Suc n)"

definition rfc_blocks :: "nat \<Rightarrow> nat \<Rightarrow> nat" where
  "rfc_blocks hl L = (L + hl - 1) div hl"

definition rfc_expand :: "nat \<Rightarrow> (u8 list \<Rightarrow> u8 list) \<Rightarrow> u8 list \<Rightarrow> nat \<Rightarrow> u8 list" where
  "rfc_expand hl hmac info L = take L (rfc_okm hmac info (rfc_blocks hl L))"

definition rfc_label :: "u8 list \<Rightarrow> u8 list \<Rightarrow> nat \<Rightarrow> u8 list" where
  "rfc_label label context L =
     [of_nat (L div 256), of_nat (L mod 256)] @ [of_nat (6 + length label)] @ cstr ''tls13 '' @ label @
     [of_nat (length context)] @ context"

definition suite_alg :: "u16 \<Rightarrow> CCHmacAlgorithm" where
  "suite_alg cs = (if cs = TLS_AES_256_GCM_SHA384 then kCCHmacAlgSHA384 else kCCHmacAlgSHA256)"

definition suite_hash :: "'ctx cc \<Rightarrow> u16 \<Rightarrow> u8 list \<Rightarrow> u8 list" where
  "suite_hash lib cs = (if cs = TLS_AES_256_GCM_SHA384 then CC_SHA384 lib else CC_SHA256 lib)"

definition suite_key_len :: "u16 \<Rightarrow> nat" where
  "suite_key_len cs = (if cs = TLS_AES_256_GCM_SHA384 \<or> cs = TLS_CHACHA20_POLY1305_SHA256 then 32 else 16)"

abbreviation suite_len :: "u16 \<Rightarrow> nat" where
  "suite_len cs \<equiv> alg_len (suite_alg cs)"

definition rfc_expand_label :: "'ctx cc \<Rightarrow> u16 \<Rightarrow> u8 list \<Rightarrow> u8 list \<Rightarrow> u8 list \<Rightarrow> nat \<Rightarrow> u8 list" where
  "rfc_expand_label lib cs secret label context L =
     rfc_expand (suite_len cs) (CCHmac lib (suite_alg cs) secret) (rfc_label label context L) L"

definition rfc_derive_secret :: "'ctx cc \<Rightarrow> u16 \<Rightarrow> u8 list \<Rightarrow> u8 list \<Rightarrow> u8 list \<Rightarrow> u8 list" where
  "rfc_derive_secret lib cs secret label messages =
     rfc_expand_label lib cs secret label (suite_hash lib cs messages) (suite_len cs)"

definition rfc_handshake_keys :: "'ctx cc \<Rightarrow> u16 \<Rightarrow> u8 list \<Rightarrow> u8 list \<Rightarrow> handshake_keys" where
  "rfc_handshake_keys lib cs ecdhe transcript =
    (let extract = CCHmac lib (suite_alg cs);
         zeros = replicate (suite_len cs) 0;
         early = extract zeros zeros;
         hs = extract (rfc_derive_secret lib cs early (cstr ''derived'') []) ecdhe;
         c = rfc_derive_secret lib cs hs (cstr ''c hs traffic'') transcript;
         s = rfc_derive_secret lib cs hs (cstr ''s hs traffic'') transcript;
         key = (\<lambda>secret. rfc_expand_label lib cs secret (cstr ''key'') [] (suite_key_len cs));
         iv = (\<lambda>secret. rfc_expand_label lib cs secret (cstr ''iv'') [] 12)
     in \<lparr>hk_hs_secret = hs, hk_client_key = key c, hk_client_iv = iv c, hk_server_key = key s, hk_server_iv = iv s,
         hk_client_traffic_secret = c, hk_server_traffic_secret = s\<rparr>)"

definition rfc_application_keys :: "'ctx cc \<Rightarrow> u16 \<Rightarrow> u8 list \<Rightarrow> u8 list \<Rightarrow> application_keys" where
  "rfc_application_keys lib cs hs transcript =
    (let master = CCHmac lib (suite_alg cs) (rfc_derive_secret lib cs hs (cstr ''derived'') []) (replicate (suite_len cs) 0);
         c = rfc_derive_secret lib cs master (cstr ''c ap traffic'') transcript;
         s = rfc_derive_secret lib cs master (cstr ''s ap traffic'') transcript;
         key = (\<lambda>secret. rfc_expand_label lib cs secret (cstr ''key'') [] (suite_key_len cs));
         iv = (\<lambda>secret. rfc_expand_label lib cs secret (cstr ''iv'') [] 12)
     in \<lparr>ak_client_key = key c, ak_client_iv = iv c, ak_server_key = key s, ak_server_iv = iv s\<rparr>)"

section \<open>HKDF-Expand\<close>

lemma alg_len_pos [simp]: "0 < alg_len alg" "alg_len alg \<le> 48"
  by (cases alg; simp)+

lemma common_crypto_hmac:
  assumes "common_crypto lib"
  shows "length (CCHmac lib alg key d) = alg_len alg"
    and "CCHmacFinal lib (CCHmacUpdate lib (CCHmacUpdate lib (CCHmacInit lib alg key) a) b) = CCHmac lib alg key (a @ b)"
    and "CCHmacFinal lib (CCHmacUpdate lib (CCHmacUpdate lib (CCHmacUpdate lib (CCHmacInit lib alg key) a) b) c) =
      CCHmac lib alg key (a @ b @ c)"
proof -
  have inc: "CCHmacFinal lib (foldl (CCHmacUpdate lib) (CCHmacInit lib alg key) ds) = CCHmac lib alg key (concat ds)" for ds
    using assms by (simp add: common_crypto_def)
  show "length (CCHmac lib alg key d) = alg_len alg" using assms by (simp add: common_crypto_def)
  show "CCHmacFinal lib (CCHmacUpdate lib (CCHmacUpdate lib (CCHmacInit lib alg key) a) b) = CCHmac lib alg key (a @ b)"
    using inc [of "[a, b]"] by simp
  show "CCHmacFinal lib (CCHmacUpdate lib (CCHmacUpdate lib (CCHmacUpdate lib (CCHmacInit lib alg key) a) b) c) =
      CCHmac lib alg key (a @ b @ c)"
    using inc [of "[a, b, c]"] by simp
qed

lemma blocks_bounds: "0 < hl \<Longrightarrow> L \<le> rfc_blocks hl L * hl \<and> rfc_blocks hl L * hl < L + hl"
  using div_mult_mod_eq [of "L + hl - 1" hl] mod_less_divisor [of hl "L + hl - 1"]
  unfolding rfc_blocks_def by linarith

lemma length_concat_T:
  assumes "\<And>d. length (hmac d) = hl"
  shows "length (rfc_okm hmac info n) = n * hl"
  by (induction n) (simp_all add: assms)

lemma expand_loop_step:
  assumes "common_crypto lib" "i * alg_len alg < L"
  shows "hkdf_expand_loop lib alg (alg_len alg) prk info L (rfc_T (CCHmac lib alg prk) info i) (if i = 0 then 0 else alg_len alg)
      (i * alg_len alg) (of_nat (Suc i)) (rfc_okm (CCHmac lib alg prk) info i) =
    (let to_copy = (if i * alg_len alg + alg_len alg > L then L - i * alg_len alg else alg_len alg)
     in hkdf_expand_loop lib alg (alg_len alg) prk info L (rfc_T (CCHmac lib alg prk) info (Suc i)) (alg_len alg)
      (i * alg_len alg + to_copy) (of_nat (Suc (Suc i)))
      (rfc_okm (CCHmac lib alg prk) info i @ take to_copy (rfc_T (CCHmac lib alg prk) info (Suc i))))"
proof -
  have l: "length (rfc_okm (CCHmac lib alg prk) info i) = i * alg_len alg"
    by (rule length_concat_T) (simp add: common_crypto_hmac [OF assms(1)])
  have b: "blit (rfc_okm (CCHmac lib alg prk) info i) (i * alg_len alg) xs =
      rfc_okm (CCHmac lib alg prk) info i @ xs" for xs
    using l by (simp add: blit_def)
  have t: "i \<noteq> 0 \<Longrightarrow> length (rfc_T (CCHmac lib alg prk) info i) = alg_len alg"
    by (cases i) (simp_all add: common_crypto_hmac [OF assms(1)])
  show ?thesis
    using assms(2) t b by (subst hkdf_expand_loop.simps)
      (cases "i = 0"; simp add: common_crypto_hmac [OF assms(1)] Let_def add.commute)
qed

lemma expand_loop_correct:
  assumes "common_crypto lib" "i * alg_len alg \<le> L"
  shows "hkdf_expand_loop lib alg (alg_len alg) prk info L (rfc_T (CCHmac lib alg prk) info i) (if i = 0 then 0 else alg_len alg)
      (i * alg_len alg) (of_nat (Suc i)) (rfc_okm (CCHmac lib alg prk) info i) =
    Some (rfc_expand (alg_len alg) (CCHmac lib alg prk) info L)"
  using assms(2)
proof (induction "rfc_blocks (alg_len alg) L - i" arbitrary: i)
  case 0
  have "rfc_blocks (alg_len alg) L * alg_len alg \<le> i * alg_len alg" using 0(1) by (intro mult_le_mono1) simp
  then have e: "i * alg_len alg = L" "i * alg_len alg = rfc_blocks (alg_len alg) L * alg_len alg"
    using 0(2) blocks_bounds [OF alg_len_pos(1), of L alg] by linarith+
  have i: "i = rfc_blocks (alg_len alg) L" using e(2) alg_len_pos(1) [of alg] mult_cancel2 by (metis less_irrefl)
  have "length (rfc_okm (CCHmac lib alg prk) info i) = L"
    unfolding e(1) [symmetric] by (rule length_concat_T) (simp add: common_crypto_hmac [OF assms(1)])
  then show ?case using e(1) by (subst hkdf_expand_loop.simps) (simp add: rfc_expand_def i [symmetric])
next
  case (Suc x)
  let ?T = "rfc_T (CCHmac lib alg prk) info" and ?h = "alg_len alg" and ?O = "rfc_okm (CCHmac lib alg prk) info"
  have lc: "length (?O i) = i * ?h"
    by (rule length_concat_T) (simp add: common_crypto_hmac [OF assms(1)])
  have lT: "length (?T (Suc i)) = ?h" by (simp add: common_crypto_hmac [OF assms(1)])
  have "i < rfc_blocks ?h L" using Suc.hyps(2) by simp
  then have "Suc i * ?h \<le> rfc_blocks ?h L * ?h" by (intro mult_le_mono1) simp
  then have lt: "i * ?h < L" using blocks_bounds [OF alg_len_pos(1), of L alg] by simp
  note step = expand_loop_step [OF assms(1) lt, of prk info]
  show ?case
  proof (cases "Suc i * ?h > L")
    case True
    have "rfc_blocks ?h L * ?h < Suc (Suc i) * ?h" using True blocks_bounds [OF alg_len_pos(1), of L alg] by simp
    then have "rfc_blocks ?h L < Suc (Suc i)" using mult_less_cancel2 by blast
    then have "rfc_blocks ?h L = Suc i" using \<open>i < rfc_blocks ?h L\<close> by simp
    then have "rfc_expand ?h (CCHmac lib alg prk) info L = take L (?O i @ ?T (Suc i))"
      unfolding rfc_expand_def by simp
    also have "\<dots> = ?O i @ take (L - i * ?h) (?T (Suc i))"
      using lc lt by simp
    finally show ?thesis
      unfolding step using True lt by (subst hkdf_expand_loop.simps) (simp add: Let_def)
  next
    case False
    have "x = rfc_blocks ?h L - Suc i" using Suc.hyps(2) by simp
    from Suc.hyps(1) [OF this] False
    show ?thesis unfolding step using lT False
      by (simp add: Let_def add.commute)
  qed
qed

lemma hkdf_expand_rfc:
  "common_crypto lib \<Longrightarrow>
   hkdf_expand lib alg (alg_len alg) prk info L = Some (rfc_expand (alg_len alg) (CCHmac lib alg prk) info L)"
  using expand_loop_correct [of lib 0 alg L prk info] by (simp add: hkdf_expand_def)


section \<open>HKDF-Expand-Label\<close>

text \<open>Sequential writes into a buffer: the bytes written so far are the concatenation of the pieces.\<close>

definition emit :: "u8 list \<times> nat \<Rightarrow> u8 list \<Rightarrow> u8 list \<times> nat" where
  "emit p bs = (blit (fst p) (snd p) bs, snd p + length bs)"

lemma emits:
  "n + length (concat xs) \<le> length buf \<Longrightarrow> take n buf = pre \<Longrightarrow>
   (case foldl emit (buf, n) xs of (b, m) \<Rightarrow> length b = length buf \<and> m = n + length (concat xs) \<and> take m b = pre @ concat xs)"
proof (induction xs arbitrary: buf n pre)
  case (Cons x xs)
  have l: "length (blit buf n x) = length buf" and t: "take (n + length x) (blit buf n x) = pre @ x"
    using Cons.prems by (simp_all add: take_blit)
  have "n + length x + length (concat xs) \<le> length (blit buf n x)" using Cons.prems(1) l by simp
  from Cons.IH [OF this t] show ?case using l by (simp add: emit_def add.assoc)
qed simp

definition label_pieces :: "u8 list \<Rightarrow> u8 list \<Rightarrow> nat \<Rightarrow> u8 list list" where
  "label_pieces label context len =
     [[of_nat (len div 256)], [of_nat (len mod 256)], [of_nat (6 + length label)], cstr ''tls13 '', label,
      [of_nat (length context)], context]"

lemma concat_label_pieces: "concat (label_pieces label context len) = rfc_label label context len"
  by (simp add: label_pieces_def rfc_label_def)

lemma expand_label_info_emit:
  "expand_label_info label context len = foldl emit (replicate 256 0, 0) (label_pieces label context len)"
proof -
  have n: "Suc (Suc (Suc (Suc (Suc (Suc (Suc (Suc (Suc k)))))))) = 9 + k" "Suc (9 + k) = 10 + k" for k by simp_all
  show ?thesis
    by (cases "context = []")
      (simp_all add: expand_label_info_def label_pieces_def emit_def Let_def cstr_def blit_def [of _ _ "[]"] n)
qed

lemma length_rfc_label: "length (rfc_label label context len) = 10 + length label + length context"
  by (simp add: rfc_label_def cstr_def)

lemma expand_label_info_rfc:
  assumes "length label + length context \<le> 246"
  shows "length (fst (expand_label_info label context len)) = 256"
    and "take (snd (expand_label_info label context len)) (fst (expand_label_info label context len)) =
      rfc_label label context len"
proof -
  have "0 + length (concat (label_pieces label context len)) \<le> length (replicate 256 (0::u8))"
    using assms by (simp add: concat_label_pieces length_rfc_label)
  from emits [OF this refl]
  show "length (fst (expand_label_info label context len)) = 256"
    "take (snd (expand_label_info label context len)) (fst (expand_label_info label context len)) = rfc_label label context len"
    unfolding expand_label_info_emit concat_label_pieces by (auto simp: split_def)
qed

lemma suite_params: "get_suite_params cs = (suite_alg cs, suite_len cs, suite_key_len cs)"
  by (simp add: get_suite_params_def suite_alg_def suite_key_len_def)

lemma expand_label_rfc:
  assumes "common_crypto lib" "length label + length context \<le> 246"
  shows "hkdf_expand_label lib (suite_alg cs) (suite_len cs) secret label context L =
    Some (rfc_expand_label lib cs secret label context L)"
  using assms by (simp add: hkdf_expand_label_def split_def expand_label_info_rfc hkdf_expand_rfc rfc_expand_label_def)

lemma length_suite_hash: "common_crypto lib \<Longrightarrow> length (suite_hash lib cs d) = suite_len cs"
  by (simp add: common_crypto_def suite_hash_def suite_alg_def)

lemma sha_hash_suite: "length d < 2 ^ 32 \<Longrightarrow> sha_hash lib cs d = suite_hash lib cs d"
  by (simp add: sha_hash_def suite_hash_def)

lemma derive_secret_rfc:
  assumes "common_crypto lib" "length label \<le> 198" "length messages < 2 ^ 32"
  shows "derive_secret lib cs (suite_alg cs) (suite_len cs) secret label messages =
    Some (rfc_derive_secret lib cs secret label messages)"
proof -
  have "length label + length (suite_hash lib cs messages) \<le> 246"
    unfolding length_suite_hash [OF assms(1)] using assms(2) alg_len_pos(2) [of "suite_alg cs"] by linarith
  from expand_label_rfc [OF assms(1) this] show ?thesis
    unfolding derive_secret_def Let_def sha_hash_suite [OF assms(3)]
    using assms(1) by (simp add: length_suite_hash rfc_derive_secret_def)
qed

lemma length_rfc_expand_label:
  assumes "common_crypto lib"
  shows "length (rfc_expand_label lib cs secret label context L) = L"
proof -
  have "length (rfc_okm (CCHmac lib (suite_alg cs) secret) info n) = n * suite_len cs" for info n
    by (rule length_concat_T) (simp add: common_crypto_hmac [OF assms])
  then show ?thesis
    using blocks_bounds [OF alg_len_pos(1), of L "suite_alg cs"] by (simp add: rfc_expand_label_def rfc_expand_def)
qed

lemma length_rfc_derive_secret:
  "common_crypto lib \<Longrightarrow> length (rfc_derive_secret lib cs secret label messages) = suite_len cs"
  by (simp add: rfc_derive_secret_def length_rfc_expand_label)

lemma zeros_48: "take (suite_len cs) (replicate 48 0) = replicate (suite_len cs) (0::u8)"
  using alg_len_pos(2) [of "suite_alg cs"] by (simp add: min_def)

lemma extract_nonempty: "salt \<noteq> [] \<Longrightarrow> hkdf_extract lib alg hl salt ikm = CCHmac lib alg salt ikm"
  by (simp add: hkdf_extract_def)

lemma extract_derived:
  "common_crypto lib \<Longrightarrow> hkdf_extract lib alg hl (rfc_derive_secret lib cs secret label messages) ikm =
     CCHmac lib alg (rfc_derive_secret lib cs secret label messages) ikm"
  by (intro extract_nonempty) (metis alg_len_pos(1) length_rfc_derive_secret less_irrefl list.size(3))

lemma extract_empty: "hkdf_extract lib (suite_alg cs) (suite_len cs) [] ikm =
    CCHmac lib (suite_alg cs) (replicate (suite_len cs) 0) ikm"
  by (simp add: hkdf_extract_def zeros_48)

lemma length_cstr [simp]: "length (cstr s) = length s"
  by (simp add: cstr_def)

section \<open>Properties\<close>


text \<open>A concrete library: the context is the data so far, and a result is the input padded to the digest length.\<close>

definition pad_to :: "nat \<Rightarrow> u8 list \<Rightarrow> u8 list" where
  "pad_to n d = take n (rev d @ replicate n 0)"

definition sample_cc :: "(CCHmacAlgorithm \<times> u8 list) cc" where
  "sample_cc = \<lparr>CCHmac = (\<lambda>alg key d. pad_to (alg_len alg) (key @ d)), CCHmacInit = (\<lambda>alg key. (alg, key)),
     CCHmacUpdate = (\<lambda>(alg, acc) d. (alg, acc @ d)), CCHmacFinal = (\<lambda>(alg, acc). pad_to (alg_len alg) acc),
     CC_SHA256 = pad_to 32, CC_SHA384 = pad_to 48\<rparr>"

lemma length_pad_to [simp]: "length (pad_to n d) = n"
  by (simp add: pad_to_def)

lemma sample_cc_ok: "common_crypto sample_cc"
proof -
  have "foldl (\<lambda>(alg, acc) d. (alg, acc @ d)) (a, k) ds = (a, k @ concat ds)"
    for a :: CCHmacAlgorithm and k :: "u8 list" and ds
    by (induction ds arbitrary: k) auto
  then show ?thesis by (simp add: common_crypto_def sample_cc_def)
qed


text \<open>
  C33. The label structure fits: for labels and contexts of at most 246 bytes together nothing is written outside the
  256-byte buffer, and the bytes passed to HKDF-Expand are the \<^verbatim>\<open>HkdfLabel\<close> encoding of RFC 8446.\<close>

theorem expand_label_info_correct:
  assumes "length label + length context \<le> 246"
  shows "length (fst (expand_label_info label context len)) = 256 \<and>
    take (snd (expand_label_info label context len)) (fst (expand_label_info label context len)) = rfc_label label context len"
  using expand_label_info_rfc [OF assms] by simp

theorem expand_label_info_correct_witness:
  "length (fst (expand_label_info (cstr ''c hs traffic'') (replicate 48 1) 48)) = 256"
  using expand_label_info_correct [of "cstr ''c hs traffic''" "replicate 48 1" 48] by simp

text \<open>
  C8. The handshake keys are those of RFC 8446: early secret, handshake secret, the two traffic secrets and their keys and
  IVs, for every cipher suite, with the suite's key length and 12-byte IVs.\<close>

theorem handshake_keys_correct:
  assumes "common_crypto lib" "length transcript < 2 ^ 32"
  shows "tls13_derive_handshake_keys lib cs shared_secret transcript = Some (rfc_handshake_keys lib cs shared_secret transcript) \<and>
    length (hk_client_key (rfc_handshake_keys lib cs shared_secret transcript)) = suite_key_len cs \<and>
    length (hk_client_iv (rfc_handshake_keys lib cs shared_secret transcript)) = 12"
  using assms unfolding tls13_derive_handshake_keys_def rfc_handshake_keys_def suite_params Let_def prod.case zeros_48 extract_empty
  by (simp add: derive_secret_rfc expand_label_rfc extract_derived length_rfc_expand_label)

theorem handshake_keys_correct_witness:
  "tls13_derive_handshake_keys sample_cc 0x1302 [1, 2, 3] [4, 5] = Some (rfc_handshake_keys sample_cc 0x1302 [1, 2, 3] [4, 5])"
  using handshake_keys_correct [OF sample_cc_ok, of "[4, 5]" "0x1302" "[1, 2, 3]"] by simp

text \<open>
  C31. The application keys are those of RFC 8446, from the handshake secret through the master secret.\<close>

theorem application_keys_correct:
  assumes "common_crypto lib" "length transcript < 2 ^ 32"
  shows "tls13_derive_application_keys lib cs hs_secret transcript = Some (rfc_application_keys lib cs hs_secret transcript) \<and>
    length (ak_server_key (rfc_application_keys lib cs hs_secret transcript)) = suite_key_len cs \<and>
    length (ak_server_iv (rfc_application_keys lib cs hs_secret transcript)) = 12"
  using assms unfolding tls13_derive_application_keys_def rfc_application_keys_def suite_params Let_def prod.case zeros_48
  by (simp add: derive_secret_rfc expand_label_rfc extract_derived length_rfc_expand_label)

theorem application_keys_correct_witness:
  "tls13_derive_application_keys sample_cc 0x1303 [1, 2, 3] [4, 5] = Some (rfc_application_keys sample_cc 0x1303 [1, 2, 3] [4, 5])"
  using application_keys_correct [OF sample_cc_ok, of "[4, 5]" "0x1303" "[1, 2, 3]"] by simp

text \<open>
  The Finished message: the verify data is the HMAC of the transcript hash under the key expanded from the traffic
  secret with the label \<^verbatim>\<open>finished\<close>.\<close>

theorem compute_finished_correct:
  assumes "common_crypto lib" "length transcript < 2 ^ 32"
  shows "tls13_compute_finished lib cs secret transcript =
    Some (CCHmac lib (suite_alg cs) (rfc_expand_label lib cs secret (cstr ''finished'') [] (suite_len cs))
      (tls13_transcript_hash lib cs transcript)) \<and>
    tls13_transcript_hash lib cs transcript = suite_hash lib cs transcript"
  using assms unfolding tls13_compute_finished_def suite_params Let_def prod.case tls13_transcript_hash_def
  by (simp add: expand_label_rfc sha_hash_suite length_suite_hash length_rfc_expand_label)

theorem compute_finished_correct_witness:
  "tls13_compute_finished sample_cc 0x1301 [1] [4, 5] =
    Some (CCHmac sample_cc kCCHmacAlgSHA256 (rfc_expand_label sample_cc 0x1301 [1] (cstr ''finished'') [] 32)
      (tls13_transcript_hash sample_cc 0x1301 [4, 5]))"
  using compute_finished_correct [OF sample_cc_ok, of "[4, 5]" "0x1301" "[1]"] by (simp add: suite_alg_def)

end
