(* ===== verification/Yaml_Json.thy ===== *)
theory Yaml_Json
  imports Blake3_JNI
begin

text \<open>
  The YAML to JSON conversion of \<^verbatim>\<open>yaml_jni_bridge.c\<close>: the growing string buffer, the JSON string escaper, the stack of
  open collections, the event loop and the Java entry point. libyaml is a parameter, a function that from a parser state
  yields the next event and state or fails. Memory allocation is an oracle \<open>mem\<close> that says for each call, counted from the
  start, whether it succeeds; \<^verbatim>\<open>size_t\<close> is a 64-bit word, so that sums wrap as they do in C. The block a buffer points to is
  a list as long as the allocation; a copy past its end would lengthen it.
\<close>

section \<open>The string buffer\<close>

type_synonym mem = "nat \<Rightarrow> bool"

record strbuf_t =
  sb_data :: "u8 list"
  sb_len :: u64
  sb_cap :: u64
  sb_allocs :: nat

definition strbuf_init :: "mem \<Rightarrow> u64 \<Rightarrow> strbuf_t option" where
  "strbuf_init mem initial_cap =
    (if mem 0
     then Some \<lparr>sb_data = blit (replicate (unat initial_cap) 0) 0 [0], sb_len = 0, sb_cap = initial_cap, sb_allocs = 1\<rparr>
     else None)"

text \<open>A freed buffer has no block.\<close>

definition strbuf_free :: "strbuf_t \<Rightarrow> strbuf_t" where
  "strbuf_free sb = sb\<lparr>sb_data := [], sb_len := 0, sb_cap := 0\<rparr>"

definition strbuf_ensure :: "mem \<Rightarrow> strbuf_t \<Rightarrow> u64 \<Rightarrow> bool \<times> strbuf_t" where
  "strbuf_ensure mem sb additional =
    (let needed = sb_len sb + additional + 1
     in if needed \<le> sb_cap sb then (True, sb)
        else
          let new_cap = sb_cap sb * 2;
              new_cap = (if new_cap < needed then needed else new_cap);
              ok = mem (sb_allocs sb);
              sb = sb\<lparr>sb_allocs := sb_allocs sb + 1\<rparr>
          in if \<not> ok then (False, sb)
             else (True, sb\<lparr>sb_data := take (unat new_cap) (sb_data sb @ replicate (unat new_cap - length (sb_data sb)) 0),
                            sb_cap := new_cap\<rparr>))"

definition strbuf_append :: "mem \<Rightarrow> u8 list \<Rightarrow> strbuf_t \<Rightarrow> bool \<times> strbuf_t" where
  "strbuf_append mem str sb =
    (let (ok, sb) = strbuf_ensure mem sb (of_nat (length str))
     in if \<not> ok then (False, sb)
        else
          let sb = sb\<lparr>sb_data := blit (sb_data sb) (unat (sb_len sb)) str, sb_len := sb_len sb + of_nat (length str)\<rparr>
          in (True, sb\<lparr>sb_data := blit (sb_data sb) (unat (sb_len sb)) [0]\<rparr>))"

definition strbuf_append_char :: "mem \<Rightarrow> u8 \<Rightarrow> strbuf_t \<Rightarrow> bool \<times> strbuf_t" where
  "strbuf_append_char mem c sb = strbuf_append mem [c] sb"

text \<open>\<^verbatim>\<open>if (!f(sb)) return 0;\<close> followed by the rest.\<close>

definition and_then :: "bool \<times> 's \<Rightarrow> ('s \<Rightarrow> bool \<times> 's) \<Rightarrow> bool \<times> 's" where
  "and_then r f = (if fst r then f (snd r) else (False, snd r))"

section \<open>JSON strings\<close>

definition hex_digit :: "nat \<Rightarrow> u8" where
  "hex_digit n = (if n < 10 then of_nat (0x30 + n) else of_nat (0x61 + (n - 10)))"

text \<open>The bytes one input byte contributes: the cases of the \<^verbatim>\<open>switch\<close>, with \<^verbatim>\<open>snprintf("\\u%04x")\<close> for the other controls.\<close>

definition json_escape :: "u8 \<Rightarrow> u8 list" where
  "json_escape c =
    (if c = 0x22 then [0x5c, 0x22]
     else if c = 0x5c then [0x5c, 0x5c]
     else if c = 0x08 then [0x5c, 0x62]
     else if c = 0x0c then [0x5c, 0x66]
     else if c = 0x0a then [0x5c, 0x6e]
     else if c = 0x0d then [0x5c, 0x72]
     else if c = 0x09 then [0x5c, 0x74]
     else if c < 0x20 then [0x5c, 0x75, 0x30, 0x30, hex_digit (unat c div 16), hex_digit (unat c mod 16)]
     else [c])"

fun append_escaped :: "mem \<Rightarrow> u8 list \<Rightarrow> strbuf_t \<Rightarrow> bool \<times> strbuf_t" where
  "append_escaped mem [] sb = (True, sb)"
| "append_escaped mem (c # cs) sb = and_then (strbuf_append mem (json_escape c) sb) (append_escaped mem cs)"

definition strbuf_append_json_string :: "mem \<Rightarrow> u8 list \<Rightarrow> strbuf_t \<Rightarrow> bool \<times> strbuf_t" where
  "strbuf_append_json_string mem str sb =
     and_then (strbuf_append_char mem 0x22 sb) (\<lambda>sb.
     and_then (append_escaped mem str sb) (\<lambda>sb.
     strbuf_append_char mem 0x22 sb))"

section \<open>The context stack\<close>

datatype context_type_t = CTX_NONE | CTX_MAPPING_KEY | CTX_MAPPING_VALUE | CTX_SEQUENCE

record context_frame_t =
  fr_type :: context_type_t
  fr_count :: u32

record context_t =
  ctx_stack :: "context_frame_t list"
  ctx_depth :: nat

abbreviation (input) MAX_DEPTH :: nat where "MAX_DEPTH \<equiv> 128"

definition context_init :: "context_t \<Rightarrow> context_t" where
  "context_init ctx = ctx\<lparr>ctx_depth := 0\<rparr>"

definition context_top :: "context_t \<Rightarrow> context_frame_t option" where
  "context_top ctx = (if ctx_depth ctx \<le> 0 then None else Some (ctx_stack ctx ! (ctx_depth ctx - 1)))"

definition context_push :: "context_t \<Rightarrow> context_type_t \<Rightarrow> bool \<times> context_t" where
  "context_push ctx ty =
    (if ctx_depth ctx \<ge> MAX_DEPTH then (False, ctx)
     else (True, ctx\<lparr>ctx_stack := (ctx_stack ctx)[ctx_depth ctx := \<lparr>fr_type = ty, fr_count = 0\<rparr>],
                     ctx_depth := ctx_depth ctx + 1\<rparr>))"

definition context_pop :: "context_t \<Rightarrow> context_t" where
  "context_pop ctx = (if ctx_depth ctx > 0 then ctx\<lparr>ctx_depth := ctx_depth ctx - 1\<rparr> else ctx)"

definition emit_separator :: "mem \<Rightarrow> context_t \<Rightarrow> strbuf_t \<Rightarrow> bool \<times> strbuf_t" where
  "emit_separator mem ctx sb =
    (case context_top ctx of
       None \<Rightarrow> (True, sb)
     | Some frame \<Rightarrow>
        (case fr_type frame of
           CTX_MAPPING_KEY \<Rightarrow> if sint (fr_count frame) > 0 then strbuf_append_char mem 0x2c sb else (True, sb)
         | CTX_MAPPING_VALUE \<Rightarrow> strbuf_append_char mem 0x3a sb
         | CTX_SEQUENCE \<Rightarrow> if sint (fr_count frame) > 0 then strbuf_append_char mem 0x2c sb else (True, sb)
         | CTX_NONE \<Rightarrow> (True, sb)))"

definition set_top :: "context_t \<Rightarrow> context_frame_t \<Rightarrow> context_t" where
  "set_top ctx frame = ctx\<lparr>ctx_stack := (ctx_stack ctx)[ctx_depth ctx - 1 := frame]\<rparr>"

definition advance_context :: "context_t \<Rightarrow> context_t" where
  "advance_context ctx =
    (case context_top ctx of
       None \<Rightarrow> ctx
     | Some frame \<Rightarrow>
        (case fr_type frame of
           CTX_MAPPING_KEY \<Rightarrow> set_top ctx (frame\<lparr>fr_type := CTX_MAPPING_VALUE\<rparr>)
         | CTX_MAPPING_VALUE \<Rightarrow> set_top ctx (frame\<lparr>fr_type := CTX_MAPPING_KEY, fr_count := fr_count frame + 1\<rparr>)
         | CTX_SEQUENCE \<Rightarrow> set_top ctx (frame\<lparr>fr_count := fr_count frame + 1\<rparr>)
         | CTX_NONE \<Rightarrow> ctx))"

section \<open>The event loop\<close>

datatype yaml_event =
    YAML_NO_EVENT | YAML_STREAM_START | YAML_STREAM_END | YAML_DOCUMENT_START | YAML_DOCUMENT_END
  | YAML_ALIAS | YAML_SCALAR "u8 list" | YAML_SEQUENCE_START | YAML_SEQUENCE_END | YAML_MAPPING_START | YAML_MAPPING_END

text \<open>One iteration: whether the event was handled without error, the buffer and the context.\<close>

definition handle_event :: "mem \<Rightarrow> yaml_event \<Rightarrow> strbuf_t \<times> context_t \<Rightarrow> bool \<times> strbuf_t \<times> context_t" where
  "handle_event mem ev s =
    (let (sb, ctx) = s;
         start = (\<lambda>c ty.
           let (ok, sb) = and_then (emit_separator mem ctx sb) (strbuf_append_char mem c)
           in if \<not> ok then (False, sb, ctx)
              else let (ok, ctx) = context_push ctx ty in (ok, sb, ctx));
         stop = (\<lambda>c.
           let ctx = context_pop ctx;
               (ok, sb) = strbuf_append_char mem c sb
           in if \<not> ok then (False, sb, ctx) else (True, sb, advance_context ctx));
         leaf = (\<lambda>put.
           let (ok, sb) = and_then (emit_separator mem ctx sb) put
           in if \<not> ok then (False, sb, ctx) else (True, sb, advance_context ctx))
     in case ev of
          YAML_STREAM_START \<Rightarrow> (True, sb, ctx)
        | YAML_STREAM_END \<Rightarrow> (True, sb, ctx)
        | YAML_DOCUMENT_START \<Rightarrow> (True, sb, ctx)
        | YAML_DOCUMENT_END \<Rightarrow> (True, sb, ctx)
        | YAML_MAPPING_START \<Rightarrow> start 0x7b CTX_MAPPING_KEY
        | YAML_MAPPING_END \<Rightarrow> stop 0x7d
        | YAML_SEQUENCE_START \<Rightarrow> start 0x5b CTX_SEQUENCE
        | YAML_SEQUENCE_END \<Rightarrow> stop 0x5d
        | YAML_SCALAR value \<Rightarrow> leaf (strbuf_append_json_string mem value)
        | YAML_ALIAS \<Rightarrow> leaf (strbuf_append mem [0x6e, 0x75, 0x6c, 0x6c])
        | YAML_NO_EVENT \<Rightarrow> (True, sb, ctx))"

partial_function (option) yaml_loop ::
  "('p \<Rightarrow> (yaml_event \<times> 'p) option) \<Rightarrow> mem \<Rightarrow> 'p \<Rightarrow> strbuf_t \<times> context_t \<Rightarrow> (bool \<times> strbuf_t) option" where
  "yaml_loop parse mem p s =
    (case parse p of
       None \<Rightarrow> Some (False, fst s)
     | Some (ev, p) \<Rightarrow>
        (case handle_event mem ev s of
           (ok, s) \<Rightarrow>
             if \<not> ok then Some (False, fst s)
             else if ev = YAML_NO_EVENT \<or> ev = YAML_STREAM_END then Some (True, fst s)
             else yaml_loop parse mem p s))"

definition yaml_to_json ::
  "(u8 list \<Rightarrow> 'p option) \<Rightarrow> ('p \<Rightarrow> (yaml_event \<times> 'p) option) \<Rightarrow> context_t \<Rightarrow> mem \<Rightarrow> u8 list \<Rightarrow> strbuf_t \<Rightarrow>
   (bool \<times> strbuf_t) option" where
  "yaml_to_json init parse ctx mem yaml sb =
    (case init yaml of
       None \<Rightarrow> Some (False, sb)
     | Some p \<Rightarrow> yaml_loop parse mem p (sb, context_init ctx))"

section \<open>The Java entry point\<close>

text \<open>\<^verbatim>\<open>strbuf_free\<close> gives one heap block back if the buffer has one. The number of live heap blocks is counted beside the Java state. \<open>new_string\<close> says whether \<^verbatim>\<open>NewStringUTF\<close> succeeds;
it reads the buffer up to the first zero byte.\<close>

definition free_block :: "nat \<Rightarrow> strbuf_t \<Rightarrow> nat" where
  "free_block live sb = (if sb_data sb \<noteq> sb_data (strbuf_free sb) then live - 1 else live)"

definition nativeParseYaml ::
  "jvm \<Rightarrow> (u8 list \<Rightarrow> 'p option) \<Rightarrow> ('p \<Rightarrow> (yaml_event \<times> 'p) option) \<Rightarrow> context_t \<Rightarrow> mem \<Rightarrow> (u8 list \<Rightarrow> bool) \<Rightarrow> jref option \<Rightarrow>
   jni_state \<times> nat \<Rightarrow> (u8 list option \<times> jni_state \<times> nat) option" where
  "nativeParseYaml env init parse ctx mem new_string yamlContent st =
    (let (s, live) = st
     in case yamlContent of
       None \<Rightarrow> Some (None, s, live)
     | Some y \<Rightarrow>
        (case get_string env y s of
           (None, s) \<Rightarrow> Some (None, s, live)
         | (Some yamlCStr, s) \<Rightarrow>
            let yamlLen = length (vm_utf_chars env y)
            in case strbuf_init mem (of_nat (if yamlLen > 256 then yamlLen else 256)) of
                 None \<Rightarrow> Some (None, release y s, live)
               | Some sb \<Rightarrow>
                  let live = live + 1
                  in (case yaml_to_json init parse ctx mem (take yamlLen yamlCStr) sb of
                        None \<Rightarrow> None
                      | Some (ok, sb) \<Rightarrow>
                         let s = release y s
                         in if \<not> ok then Some (None, s, free_block live sb)
                            else
                              let text = takeWhile (\<lambda>b. b \<noteq> 0) (sb_data sb);
                                  result = (if new_string text then Some text else None)
                              in Some (result, s, free_block live sb))))"


section \<open>Buffer invariant\<close>

definition sb_rep :: "strbuf_t \<Rightarrow> u8 list \<Rightarrow> bool" where
  "sb_rep sb bs \<longleftrightarrow> length (sb_data sb) = unat (sb_cap sb) \<and> unat (sb_len sb) = length bs \<and>
     length bs < unat (sb_cap sb) \<and> take (length bs + 1) (sb_data sb) = bs @ [0]"

lemma sb_rep_init: "0 < unat cap \<Longrightarrow> strbuf_init mem cap = Some sb \<Longrightarrow> sb_rep sb []"
  by (auto simp: strbuf_init_def sb_rep_def blit_def split: if_splits)

lemma size_add_fits: "unat a + unat b < 2 ^ 64 \<Longrightarrow> unat (a + b :: u64) = unat a + unat b"
  by (simp add: unat_word_ariths)

lemma ensure_rep:
  assumes "sb_rep sb bs" "length bs + n + 1 < 2 ^ 64"
  shows "case strbuf_ensure mem sb (of_nat n) of (ok, sb') \<Rightarrow>
    sb_rep sb' bs \<and> (ok \<longrightarrow> length bs + n < unat (sb_cap sb')) \<and> ((\<forall>i. mem i) \<longrightarrow> ok)"
proof -
  have r: "length (sb_data sb) = unat (sb_cap sb)" "unat (sb_len sb) = length bs" "length bs < unat (sb_cap sb)"
    "take (length bs + 1) (sb_data sb) = bs @ [0]" using assms(1) by (auto simp: sb_rep_def)
  have n: "unat (of_nat n :: u64) = n" using assms(2) by (simp add: unat_of_nat)
  have a: "unat (sb_len sb + of_nat n) = length bs + n" using assms(2) r(2) n by (simp add: size_add_fits)
  define needed where "needed = sb_len sb + of_nat n + 1"
  have nd: "unat needed = length bs + n + 1"
    using size_add_fits [of "sb_len sb + of_nat n" 1] assms(2) a by (simp add: needed_def)
  define cap where "cap = (if sb_cap sb * 2 < needed then needed else sb_cap sb * 2)"
  have cap: "length bs + n < unat cap" using nd by (auto simp: cap_def word_less_nat_alt)
  show ?thesis
  proof (cases "needed \<le> sb_cap sb")
    case True
    then show ?thesis using assms(1) nd by (simp add: strbuf_ensure_def needed_def [symmetric] word_le_nat_alt)
  next
    case False
    have b: "unat (sb_cap sb) < unat cap"
    proof -
      have "unat (sb_cap sb) < unat needed" using False by (simp add: word_le_nat_alt)
      moreover have "unat needed \<le> unat cap" by (auto simp: cap_def word_less_nat_alt)
      ultimately show ?thesis by simp
    qed
    define d where "d = take (unat cap) (sb_data sb @ replicate (unat cap - length (sb_data sb)) 0)"
    have d: "length d = unat cap" "take (length bs + 1) d = bs @ [0]"
      using r b by (simp_all add: d_def)
    show ?thesis
      using False r cap b d
      by (auto simp: strbuf_ensure_def needed_def [symmetric] cap_def [symmetric] d_def [symmetric] Let_def sb_rep_def)
  qed
qed

text \<open>An operation that appends exactly \<open>str\<close>, or fails after a prefix of it, and fails only if an allocation fails.\<close>

definition appends :: "mem \<Rightarrow> (strbuf_t \<Rightarrow> bool \<times> strbuf_t) \<Rightarrow> u8 list \<Rightarrow> bool" where
  "appends mem f str \<longleftrightarrow>
    (\<forall>sb bs. sb_rep sb bs \<longrightarrow> length bs + length str + 1 < 2 ^ 64 \<longrightarrow>
      (case f sb of (ok, sb') \<Rightarrow>
         (if ok then sb_rep sb' (bs @ str) else \<exists>n. sb_rep sb' (bs @ take n str)) \<and> ((\<forall>i. mem i) \<longrightarrow> ok)))"

lemma appends_append: "appends mem (strbuf_append mem str) str"
  unfolding appends_def
proof (intro allI impI)
  fix sb bs assume rep: "sb_rep sb bs" and fits: "length bs + length str + 1 < 2 ^ 64"
  obtain ok sb' where e: "strbuf_ensure mem sb (of_nat (length str)) = (ok, sb')" by fastforce
  from ensure_rep [OF rep, of "length str" mem] fits e
  have r: "sb_rep sb' bs" "ok \<longrightarrow> length bs + length str < unat (sb_cap sb')" "(\<forall>i. mem i) \<longrightarrow> ok" by auto
  show "case strbuf_append mem str sb of (ok, sb') \<Rightarrow>
      (if ok then sb_rep sb' (bs @ str) else \<exists>n. sb_rep sb' (bs @ take n str)) \<and> ((\<forall>i. mem i) \<longrightarrow> ok)"
  proof (cases ok)
    case False
    then have "strbuf_append mem str sb = (False, sb')" by (simp add: strbuf_append_def e)
    then show ?thesis using r False by (auto intro: exI [of _ 0])
  next
    case True
    have d: "length (sb_data sb') = unat (sb_cap sb')" "unat (sb_len sb') = length bs"
      "take (length bs + 1) (sb_data sb') = bs @ [0]" using r(1) by (auto simp: sb_rep_def)
    have bs: "take (length bs) (sb_data sb') = bs"
      using arg_cong [OF d(3), of "take (length bs)"] by simp
    have "unat (of_nat (length str) :: u64) = length str" using fits by (simp add: unat_of_nat)
    then have l: "unat (sb_len sb' + of_nat (length str)) = length bs + length str"
      using fits d(2) by (simp add: size_add_fits)
    define x where "x = blit (sb_data sb') (length bs) str"
    have x: "length x = unat (sb_cap sb')" "take (length bs + length str) x = bs @ str"
      using r(2) True d(1) bs take_blit [of "length bs" "sb_data sb'" str] by (simp_all add: x_def)
    have y: "length (blit x (length bs + length str) [0]) = unat (sb_cap sb')"
      "take (length bs + length str + 1) (blit x (length bs + length str) [0]) = bs @ str @ [0]"
      using x r(2) True take_blit [of "length bs + length str" x "[0]"] by simp_all
    have "strbuf_append mem str sb = (True, sb'\<lparr>sb_data := blit x (length bs + length str) [0],
        sb_len := sb_len sb' + of_nat (length str)\<rparr>)"
      using True l by (simp add: strbuf_append_def e Let_def x_def d(2))
    then show ?thesis using r(2) True y l by (simp add: sb_rep_def)
  qed
qed

lemma appends_cong: "(\<And>sb. f sb = f' sb) \<Longrightarrow> appends mem f' str \<Longrightarrow> appends mem f str"
  by (simp add: appends_def)

lemma appends_char: "appends mem (strbuf_append_char mem c) [c]"
  by (rule appends_cong [OF strbuf_append_char_def appends_append])

lemma failed_prefix:
  "sb_rep sb (bs @ take n a) \<Longrightarrow> \<exists>n. sb_rep sb (bs @ take n (a @ b))"
  "sb_rep sb ((bs @ a) @ take n b) \<Longrightarrow> \<exists>n. sb_rep sb (bs @ take n (a @ b))"
proof -
  assume "sb_rep sb (bs @ take n a)"
  then have "sb_rep sb (bs @ take (min n (length a)) (a @ b))" by (cases "n \<le> length a") simp_all
  then show "\<exists>n. sb_rep sb (bs @ take n (a @ b))" by blast
next
  assume "sb_rep sb ((bs @ a) @ take n b)"
  then have "sb_rep sb (bs @ take (length a + n) (a @ b))" by simp
  then show "\<exists>n. sb_rep sb (bs @ take n (a @ b))" by blast
qed

lemma appends_nil: "appends mem (\<lambda>sb. (True, sb)) []"
  by (simp add: appends_def)

lemma appends_then:
  assumes "appends mem f a" "appends mem k b"
  shows "appends mem (\<lambda>sb. and_then (f sb) k) (a @ b)"
  unfolding appends_def
proof (intro allI impI)
  fix sb bs assume rep: "sb_rep sb bs" and fits: "length bs + length (a @ b) + 1 < 2 ^ 64"
  obtain ok sb' where f: "f sb = (ok, sb')" by fastforce
  have r: "if ok then sb_rep sb' (bs @ a) else \<exists>n. sb_rep sb' (bs @ take n a)" "(\<forall>i. mem i) \<longrightarrow> ok"
    using assms(1) rep fits f unfolding appends_def by fastforce+
  show "case and_then (f sb) k of (ok, sb') \<Rightarrow>
      (if ok then sb_rep sb' (bs @ a @ b) else \<exists>n. sb_rep sb' (bs @ take n (a @ b))) \<and> ((\<forall>i. mem i) \<longrightarrow> ok)"
  proof (cases ok)
    case False
    then have "\<exists>n. sb_rep sb' (bs @ take n (a @ b))" using r(1) failed_prefix(1) by auto
    then show ?thesis using False r(2) f by (simp add: and_then_def del: take_append)
  next
    case True
    obtain ok2 sb2 where g: "k sb' = (ok2, sb2)" by fastforce
    have "length (bs @ a) + length b + 1 < 2 ^ 64" using fits by simp
    with assms(2) r(1) True g
    have r2: "if ok2 then sb_rep sb2 ((bs @ a) @ b) else \<exists>n. sb_rep sb2 ((bs @ a) @ take n b)" "(\<forall>i. mem i) \<longrightarrow> ok2"
      unfolding appends_def by fastforce+
    show ?thesis
    proof (cases ok2)
      case False
      then have "\<exists>n. sb_rep sb2 (bs @ take n (a @ b))" using r2(1) failed_prefix(2) by auto
      then show ?thesis using False True r2(2) f g by (simp add: and_then_def del: take_append)
    next
      case t: True
      then show ?thesis using True r2 f g by (simp add: and_then_def)
    qed
  qed
qed

lemma appends_escaped: "appends mem (append_escaped mem str) (concat (map json_escape str))"
proof (induction str)
  case Nil
  show ?case using appends_nil by (simp add: appends_def)
next
  case (Cons c cs)
  from appends_then [OF appends_append Cons] show ?case by simp
qed

definition json_string :: "u8 list \<Rightarrow> u8 list" where
  "json_string str = [0x22] @ concat (map json_escape str) @ [0x22]"

lemma appends_json_string: "appends mem (strbuf_append_json_string mem str) (json_string str)"
  unfolding strbuf_append_json_string_def json_string_def strbuf_append_char_def
  by (intro appends_then appends_append appends_escaped)


section \<open>The context as a list of frames\<close>

definition ctx_rep :: "context_t \<Rightarrow> context_frame_t list \<Rightarrow> bool" where
  "ctx_rep ctx fs \<longleftrightarrow> length (ctx_stack ctx) = 128 \<and> ctx_depth ctx = length fs \<and> length fs \<le> 128 \<and>
     take (length fs) (ctx_stack ctx) = fs"

definition frame_sep :: "context_frame_t \<Rightarrow> u8 list" where
  "frame_sep f = (case fr_type f of
      CTX_MAPPING_KEY \<Rightarrow> if sint (fr_count f) > 0 then [0x2c] else []
    | CTX_MAPPING_VALUE \<Rightarrow> [0x3a]
    | CTX_SEQUENCE \<Rightarrow> if sint (fr_count f) > 0 then [0x2c] else []
    | CTX_NONE \<Rightarrow> [])"

definition frame_advance :: "context_frame_t \<Rightarrow> context_frame_t" where
  "frame_advance f = (case fr_type f of
      CTX_MAPPING_KEY \<Rightarrow> f\<lparr>fr_type := CTX_MAPPING_VALUE\<rparr>
    | CTX_MAPPING_VALUE \<Rightarrow> f\<lparr>fr_type := CTX_MAPPING_KEY, fr_count := fr_count f + 1\<rparr>
    | CTX_SEQUENCE \<Rightarrow> f\<lparr>fr_count := fr_count f + 1\<rparr>
    | CTX_NONE \<Rightarrow> f)"

definition sep :: "context_frame_t list \<Rightarrow> u8 list" where
  "sep fs = (if fs = [] then [] else frame_sep (last fs))"

definition advance :: "context_frame_t list \<Rightarrow> context_frame_t list" where
  "advance fs = (if fs = [] then [] else butlast fs @ [frame_advance (last fs)])"

lemma ctx_rep_top: "ctx_rep ctx fs \<Longrightarrow> context_top ctx = (if fs = [] then None else Some (last fs))"
proof -
  assume r: "ctx_rep ctx fs"
  then have "fs \<noteq> [] \<Longrightarrow> ctx_stack ctx ! (length fs - 1) = last fs"
    unfolding ctx_rep_def by (metis diff_less last_conv_nth length_greater_0_conv nth_take zero_less_one)
  then show ?thesis using r by (auto simp: context_top_def ctx_rep_def)
qed

lemma ctx_rep_set_top: "ctx_rep ctx (fs @ [f]) \<Longrightarrow> ctx_rep (set_top ctx f') (fs @ [f'])"
  unfolding ctx_rep_def set_top_def
  by (auto simp: take_Suc_conv_app_nth nth_append) (metis append_eq_append_conv length_append_singleton take_Suc_conv_app_nth
      le_imp_less_Suc less_Suc_eq_le order_refl length_list_update Suc_le_lessD butlast_snoc take_update_swap)?

lemma ctx_rep_advance: "ctx_rep ctx fs \<Longrightarrow> ctx_rep (advance_context ctx) (advance fs)"
proof (cases fs rule: rev_exhaust)
  case Nil
  then show "ctx_rep ctx fs \<Longrightarrow> ?thesis" using ctx_rep_top [of ctx fs] by (simp add: advance_context_def advance_def)
next
  case (snoc gs f)
  assume r: "ctx_rep ctx fs"
  then show ?thesis
    using ctx_rep_top [OF r] snoc ctx_rep_set_top [of ctx gs f]
    by (cases "fr_type f") (simp_all add: advance_context_def advance_def frame_advance_def)
qed

lemma ctx_rep_push:
  "ctx_rep ctx fs \<Longrightarrow> length fs < 128 \<Longrightarrow>
   fst (context_push ctx ty) \<and> ctx_rep (snd (context_push ctx ty)) (fs @ [\<lparr>fr_type = ty, fr_count = 0\<rparr>])"
  by (auto simp: ctx_rep_def context_push_def take_Suc_conv_app_nth)

lemma ctx_rep_pop: "ctx_rep ctx (fs @ [f]) \<Longrightarrow> ctx_rep (context_pop ctx) fs"
  unfolding ctx_rep_def context_pop_def
  by (auto simp: take_Suc_conv_app_nth)

lemma emit_separator_sep:
  "ctx_rep ctx fs \<Longrightarrow> emit_separator mem ctx sb = (if sep fs = [] then (True, sb) else strbuf_append mem (sep fs) sb)"
  by (cases "fr_type (last fs)")
    (simp_all add: emit_separator_def ctx_rep_top sep_def frame_sep_def strbuf_append_char_def)

lemma appends_separator: "ctx_rep ctx fs \<Longrightarrow> appends mem (emit_separator mem ctx) (sep fs)"
  using appends_nil appends_append by (cases "sep fs = []") (auto intro!: appends_cong [OF emit_separator_sep])

section \<open>Runs of events\<close>

fun run_events :: "mem \<Rightarrow> yaml_event list \<Rightarrow> strbuf_t \<times> context_t \<Rightarrow> bool \<times> strbuf_t \<times> context_t" where
  "run_events mem [] s = (True, s)"
| "run_events mem (e # es) s = (case handle_event mem e s of (ok, s) \<Rightarrow> if ok then run_events mem es s else (False, s))"

definition runs :: "mem \<Rightarrow> yaml_event list \<Rightarrow> context_frame_t list \<Rightarrow> context_frame_t list \<Rightarrow> u8 list \<Rightarrow> bool" where
  "runs mem es fs fs' str \<longleftrightarrow>
    (\<forall>sb bs ctx. sb_rep sb bs \<longrightarrow> ctx_rep ctx fs \<longrightarrow> length bs + length str + 1 < 2 ^ 64 \<longrightarrow>
      (case run_events mem es (sb, ctx) of (ok, sb', ctx') \<Rightarrow>
         (if ok then sb_rep sb' (bs @ str) \<and> ctx_rep ctx' fs' else \<exists>n. sb_rep sb' (bs @ take n str)) \<and>
         ((\<forall>i. mem i) \<longrightarrow> ok)))"

lemma run_events_append:
  "run_events mem (es @ es') s = (case run_events mem es s of (ok, s) \<Rightarrow> if ok then run_events mem es' s else (False, s))"
  by (induction es arbitrary: s) (auto split: prod.splits)

lemma runs_nil: "runs mem [] fs fs []"
  by (simp add: runs_def)

lemma runs_append:
  assumes "runs mem es fs gs a" "runs mem es' gs hs b"
  shows "runs mem (es @ es') fs hs (a @ b)"
  unfolding runs_def
proof (intro allI impI)
  fix sb bs ctx assume rep: "sb_rep sb bs" "ctx_rep ctx fs" and fits: "length bs + length (a @ b) + 1 < 2 ^ 64"
  obtain ok sb' ctx' where f: "run_events mem es (sb, ctx) = (ok, sb', ctx')" by (metis prod_cases3)
  have "length bs + length a + 1 < 2 ^ 64" using fits by simp
  with assms(1) rep f
  have r: "if ok then sb_rep sb' (bs @ a) \<and> ctx_rep ctx' gs else \<exists>n. sb_rep sb' (bs @ take n a)" "(\<forall>i. mem i) \<longrightarrow> ok"
    unfolding runs_def by fastforce+
  show "case run_events mem (es @ es') (sb, ctx) of (ok, sb', ctx') \<Rightarrow>
      (if ok then sb_rep sb' (bs @ a @ b) \<and> ctx_rep ctx' hs else \<exists>n. sb_rep sb' (bs @ take n (a @ b))) \<and>
      ((\<forall>i. mem i) \<longrightarrow> ok)"
  proof (cases ok)
    case False
    then have "\<exists>n. sb_rep sb' (bs @ take n (a @ b))" using r(1) failed_prefix(1) by auto
    then show ?thesis using False r(2) f by (simp add: run_events_append del: take_append)
  next
    case True
    obtain ok2 sb2 ctx2 where g: "run_events mem es' (sb', ctx') = (ok2, sb2, ctx2)" by (metis prod_cases3)
    have "length (bs @ a) + length b + 1 < 2 ^ 64" using fits by simp
    with assms(2) r(1) True g
    have r2: "if ok2 then sb_rep sb2 ((bs @ a) @ b) \<and> ctx_rep ctx2 hs else \<exists>n. sb_rep sb2 ((bs @ a) @ take n b)"
      "(\<forall>i. mem i) \<longrightarrow> ok2"
      unfolding runs_def by fastforce+
    show ?thesis
    proof (cases ok2)
      case False
      then have "\<exists>n. sb_rep sb2 (bs @ take n (a @ b))" using r2(1) failed_prefix(2) by auto
      then show ?thesis using False True r2(2) f g by (simp add: run_events_append del: take_append)
    next
      case t: True
      then show ?thesis using True r2 f g by (simp add: run_events_append)
    qed
  qed
qed

lemma appendsD:
  assumes "appends mem f str" "sb_rep sb bs" "length bs + length str + 1 < 2 ^ 64" "f sb = (ok, sb')"
  shows "if ok then sb_rep sb' (bs @ str) else \<exists>n. sb_rep sb' (bs @ take n str)" and "(\<forall>i. mem i) \<longrightarrow> ok"
  using assms unfolding appends_def by fastforce+

lemma runs_leaf:
  assumes "appends mem put str"
    and "\<And>sb ctx. handle_event mem e (sb, ctx) =
      (let (ok, sb) = and_then (emit_separator mem ctx sb) put
       in if \<not> ok then (False, sb, ctx) else (True, sb, advance_context ctx))"
  shows "runs mem [e] fs (advance fs) (sep fs @ str)"
  unfolding runs_def
proof (intro allI impI)
  fix sb bs ctx assume rep: "sb_rep sb bs" "ctx_rep ctx fs" and fits: "length bs + length (sep fs @ str) + 1 < 2 ^ 64"
  obtain ok sb' where f: "and_then (emit_separator mem ctx sb) put = (ok, sb')" by fastforce
  note appendsD [OF appends_then [OF appends_separator [OF rep(2)] assms(1)] rep(1) fits f]
  then show "case run_events mem [e] (sb, ctx) of (ok, sb', ctx') \<Rightarrow>
      (if ok then sb_rep sb' (bs @ sep fs @ str) \<and> ctx_rep ctx' (advance fs) else \<exists>n. sb_rep sb' (bs @ take n (sep fs @ str))) \<and>
      ((\<forall>i. mem i) \<longrightarrow> ok)"
    using ctx_rep_advance [OF rep(2)] by (cases ok) (simp_all add: assms(2) f)
qed

lemma runs_start:
  assumes "length fs < 128"
    and "\<And>sb ctx. handle_event mem e (sb, ctx) =
      (let (ok, sb) = and_then (emit_separator mem ctx sb) (strbuf_append_char mem c)
       in if \<not> ok then (False, sb, ctx) else let (ok, ctx) = context_push ctx ty in (ok, sb, ctx))"
  shows "runs mem [e] fs (fs @ [\<lparr>fr_type = ty, fr_count = 0\<rparr>]) (sep fs @ [c])"
  unfolding runs_def
proof (intro allI impI)
  fix sb bs ctx assume rep: "sb_rep sb bs" "ctx_rep ctx fs" and fits: "length bs + length (sep fs @ [c]) + 1 < 2 ^ 64"
  obtain ok sb' where f: "and_then (emit_separator mem ctx sb) (strbuf_append_char mem c) = (ok, sb')" by fastforce
  note appendsD [OF appends_then [OF appends_separator [OF rep(2)] appends_char] rep(1) fits f]
  then show "case run_events mem [e] (sb, ctx) of (ok, sb', ctx') \<Rightarrow>
      (if ok then sb_rep sb' (bs @ sep fs @ [c]) \<and> ctx_rep ctx' (fs @ [\<lparr>fr_type = ty, fr_count = 0\<rparr>])
       else \<exists>n. sb_rep sb' (bs @ take n (sep fs @ [c]))) \<and> ((\<forall>i. mem i) \<longrightarrow> ok)"
    using ctx_rep_push [OF rep(2) assms(1), of ty] by (cases ok) (simp_all add: assms(2) f split_def)
qed

lemma runs_stop:
  assumes "\<And>sb ctx. handle_event mem e (sb, ctx) =
      (let ctx = context_pop ctx; (ok, sb) = strbuf_append_char mem c sb
       in if \<not> ok then (False, sb, ctx) else (True, sb, advance_context ctx))"
  shows "runs mem [e] (fs @ [f]) (advance fs) [c]"
  unfolding runs_def
proof (intro allI impI)
  fix sb bs ctx assume rep: "sb_rep sb bs" "ctx_rep ctx (fs @ [f])" and fits: "length bs + length [c] + 1 < 2 ^ 64"
  obtain ok sb' where e: "strbuf_append_char mem c sb = (ok, sb')" by fastforce
  note appendsD [OF appends_char rep(1) fits e]
  then show "case run_events mem [e] (sb, ctx) of (ok, sb', ctx') \<Rightarrow>
      (if ok then sb_rep sb' (bs @ [c]) \<and> ctx_rep ctx' (advance fs) else \<exists>n. sb_rep sb' (bs @ take n [c])) \<and>
      ((\<forall>i. mem i) \<longrightarrow> ok)"
    using ctx_rep_advance [OF ctx_rep_pop [OF rep(2)]] by (cases ok) (simp_all add: assms e)
qed


section \<open>Documents\<close>

datatype node = Scalar "u8 list" | Alias | Seq "node list" | Map "(node \<times> node) list"

fun events :: "node \<Rightarrow> yaml_event list" where
  "events (Scalar v) = [YAML_SCALAR v]"
| "events Alias = [YAML_ALIAS]"
| "events (Seq xs) = [YAML_SEQUENCE_START] @ concat (map events xs) @ [YAML_SEQUENCE_END]"
| "events (Map kvs) = [YAML_MAPPING_START] @ concat (map (\<lambda>(k, v). events k @ events v) kvs) @ [YAML_MAPPING_END]"

fun join :: "u8 list list \<Rightarrow> u8 list" where
  "join [] = []"
| "join (x # xs) = x @ concat (map (\<lambda>y. 0x2c # y) xs)"

fun json_text :: "node \<Rightarrow> u8 list" where
  "json_text (Scalar v) = json_string v"
| "json_text Alias = [0x6e, 0x75, 0x6c, 0x6c]"
| "json_text (Seq xs) = [0x5b] @ join (map json_text xs) @ [0x5d]"
| "json_text (Map kvs) = [0x7b] @ join (map (\<lambda>(k, v). json_text k @ [0x3a] @ json_text v) kvs) @ [0x7d]"

fun height :: "node \<Rightarrow> nat" where
  "height (Scalar v) = 0"
| "height Alias = 0"
| "height (Seq xs) = Suc (foldr max (map height xs) 0)"
| "height (Map kvs) = Suc (foldr max (map (\<lambda>(k, v). max (height k) (height v)) kvs) 0)"

text \<open>No collection has \<^verbatim>\<open>2^31\<close> or more entries, the range of the \<^verbatim>\<open>int\<close> that counts them.\<close>

fun countable :: "node \<Rightarrow> bool" where
  "countable (Scalar v) = True"
| "countable Alias = True"
| "countable (Seq xs) = (length xs < 2 ^ 31 \<and> list_all countable xs)"
| "countable (Map kvs) = (length kvs < 2 ^ 31 \<and> list_all (\<lambda>(k, v). countable k \<and> countable v) kvs)"


lemma sint_count: "k < 2 ^ 31 \<Longrightarrow> 0 < sint (of_nat k :: u32) \<longleftrightarrow> 0 < k"
proof -
  assume "k < 2 ^ 31"
  then have "sint (of_nat k :: u32) = int k"
    by (simp add: signed_of_nat signed_take_bit_int_eq_self)
  then show ?thesis by simp
qed

abbreviation (input) frame :: "context_type_t \<Rightarrow> nat \<Rightarrow> context_frame_t" where
  "frame ty k \<equiv> \<lparr>fr_type = ty, fr_count = of_nat k\<rparr>"

lemma frame_steps:
  "advance (fs @ [frame CTX_SEQUENCE k]) = fs @ [frame CTX_SEQUENCE (Suc k)]"
  "advance (fs @ [frame CTX_MAPPING_KEY k]) = fs @ [frame CTX_MAPPING_VALUE k]"
  "advance (fs @ [frame CTX_MAPPING_VALUE k]) = fs @ [frame CTX_MAPPING_KEY (Suc k)]"
  "k < 2 ^ 31 \<Longrightarrow> sep (fs @ [frame CTX_SEQUENCE k]) = (if 0 < k then [0x2c] else [])"
  "k < 2 ^ 31 \<Longrightarrow> sep (fs @ [frame CTX_MAPPING_KEY k]) = (if 0 < k then [0x2c] else [])"
  "sep (fs @ [frame CTX_MAPPING_VALUE k]) = [0x3a]"
  using sint_count [of k] by (simp_all add: advance_def frame_advance_def sep_def frame_sep_def add.commute)

fun commas :: "nat \<Rightarrow> u8 list list \<Rightarrow> u8 list" where
  "commas k [] = []"
| "commas k (x # xs) = ((if 0 < k then [0x2c] else []) @ x) @ commas (Suc k) xs"

lemma commas_join: "commas 0 xs = join xs"
proof -
  have "commas (Suc k) xs = concat (map (\<lambda>y. 0x2c # y) xs)" for k xs
    by (induction xs arbitrary: k) auto
  then show ?thesis by (cases xs) auto
qed

definition node_runs :: "mem \<Rightarrow> node \<Rightarrow> bool" where
  "node_runs mem x \<longleftrightarrow>
     (\<forall>fs. length fs + height x \<le> 128 \<longrightarrow> runs mem (events x) fs (advance fs) (sep fs @ json_text x))"

lemma node_runsD:
  "node_runs mem x \<Longrightarrow> length fs + height x \<le> 128 \<Longrightarrow> runs mem (events x) fs (advance fs) (sep fs @ json_text x)"
  by (simp add: node_runs_def)

lemma runs_items:
  assumes "\<And>x. x \<in> set xs \<Longrightarrow> node_runs mem x" "Suc (length fs + foldr max (map height xs) 0) \<le> 128" "k + length xs < 2 ^ 31"
  shows "runs mem (concat (map events xs)) (fs @ [frame CTX_SEQUENCE k]) (fs @ [frame CTX_SEQUENCE (k + length xs)])
    (commas k (map json_text xs))"
  using assms
proof (induction xs arbitrary: k)
  case Nil
  show ?case using runs_nil by simp
next
  case (Cons x xs)
  have h: "length (fs @ [frame CTX_SEQUENCE k]) + height x \<le> 128" "node_runs mem x" "k < 2 ^ 31" using Cons.prems by simp_all
  from node_runsD [OF h(2,1)]
  have "runs mem (events x) (fs @ [frame CTX_SEQUENCE k]) (fs @ [frame CTX_SEQUENCE (Suc k)])
      ((if 0 < k then [0x2c] else []) @ json_text x)"
    by (simp only: frame_steps(1) frame_steps(4) [OF h(3)])
  moreover have "runs mem (concat (map events xs)) (fs @ [frame CTX_SEQUENCE (Suc k)])
      (fs @ [frame CTX_SEQUENCE (Suc k + length xs)]) (commas (Suc k) (map json_text xs))"
    using Cons.prems by (intro Cons.IH) auto
  ultimately show ?case using runs_append by fastforce
qed

lemma runs_pairs:
  assumes "\<And>k v. (k, v) \<in> set kvs \<Longrightarrow> node_runs mem k \<and> node_runs mem v"
    and "Suc (length fs + foldr max (map (\<lambda>(k, v). max (height k) (height v)) kvs) 0) \<le> 128" "c + length kvs < 2 ^ 31"
  shows "runs mem (concat (map (\<lambda>(k, v). events k @ events v) kvs)) (fs @ [frame CTX_MAPPING_KEY c])
    (fs @ [frame CTX_MAPPING_KEY (c + length kvs)]) (commas c (map (\<lambda>(k, v). json_text k @ [0x3a] @ json_text v) kvs))"
  using assms
proof (induction kvs arbitrary: c)
  case Nil
  show ?case using runs_nil by simp
next
  case (Cons kv kvs)
  obtain k v where kv: "kv = (k, v)" by fastforce
  have h: "length (fs @ [frame ty c]) + height k \<le> 128" "length (fs @ [frame ty c]) + height v \<le> 128" for ty
    using Cons.prems(2) kv by simp_all
  have n: "node_runs mem k" "node_runs mem v" using Cons.prems(1) kv by auto
  have c: "c < 2 ^ 31" using Cons.prems(3) by simp
  from node_runsD [OF n(1) h(1) [of CTX_MAPPING_KEY]]
  have "runs mem (events k) (fs @ [frame CTX_MAPPING_KEY c]) (fs @ [frame CTX_MAPPING_VALUE c])
      ((if 0 < c then [0x2c] else []) @ json_text k)"
    by (simp only: frame_steps(2) frame_steps(5) [OF c])
  moreover from node_runsD [OF n(2) h(2) [of CTX_MAPPING_VALUE]]
  have "runs mem (events v) (fs @ [frame CTX_MAPPING_VALUE c]) (fs @ [frame CTX_MAPPING_KEY (Suc c)])
      ([0x3a] @ json_text v)"
    by (simp only: frame_steps(3,6))
  ultimately have one: "runs mem (events k @ events v) (fs @ [frame CTX_MAPPING_KEY c]) (fs @ [frame CTX_MAPPING_KEY (Suc c)])
      (((if 0 < c then [0x2c] else []) @ json_text k) @ [0x3a] @ json_text v)"
    by (rule runs_append)
  have "runs mem (concat (map (\<lambda>(k, v). events k @ events v) kvs)) (fs @ [frame CTX_MAPPING_KEY (Suc c)])
      (fs @ [frame CTX_MAPPING_KEY (Suc c + length kvs)])
      (commas (Suc c) (map (\<lambda>(k, v). json_text k @ [0x3a] @ json_text v) kvs))"
    using Cons.prems kv by (intro Cons.IH) auto
  from runs_append [OF one this] show ?case by (simp add: kv)
qed

lemma node_runs: "countable x \<Longrightarrow> node_runs mem x"
proof (induction x rule: events.induct)
  case (1 v)
  show ?case
    using runs_leaf [OF appends_json_string, of mem "YAML_SCALAR v" v] by (simp add: node_runs_def handle_event_def)
next
  case 2
  show ?case
    using runs_leaf [OF appends_append, of mem YAML_ALIAS "[0x6e, 0x75, 0x6c, 0x6c]"]
    by (simp add: node_runs_def handle_event_def)
next
  case (3 xs)
  have n: "node_runs mem x" if "x \<in> set xs" for x using that 3 by (simp add: list_all_iff)
  have l: "0 + length xs < 2 ^ 31" using 3 by simp
  show ?case
    unfolding node_runs_def
  proof (intro allI impI)
    fix fs :: "context_frame_t list" assume h: "length fs + height (Seq xs) \<le> 128"
    have a: "runs mem [YAML_SEQUENCE_START] fs (fs @ [frame CTX_SEQUENCE 0]) (sep fs @ [0x5b])"
      using runs_start [of fs mem YAML_SEQUENCE_START "0x5b" CTX_SEQUENCE] h by (simp add: handle_event_def)
    have b: "runs mem (concat (map events xs)) (fs @ [frame CTX_SEQUENCE 0]) (fs @ [frame CTX_SEQUENCE (0 + length xs)])
        (join (map json_text xs))"
      using runs_items [OF n _ l] h by (simp add: commas_join)
    have c: "runs mem [YAML_SEQUENCE_END] (fs @ [frame CTX_SEQUENCE (0 + length xs)]) (advance fs) [0x5d]"
      by (rule runs_stop) (simp add: handle_event_def)
    show "runs mem (events (Seq xs)) fs (advance fs) (sep fs @ json_text (Seq xs))"
      using runs_append [OF a runs_append [OF b c]] by simp
  qed
next
  case (4 kvs)
  have n: "node_runs mem k \<and> node_runs mem v" if "(k, v) \<in> set kvs" for k v using that 4 by (fastforce simp: list_all_iff)
  have l: "0 + length kvs < 2 ^ 31" using 4 by simp
  show ?case
    unfolding node_runs_def
  proof (intro allI impI)
    fix fs :: "context_frame_t list" assume h: "length fs + height (Map kvs) \<le> 128"
    have a: "runs mem [YAML_MAPPING_START] fs (fs @ [frame CTX_MAPPING_KEY 0]) (sep fs @ [0x7b])"
      using runs_start [of fs mem YAML_MAPPING_START "0x7b" CTX_MAPPING_KEY] h by (simp add: handle_event_def)
    have b: "runs mem (concat (map (\<lambda>(k, v). events k @ events v) kvs)) (fs @ [frame CTX_MAPPING_KEY 0])
        (fs @ [frame CTX_MAPPING_KEY (0 + length kvs)]) (join (map (\<lambda>(k, v). json_text k @ [0x3a] @ json_text v) kvs))"
      using runs_pairs [OF n _ l] h by (simp add: commas_join)
    have c: "runs mem [YAML_MAPPING_END] (fs @ [frame CTX_MAPPING_KEY (0 + length kvs)]) (advance fs) [0x7d]"
      by (rule runs_stop) (simp add: handle_event_def)
    show "runs mem (events (Map kvs)) fs (advance fs) (sep fs @ json_text (Map kvs))"
      using runs_append [OF a runs_append [OF b c]] by simp
  qed
qed

section \<open>Whole streams\<close>

definition doc_events :: "node \<Rightarrow> yaml_event list" where
  "doc_events x = [YAML_DOCUMENT_START] @ events x @ [YAML_DOCUMENT_END]"

lemma runs_quiet:
  assumes "e \<in> {YAML_STREAM_START, YAML_STREAM_END, YAML_DOCUMENT_START, YAML_DOCUMENT_END}"
  shows "runs mem [e] fs fs []"
  using assms by (auto simp: runs_def handle_event_def)

lemma runs_docs:
  assumes "\<forall>x\<in>set docs. countable x \<and> height x \<le> 128"
  shows "runs mem (concat (map doc_events docs)) [] [] (concat (map json_text docs))"
  using assms
proof (induction docs)
  case Nil
  show ?case by (simp add: runs_nil)
next
  case (Cons x docs)
  have "runs mem (events x) [] (advance []) (sep [] @ json_text x)"
    using node_runs [of x mem] Cons.prems by (simp add: node_runs_def)
  then have "runs mem (events x) [] [] (json_text x)" by (simp add: advance_def sep_def)
  moreover have "runs mem [YAML_DOCUMENT_START] [] [] []" "runs mem [YAML_DOCUMENT_END] [] [] []" by (simp_all add: runs_quiet)
  ultimately have "runs mem (doc_events x) [] [] ([] @ json_text x @ [])"
    unfolding doc_events_def by (metis runs_append)
  from runs_append [OF this Cons.IH] Cons.prems show ?case by simp
qed

text \<open>A parser state from which libyaml produces these events in order.\<close>

fun yields :: "('p \<Rightarrow> (yaml_event \<times> 'p) option) \<Rightarrow> 'p \<Rightarrow> yaml_event list \<Rightarrow> bool" where
  "yields parse p [] = True"
| "yields parse p (e # es) = (case parse p of None \<Rightarrow> False | Some (e', p') \<Rightarrow> e' = e \<and> yields parse p' es)"

lemma yaml_loop_run:
  assumes "yields parse p (es @ [YAML_STREAM_END])" "\<forall>e\<in>set es. e \<noteq> YAML_NO_EVENT \<and> e \<noteq> YAML_STREAM_END"
  shows "yaml_loop parse mem p s = Some (case run_events mem es s of (ok, s) \<Rightarrow> (ok, fst s))"
  using assms
proof (induction es arbitrary: p s)
  case Nil
  then show ?case
    by (subst yaml_loop.simps) (auto simp: handle_event_def Let_def split: option.splits prod.splits)
next
  case (Cons e es)
  then obtain p' where p: "parse p = Some (e, p')" "yields parse p' (es @ [YAML_STREAM_END])"
    by (auto split: option.splits)
  obtain ok s' where h: "handle_event mem e s = (ok, s')" by (cases "handle_event mem e s")
  show ?case
    using Cons.IH [OF p(2)] Cons.prems(2) p(1) h by (subst yaml_loop.simps) simp
qed


lemma yaml_loop_fails:
  assumes "yields parse p es" "\<forall>e\<in>set es. e \<noteq> YAML_NO_EVENT \<and> e \<noteq> YAML_STREAM_END" "\<not> fst (run_events mem es s)"
  shows "yaml_loop parse mem p s = Some (False, fst (snd (run_events mem es s)))"
  using assms
proof (induction es arbitrary: p s)
  case (Cons e es)
  then obtain p' where p: "parse p = Some (e, p')" "yields parse p' es"
    by (auto split: option.splits)
  obtain ok s' where h: "handle_event mem e s = (ok, s')" by (cases "handle_event mem e s")
  show ?case
    using Cons.IH [OF p(2)] Cons.prems(2,3) p(1) h by (subst yaml_loop.simps) (cases ok; simp)
qed simp

lemma events_plain: "e \<in> set (events x) \<Longrightarrow> e \<noteq> YAML_NO_EVENT \<and> e \<noteq> YAML_STREAM_END"
  by (induction x rule: events.induct) fastforce+

lemma doc_events_plain: "e \<in> set (concat (map doc_events docs)) \<Longrightarrow> e \<noteq> YAML_NO_EVENT \<and> e \<noteq> YAML_STREAM_END"
  by (auto simp: doc_events_def dest: events_plain split: if_splits)

section \<open>Reading JSON strings back\<close>

definition unhex :: "u8 \<Rightarrow> nat option" where
  "unhex c = (if 0x30 \<le> c \<and> c \<le> 0x39 then Some (unat c - 0x30)
     else if 0x61 \<le> c \<and> c \<le> 0x66 then Some (unat c - 0x61 + 10) else None)"

definition unescape_char :: "u8 \<Rightarrow> u8 option" where
  "unescape_char e = (if e = 0x22 then Some 0x22 else if e = 0x5c then Some 0x5c else if e = 0x62 then Some 0x08
     else if e = 0x66 then Some 0x0c else if e = 0x6e then Some 0x0a else if e = 0x72 then Some 0x0d
     else if e = 0x74 then Some 0x09 else None)"

text \<open>A reader for the body of a JSON string, up to and including the closing quote.\<close>

fun read_string :: "u8 list \<Rightarrow> (u8 list \<times> u8 list) option" where
  "read_string [] = None"
| "read_string (c # cs) =
    (if c = 0x22 then Some ([], cs)
     else if c < 0x20 then None
     else if c = 0x5c then
       (case cs of
          e # cs1 \<Rightarrow>
            if e = 0x75 then
              (case cs1 of
                 a # b # h # l # cs2 \<Rightarrow>
                   if a = 0x30 \<and> b = 0x30 then
                     (case (unhex h, unhex l) of
                        (Some x, Some y) \<Rightarrow> map_option (\<lambda>(s, r). (of_nat (16 * x + y) # s, r)) (read_string cs2)
                      | _ \<Rightarrow> None)
                   else None
               | _ \<Rightarrow> None)
            else (case unescape_char e of
                    Some d \<Rightarrow> map_option (\<lambda>(s, r). (d # s, r)) (read_string cs1)
                  | None \<Rightarrow> None)
        | [] \<Rightarrow> None)
     else map_option (\<lambda>(s, r). (c # s, r)) (read_string cs))"

lemma unhex_hex_digit: "n < 16 \<Longrightarrow> unhex (hex_digit n) = Some n"
proof -
  have "\<forall>n\<in>set [0..<16]. unhex (hex_digit n) = Some n" by code_simp
  then show "n < 16 \<Longrightarrow> ?thesis" by simp
qed

lemma hex_digit_nonzero: "n < 16 \<Longrightarrow> hex_digit n \<noteq> 0"
proof -
  have "\<forall>n\<in>set [0..<16]. hex_digit n \<noteq> 0" by code_simp
  then show "n < 16 \<Longrightarrow> ?thesis" by simp
qed

lemma unat_lt_256: "unat (c::u8) < 256"
  using unsigned_less [of c] by simp

lemma read_escape: "read_string (json_escape c @ cs) = map_option (\<lambda>(s, r). (c # s, r)) (read_string cs)"
proof (cases "c \<in> {0x22, 0x5c, 0x08, 0x0c, 0x0a, 0x0d, 0x09}")
  case True
  then show ?thesis by (auto simp: json_escape_def unescape_char_def)
next
  case False
  show ?thesis
  proof (cases "c < 0x20")
    case True
    have d: "unat c div 16 < 16" "unat c mod 16 < 16" using unat_lt_256 [of c] by (simp_all add: div_less_iff_less_mult)
    have "(of_nat (16 * (unat c div 16) + unat c mod 16) :: u8) = c" by simp
    moreover have e: "json_escape c = [0x5c, 0x75, 0x30, 0x30, hex_digit (unat c div 16), hex_digit (unat c mod 16)]"
      using False True by (auto simp: json_escape_def)
    ultimately show ?thesis
      unfolding e append_Cons append_Nil by (subst read_string.simps) (simp only: list.case unhex_hex_digit [OF d(1)]
          unhex_hex_digit [OF d(2)] prod.case option.case, simp)
  next
    case f: False
    then show ?thesis using False by (auto simp: json_escape_def)
  qed
qed

lemma json_text_nonzero: "0 \<notin> set (json_text x)"
proof -
  have esc: "0 \<notin> set (json_escape c)" for c
    using hex_digit_nonzero [of "unat c div 16"] hex_digit_nonzero [of "unat c mod 16"] unat_lt_256 [of c]
    by (auto simp: json_escape_def div_less_iff_less_mult)
  then have str: "0 \<notin> set (json_string v)" for v by (auto simp: json_string_def)
  have jn: "0 \<notin> set (join xs)" if "\<forall>x\<in>set xs. 0 \<notin> set x" for xs using that by (cases xs) auto
  show ?thesis
    by (induction x rule: json_text.induct) (auto simp: str intro!: jn)
qed


section \<open>Invariants for arbitrary event sources\<close>

definition ctx_ok :: "context_t \<Rightarrow> bool" where
  "ctx_ok ctx \<longleftrightarrow> length (ctx_stack ctx) = MAX_DEPTH \<and> ctx_depth ctx \<le> MAX_DEPTH"

lemma ctx_ok_steps:
  "ctx_ok ctx \<Longrightarrow> ctx_ok (advance_context ctx)" "ctx_ok ctx \<Longrightarrow> ctx_ok (context_pop ctx)"
  "ctx_ok ctx \<Longrightarrow> ctx_ok (snd (context_push ctx ty))"
  by (auto simp: ctx_ok_def advance_context_def context_pop_def context_push_def set_top_def
      split: option.splits context_type_t.splits)

lemma handle_event_ctx_ok: "ctx_ok (snd s) \<Longrightarrow> ctx_ok (snd (snd (handle_event mem e s)))"
  by (cases e) (auto simp: handle_event_def split_def Let_def ctx_ok_steps)

lemma ensure_block: "sb_data sb \<noteq> [] \<Longrightarrow> sb_data (snd (strbuf_ensure mem sb n)) \<noteq> []"
proof -
  assume d: "sb_data sb \<noteq> []"
  define needed where "needed = sb_len sb + n + 1"
  have "\<not> needed \<le> sb_cap sb \<Longrightarrow> 0 < unat (if sb_cap sb * 2 < needed then needed else sb_cap sb * 2)"
    by (auto simp: word_less_nat_alt word_le_nat_alt)
  then show ?thesis
    using d by (auto simp: strbuf_ensure_def needed_def [symmetric] Let_def)
qed

lemma append_block: "sb_data sb \<noteq> [] \<Longrightarrow> sb_data (snd (strbuf_append mem str sb)) \<noteq> []"
  using ensure_block [of sb mem "of_nat (length str)"]
  by (auto simp: strbuf_append_def split_def Let_def blit_def)

lemma char_block: "sb_data sb \<noteq> [] \<Longrightarrow> sb_data (snd (strbuf_append_char mem c sb)) \<noteq> []"
  by (simp add: strbuf_append_char_def append_block)

lemma and_then_block:
  "sb_data (snd r) \<noteq> [] \<Longrightarrow> (\<And>sb. sb_data sb \<noteq> [] \<Longrightarrow> sb_data (snd (f sb)) \<noteq> []) \<Longrightarrow> sb_data (snd (and_then r f)) \<noteq> []"
  by (simp add: and_then_def)

lemma escaped_block: "sb_data sb \<noteq> [] \<Longrightarrow> sb_data (snd (append_escaped mem str sb)) \<noteq> []"
  by (induction str arbitrary: sb) (simp_all add: and_then_block append_block)

lemma json_string_block: "sb_data sb \<noteq> [] \<Longrightarrow> sb_data (snd (strbuf_append_json_string mem str sb)) \<noteq> []"
  by (simp add: strbuf_append_json_string_def and_then_block char_block escaped_block)

lemma separator_block: "sb_data sb \<noteq> [] \<Longrightarrow> sb_data (snd (emit_separator mem ctx sb)) \<noteq> []"
  by (auto simp: emit_separator_def char_block split: option.splits context_type_t.splits)

lemma handle_event_block: "sb_data (fst s) \<noteq> [] \<Longrightarrow> sb_data (fst (snd (handle_event mem e s))) \<noteq> []"
  by (cases e) (auto simp: handle_event_def split_def Let_def and_then_block separator_block append_block char_block
      json_string_block)

lemma yaml_loop_block:
  assumes "yaml_loop parse mem p s = Some r"
  shows "sb_data (fst s) \<noteq> [] \<longrightarrow> sb_data (snd r) \<noteq> []"
  using _ assms
proof (rule yaml_loop.raw_induct [where P = "\<lambda>parse mem p s r. sb_data (fst s) \<noteq> [] \<longrightarrow> sb_data (snd r) \<noteq> []"], goal_cases)
  case (1 loop parse mem p s r)
  note ih = 1(1) and eq = 1(2)
  show ?case
  proof (intro impI)
    assume ne: "sb_data (fst s) \<noteq> []"
    show "sb_data (snd r) \<noteq> []"
    proof (cases "parse p")
      case None
      then show ?thesis using eq ne by auto
    next
      case (Some q)
      obtain e p' where q: "q = (e, p')" by fastforce
      obtain ok s' where h: "handle_event mem e s = (ok, s')" by (cases "handle_event mem e s")
      have ne': "sb_data (fst s') \<noteq> []" using handle_event_block [OF ne, of mem e] h by simp
      show ?thesis
        using eq ne' ih [of parse mem p' s' r] by (auto simp: Some q h split: if_splits)
    qed
  qed
qed

lemma yaml_to_json_docs:
  assumes "init yaml = Some p"
    and "yields parse p ([YAML_STREAM_START] @ concat (map doc_events docs) @ [YAML_STREAM_END])"
    and "\<forall>x\<in>set docs. countable x \<and> height x \<le> 128"
    and "sb_rep sb []" "length (concat (map json_text docs)) + 1 < 2 ^ 64" "length (ctx_stack ctx) = 128"
  shows "\<exists>ok sb'. yaml_to_json init parse ctx mem yaml sb = Some (ok, sb') \<and>
    (ok \<longrightarrow> sb_rep sb' (concat (map json_text docs))) \<and> ((\<forall>i. mem i) \<longrightarrow> ok)"
proof -
  let ?es = "[YAML_STREAM_START] @ concat (map doc_events docs)"
  have "yields parse p (?es @ [YAML_STREAM_END])" "\<forall>e\<in>set ?es. e \<noteq> YAML_NO_EVENT \<and> e \<noteq> YAML_STREAM_END"
    using assms(2) doc_events_plain [of _ docs] by auto
  note loop = yaml_loop_run [OF this, of mem "(sb, context_init ctx)"]
  have c: "ctx_rep (context_init ctx) []" using assms(6) by (simp add: ctx_rep_def context_init_def)
  have "runs mem ?es [] [] ([] @ concat (map json_text docs))"
    using runs_append [OF runs_quiet runs_docs [OF assms(3)], of YAML_STREAM_START mem] by simp
  moreover obtain ok sb' ctx' where r: "run_events mem ?es (sb, context_init ctx) = (ok, sb', ctx')" by (metis prod_cases3)
  ultimately have "(ok \<longrightarrow> sb_rep sb' (concat (map json_text docs))) \<and> ((\<forall>i. mem i) \<longrightarrow> ok)"
    using assms(4,5) c unfolding runs_def by fastforce
  then show ?thesis using loop r assms(1) by (simp add: yaml_to_json_def)
qed

section \<open>Properties\<close>

text \<open>
  C9. Conversion of a YAML stream: for every source of events that yields documents nested at most 128 deep, the event loop
  ends; whenever it reports success the buffer holds, with its terminating zero, exactly the JSON texts of the documents one
  after the other; and it fails only if a memory allocation fails. (With one document that is its JSON text; with several
  there is nothing between the texts.)\<close>

theorem yaml_to_json_correct:
  assumes "init yaml = Some p"
    and "yields parse p ([YAML_STREAM_START] @ concat (map doc_events docs) @ [YAML_STREAM_END])"
    and "\<forall>x\<in>set docs. countable x \<and> height x \<le> 128"
    and "sb_rep sb []" "length (concat (map json_text docs)) + 1 < 2 ^ 64" "length (ctx_stack ctx) = 128"
  shows "\<exists>ok sb'. yaml_to_json init parse ctx mem yaml sb = Some (ok, sb') \<and>
    (ok \<longrightarrow> sb_rep sb' (concat (map json_text docs))) \<and> ((\<forall>i. mem i) \<longrightarrow> ok)"
  by (rule yaml_to_json_docs [where init = init and yaml = yaml and docs = docs, OF assms])

text \<open>A parser that replays a list of events, and a buffer fresh from initialisation, for concrete runs.\<close>

definition replay :: "yaml_event list \<Rightarrow> (yaml_event \<times> yaml_event list) option" where
  "replay es = (case es of [] \<Rightarrow> None | e # es \<Rightarrow> Some (e, es))"

lemma yields_replay: "yields replay (es @ rest) es"
  by (induction es) (simp_all add: replay_def)

definition fresh_buf :: strbuf_t where
  "fresh_buf = \<lparr>sb_data = replicate 256 0, sb_len = 0, sb_cap = 256, sb_allocs = 1\<rparr>"

lemma fresh_buf_rep: "sb_rep fresh_buf []"
  by (simp add: sb_rep_def fresh_buf_def)

definition fresh_ctx :: context_t where
  "fresh_ctx = \<lparr>ctx_stack = replicate 128 \<lparr>fr_type = CTX_NONE, fr_count = 0\<rparr>, ctx_depth = 0\<rparr>"

definition sample_doc :: node where
  "sample_doc = Map [(Scalar [0x61], Seq [Scalar [0x31], Scalar [0x22]]), (Scalar [0x62], Alias)]"

definition sample_stream :: "yaml_event list" where
  "sample_stream = [YAML_STREAM_START] @ concat (map doc_events [sample_doc]) @ [YAML_STREAM_END]"

lemma yields_sample: "yields replay sample_stream sample_stream"
  using yields_replay [of sample_stream "[]"] by simp

lemma sample_doc_small: "\<forall>x\<in>set [sample_doc]. countable x \<and> height x \<le> 128" "length (json_text sample_doc) < 100"
  by (simp_all add: sample_doc_def json_string_def json_escape_def)

theorem yaml_to_json_correct_witness:
  "\<exists>sb'. yaml_to_json (\<lambda>_. Some sample_stream) replay fresh_ctx (\<lambda>_. True) [0x61] fresh_buf = Some (True, sb') \<and>
    sb_rep sb' (json_text sample_doc)"
  using yaml_to_json_correct [of "\<lambda>_. Some sample_stream" "[0x61]" sample_stream replay "[sample_doc]" fresh_buf fresh_ctx
      "\<lambda>_. True"] yields_sample sample_doc_small fresh_buf_rep
  by (auto simp: fresh_ctx_def sample_stream_def)

text \<open>
  C34. JSON strings round trip: reading back the escaped and quoted form of any byte string gives that byte string, whatever
  follows it.\<close>

theorem json_string_roundtrip:
  "read_string (tl (json_string str @ rest)) = Some (str, rest)"
proof -
  have "read_string (concat (map json_escape str) @ 0x22 # rest) = Some (str, rest)"
    by (induction str) (simp_all add: read_escape)
  then show ?thesis by (simp add: json_string_def)
qed

text \<open>
  C35. The escaper appends exactly that form: with enough address space it either succeeds, leaving the old content followed
  by the quoted string and a terminating zero inside the block, or fails because an allocation failed, leaving a prefix.\<close>

theorem append_json_string_correct:
  assumes "sb_rep sb bs" "length bs + length (json_string str) + 1 < 2 ^ 64"
  shows "case strbuf_append_json_string mem str sb of (ok, sb') \<Rightarrow>
    (if ok then sb_rep sb' (bs @ json_string str) else \<exists>n. sb_rep sb' (bs @ take n (json_string str))) \<and>
    ((\<forall>i. mem i) \<longrightarrow> ok)"
  using appends_json_string [of mem str, unfolded appends_def, rule_format, OF assms] by simp

theorem append_json_string_correct_witness:
  "case strbuf_append_json_string (\<lambda>_. True) [0x41, 0x0a] fresh_buf of (ok, sb') \<Rightarrow>
     ok \<and> sb_rep sb' (json_string [0x41, 0x0a])"
  using append_json_string_correct [OF fresh_buf_rep, of "[0x41, 0x0a]" "\<lambda>_. True"]
  by (auto simp: json_string_def json_escape_def)




lemma runs_nested:
  "length fs + k \<le> 128 \<Longrightarrow> \<exists>gs str. length gs = length fs + k \<and> length str \<le> 2 * k \<and>
     runs mem (replicate k YAML_SEQUENCE_START) fs gs str"
proof (induction k)
  case 0
  show ?case using runs_nil by (intro exI [of _ fs] exI [of _ "[]"]) simp
next
  case (Suc k)
  then obtain gs str where g: "length gs = length fs + k" "length str \<le> 2 * k" "runs mem (replicate k YAML_SEQUENCE_START) fs gs str"
    by auto
  have "runs mem [YAML_SEQUENCE_START] gs (gs @ [frame CTX_SEQUENCE 0]) (sep gs @ [0x5b])"
    using runs_start [of gs mem YAML_SEQUENCE_START "0x5b" CTX_SEQUENCE] g(1) Suc.prems by (simp add: handle_event_def)
  from runs_append [OF g(3) this]
  have "runs mem (replicate (Suc k) YAML_SEQUENCE_START) fs (gs @ [frame CTX_SEQUENCE 0]) (str @ sep gs @ [0x5b])"
    by (simp add: replicate_append_same [symmetric] del: replicate_Suc) (simp add: replicate_append_same)
  moreover have "length (sep gs) \<le> 1" by (simp add: sep_def frame_sep_def split: context_type_t.splits)
  ultimately show ?case using g(1,2) by (intro exI [of _ "gs @ [frame CTX_SEQUENCE 0]"] exI [of _ "str @ sep gs @ [0x5b]"]) simp
qed

text \<open>
  Nesting beyond 128 levels is refused: a stream that opens 129 sequences makes the conversion return failure, with the
  stack intact, whatever follows.\<close>

theorem deep_nesting_rejected:
  assumes "init yaml = Some p"
    and "yields parse p (YAML_STREAM_START # YAML_DOCUMENT_START # replicate 129 YAML_SEQUENCE_START)"
    and "sb_rep sb []" "length (ctx_stack ctx) = 128"
  shows "\<exists>sb'. yaml_to_json init parse ctx mem yaml sb = Some (False, sb')"
proof -
  let ?pre = "YAML_STREAM_START # YAML_DOCUMENT_START # replicate 128 YAML_SEQUENCE_START"
  let ?es = "?pre @ [YAML_SEQUENCE_START]"
  have es: "YAML_STREAM_START # YAML_DOCUMENT_START # replicate 129 YAML_SEQUENCE_START = ?es"
    by (simp add: replicate_append_same [symmetric] numeral_eq_Suc)
  have c: "ctx_rep (context_init ctx) []" using assms(4) by (simp add: ctx_rep_def context_init_def)
  obtain gs str where g: "length gs = 128" "length str \<le> 256" "runs mem (replicate 128 YAML_SEQUENCE_START) [] gs str"
    using runs_nested [of "[]" 128 mem] by auto
  have "runs mem [YAML_STREAM_START] [] [] []" "runs mem [YAML_DOCUMENT_START] [] [] []" by (simp_all add: runs_quiet)
  from runs_append [OF this(1) runs_append [OF this(2) g(3)]]
  have r: "runs mem ?pre [] gs str" by simp
  obtain ok sb' ctx' where e: "run_events mem ?pre (sb, context_init ctx) = (ok, sb', ctx')" by (metis prod_cases3)
  have "\<not> fst (run_events mem ?es (sb, context_init ctx))"
  proof (cases ok)
    case False
    then show ?thesis using e unfolding run_events_append by simp
  next
    case True
    have "length ([] :: u8 list) + length str + 1 < 2 ^ 64" using g(2) by simp
    with r assms(3) c e True have "ctx_rep ctx' gs" unfolding runs_def by fastforce
    then have "\<not> fst (context_push ctx' CTX_SEQUENCE)" using g(1) by (simp add: ctx_rep_def context_push_def)
    then have "\<not> fst (handle_event mem YAML_SEQUENCE_START (sb', ctx'))"
      by (simp add: handle_event_def split_def Let_def)
    then show ?thesis using e True unfolding run_events_append by (simp add: split_def)
  qed
  from yaml_loop_fails [OF assms(2) [unfolded es] _ this] show ?thesis using assms(1) by (simp add: yaml_to_json_def)
qed

theorem deep_nesting_rejected_witness:
  "\<exists>sb'. yaml_to_json (\<lambda>_. Some (YAML_STREAM_START # YAML_DOCUMENT_START # replicate 129 YAML_SEQUENCE_START)) replay
     fresh_ctx (\<lambda>_. True) [0x5b] fresh_buf = Some (False, sb')"
  using deep_nesting_rejected [of "\<lambda>_. Some (YAML_STREAM_START # YAML_DOCUMENT_START # replicate 129 YAML_SEQUENCE_START)" "[0x5b]"
      "YAML_STREAM_START # YAML_DOCUMENT_START # replicate 129 YAML_SEQUENCE_START" replay fresh_buf fresh_ctx "\<lambda>_. True"]
    yields_replay [of "YAML_STREAM_START # YAML_DOCUMENT_START # replicate 129 YAML_SEQUENCE_START" "[]"] fresh_buf_rep
  by (simp add: fresh_ctx_def)

lemma free_block_live: "sb_data sb \<noteq> [] \<Longrightarrow> free_block (Suc live) sb = live"
  by (simp add: free_block_def strbuf_free_def)

lemma init_block: "strbuf_init mem cap = Some sb \<Longrightarrow> sb_data sb \<noteq> []"
  by (auto simp: strbuf_init_def blit_def split: if_splits)

lemma yaml_to_json_block:
  "yaml_to_json init parse ctx mem yaml sb = Some (ok, sb') \<Longrightarrow> sb_data sb \<noteq> [] \<Longrightarrow> sb_data sb' \<noteq> []"
  using yaml_loop_block by (fastforce simp: yaml_to_json_def split: option.splits)




lemma takeWhile_rep: "sb_rep sb t \<Longrightarrow> 0 \<notin> set t \<Longrightarrow> takeWhile (\<lambda>b. b \<noteq> 0) (sb_data sb) = t"
proof -
  assume r: "sb_rep sb t" and z: "0 \<notin> set t"
  have "sb_data sb = t @ [0] @ drop (length t + 1) (sb_data sb)"
    using r append_take_drop_id [of "length t + 1" "sb_data sb"] by (simp add: sb_rep_def)
  then have "takeWhile (\<lambda>b. b \<noteq> 0) (sb_data sb) = takeWhile (\<lambda>b. b \<noteq> 0) (t @ [0] @ drop (length t + 1) (sb_data sb))"
    by (rule arg_cong)
  also have "\<dots> = t" using z by (subst takeWhile_append2) auto
  finally show ?thesis .
qed

text \<open>
  C36. From Java: when the parser yields one document nested at most 128 deep and the calls of the virtual machine and the
  allocator succeed, the returned string is exactly the JSON text of the document (no zero byte cuts it short), and nothing
  stays pinned or allocated.\<close>

theorem nativeParseYaml_correct:
  assumes "vm_pin_string env y" "init (vm_utf_chars env y) = Some p" "length (vm_utf_chars env y) < 2 ^ 31"
    and "yields parse p ([YAML_STREAM_START] @ doc_events doc @ [YAML_STREAM_END])" "countable doc" "height doc \<le> 128"
    and "length (json_text doc) + 1 < 2 ^ 64" "length (ctx_stack ctx) = 128" "\<forall>i. mem i" "\<forall>t. new_string t"
  shows "nativeParseYaml env init parse ctx mem new_string (Some y) (s, live) = Some (Some (json_text doc), s, live)"
proof -
  define cap :: u64 where "cap = of_nat (if length (vm_utf_chars env y) > 256 then length (vm_utf_chars env y) else 256)"
  have cap: "0 < unat cap" using assms(3) by (auto simp: cap_def unat_of_nat)
  obtain sb where sb: "strbuf_init mem cap = Some sb" using assms(9) by (simp add: strbuf_init_def)
  have docs: "\<forall>x\<in>set [doc]. countable x \<and> height x \<le> 128" using assms(5,6) by simp
  have y: "yields parse p ([YAML_STREAM_START] @ concat (map doc_events [doc]) @ [YAML_STREAM_END])" using assms(4) by simp
  have "length (concat (map json_text [doc])) + 1 < 2 ^ 64" using assms(7) by simp
  from yaml_to_json_docs [where init = init and yaml = "vm_utf_chars env y" and docs = "[doc]", OF assms(2) y docs sb_rep_init [OF cap sb] this assms(8), of mem] assms(9)
  obtain sb' where j: "yaml_to_json init parse ctx mem (vm_utf_chars env y) sb = Some (True, sb')" "sb_rep sb' (json_text doc)"
    by auto
  have "sb_data sb' \<noteq> []" using yaml_to_json_block [OF j(1)] init_block [OF sb] by simp
  then show ?thesis
    using assms(1,10) sb j takeWhile_rep [OF j(2) json_text_nonzero]
    by (simp add: nativeParseYaml_def get_string_def Let_def cap_def [symmetric] free_block_live)
qed

theorem nativeParseYaml_correct_witness:
  "nativeParseYaml (sample_vm [0x61]) (\<lambda>_. Some sample_stream) replay fresh_ctx (\<lambda>_. True) (\<lambda>_. True) (Some 0) (idle, 3) =
   Some (Some (json_text sample_doc), idle, 3)"
  using nativeParseYaml_correct [of "sample_vm [0x61]" 0 "\<lambda>_. Some sample_stream" sample_stream replay sample_doc fresh_ctx
      "\<lambda>_. True" "\<lambda>_. True" idle 3] yields_sample sample_doc_small
  by (auto simp: sample_vm_def fresh_ctx_def sample_stream_def)

end
