(* ===== verification/Memp.thy ===== *)
theory Memp
  imports Prelude
begin

text \<open>
  lwIP's fixed-size memory pools, \<^verbatim>\<open>core/memp.c\<close> as configured by \<^verbatim>\<open>lwipopts.h\<close> (static pools, no overflow or sanity checks, so
  \<^verbatim>\<open>MEMP_SIZE\<close> is 0 and an element starts where its payload does). The free list that \<^verbatim>\<open>desc->tab\<close> heads is the list of its
  element addresses, and an assertion that fails is the result \<open>None\<close>. A step relation lets a client take and give back
  elements in any order; what it can reach never has an element both free and in use.
\<close>

section \<open>Alignment\<close>

definition MEM_ALIGNMENT :: nat where
  "MEM_ALIGNMENT = 8"

text \<open>\<^verbatim>\<open>(x + MEM_ALIGNMENT - 1) & ~(MEM_ALIGNMENT - 1)\<close>, without wrap-around.\<close>

definition LWIP_MEM_ALIGN_SIZE :: "nat \<Rightarrow> nat" where
  "LWIP_MEM_ALIGN_SIZE sz = (sz + MEM_ALIGNMENT - 1) div MEM_ALIGNMENT * MEM_ALIGNMENT"

definition LWIP_MEM_ALIGN :: "nat \<Rightarrow> nat" where
  "LWIP_MEM_ALIGN addr = (addr + MEM_ALIGNMENT - 1) div MEM_ALIGNMENT * MEM_ALIGNMENT"

section \<open>Pools\<close>

datatype memp_t = MEMP_UDP_PCB | MEMP_TCP_PCB | MEMP_TCP_PCB_LISTEN | MEMP_TCP_SEG | MEMP_SYS_TIMEOUT | MEMP_ND6_QUEUE
  | MEMP_PBUF | MEMP_PBUF_POOL

record memp_desc =
  md_size :: nat
  md_num :: nat
  md_base :: nat

definition LWIP_MEMPOOL_DECLARE :: "nat \<Rightarrow> nat \<Rightarrow> nat \<Rightarrow> memp_desc" where
  "LWIP_MEMPOOL_DECLARE num sz base = \<lparr>md_size = LWIP_MEM_ALIGN_SIZE sz, md_num = num, md_base = base\<rparr>"

type_synonym memp_tabs = "memp_t \<Rightarrow> nat list"

fun init_elements :: "nat \<Rightarrow> nat \<Rightarrow> nat \<Rightarrow> nat list \<Rightarrow> nat list" where
  "init_elements 0 sz memp tab = tab"
| "init_elements (Suc i) sz memp tab = init_elements i sz (memp + sz) (memp # tab)"

definition memp_init_pool :: "memp_desc \<Rightarrow> nat list" where
  "memp_init_pool desc = init_elements (md_num desc) (md_size desc) (LWIP_MEM_ALIGN (md_base desc)) []"

definition memp_init :: "(memp_t \<Rightarrow> memp_desc) \<Rightarrow> memp_tabs" where
  "memp_init memp_pools = (\<lambda>t. memp_init_pool (memp_pools t))"

definition do_memp_malloc_pool :: "nat list \<Rightarrow> (nat option \<times> nat list) option" where
  "do_memp_malloc_pool tab =
    (case tab of [] \<Rightarrow> Some (None, [])
     | memp # rest \<Rightarrow> if memp mod MEM_ALIGNMENT = 0 then Some (Some memp, rest) else None)"

definition memp_malloc :: "memp_t \<Rightarrow> memp_tabs \<Rightarrow> (nat option \<times> memp_tabs) option" where
  "memp_malloc t tabs = map_option (\<lambda>(p, tab). (p, tabs(t := tab))) (do_memp_malloc_pool (tabs t))"

definition do_memp_free_pool :: "nat \<Rightarrow> nat list \<Rightarrow> nat list option" where
  "do_memp_free_pool mem tab = (if mem mod MEM_ALIGNMENT = 0 then Some (mem # tab) else None)"

definition memp_free :: "memp_t \<Rightarrow> nat option \<Rightarrow> memp_tabs \<Rightarrow> memp_tabs option" where
  "memp_free t mem tabs =
    (case mem of None \<Rightarrow> Some tabs
     | Some m \<Rightarrow> map_option (\<lambda>tab. tabs(t := tab)) (do_memp_free_pool m (tabs t)))"

section \<open>Reachable pool states\<close>

text \<open>The free list and the set of elements in use. A client gives back only what it holds.\<close>

inductive pool_step :: "nat list \<times> nat set \<Rightarrow> nat list \<times> nat set \<Rightarrow> bool" where
  take: "do_memp_malloc_pool tab = Some (Some m, tab') \<Longrightarrow> pool_step (tab, held) (tab', insert m held)"
| empty: "do_memp_malloc_pool tab = Some (None, tab') \<Longrightarrow> pool_step (tab, held) (tab', held)"
| give: "m \<in> held \<Longrightarrow> do_memp_free_pool m tab = Some tab' \<Longrightarrow> pool_step (tab, held) (tab', held - {m})"

inductive_cases pool_stepE: "pool_step s s'"

definition elements :: "memp_desc \<Rightarrow> nat list" where
  "elements desc = map (\<lambda>i. LWIP_MEM_ALIGN (md_base desc) + i * md_size desc) [0..<md_num desc]"

lemma init_elements_eq: "init_elements n sz a tab = rev (map (\<lambda>i. a + i * sz) [0..<n]) @ tab"
proof (induction n arbitrary: a tab)
  case (Suc n)
  have "map (\<lambda>i. a + sz + i * sz) [0..<n] = map (\<lambda>i. a + i * sz) [1..<Suc n]"
    unfolding map_Suc_upt [symmetric] One_nat_def by simp
  then have "init_elements (Suc n) sz a tab = rev (map (\<lambda>i. a + i * sz) [1..<Suc n]) @ a # tab"
    using Suc by simp
  also have "\<dots> = rev (map (\<lambda>i. a + i * sz) [0..<Suc n]) @ tab"
    by (subst (2) upt_conv_Cons) simp_all
  finally show ?case .
qed simp

lemma memp_init_pool_eq: "memp_init_pool desc = rev (elements desc)"
  by (simp add: memp_init_pool_def elements_def init_elements_eq)

lemma align_dvd: "MEM_ALIGNMENT dvd LWIP_MEM_ALIGN a" "MEM_ALIGNMENT dvd LWIP_MEM_ALIGN_SIZE a"
  by (simp_all add: LWIP_MEM_ALIGN_def LWIP_MEM_ALIGN_SIZE_def)

lemma align_ge: "a \<le> LWIP_MEM_ALIGN a" "a \<le> LWIP_MEM_ALIGN_SIZE a" "LWIP_MEM_ALIGN a < a + 8" "LWIP_MEM_ALIGN_SIZE a < a + 8"
  unfolding LWIP_MEM_ALIGN_def LWIP_MEM_ALIGN_SIZE_def MEM_ALIGNMENT_def by presburger+

definition pool_inv :: "memp_desc \<Rightarrow> nat list \<times> nat set \<Rightarrow> bool" where
  "pool_inv desc s \<longleftrightarrow> distinct (fst s) \<and> finite (snd s) \<and> set (fst s) \<inter> snd s = {} \<and> set (fst s) \<union> snd s = set (elements desc) \<and>
    (\<forall>m \<in> set (elements desc). m mod MEM_ALIGNMENT = 0)"

lemma pool_inv_init:
  assumes "0 < sz"
  shows "pool_inv (LWIP_MEMPOOL_DECLARE num sz base) (memp_init_pool (LWIP_MEMPOOL_DECLARE num sz base), {})"
proof -
  have "0 < LWIP_MEM_ALIGN_SIZE sz" using align_ge(2) [of sz] assms by simp
  then have "distinct (elements (LWIP_MEMPOOL_DECLARE num sz base))"
    by (auto simp: elements_def LWIP_MEMPOOL_DECLARE_def distinct_map inj_on_def)
  moreover have "m mod MEM_ALIGNMENT = 0" if "m \<in> set (elements (LWIP_MEMPOOL_DECLARE num sz base))" for m
    using that align_dvd by (auto simp: elements_def LWIP_MEMPOOL_DECLARE_def dvd_eq_mod_eq_0 [symmetric])
  ultimately show ?thesis by (simp add: pool_inv_def memp_init_pool_eq)
qed

lemma pool_inv_step: "pool_step s s' \<Longrightarrow> pool_inv desc s \<Longrightarrow> pool_inv desc s'"
  by (erule pool_stepE)
    (auto simp: pool_inv_def do_memp_malloc_pool_def do_memp_free_pool_def split: list.splits if_splits)

lemma pool_inv_reach: "pool_step\<^sup>*\<^sup>* s s' \<Longrightarrow> pool_inv desc s \<Longrightarrow> pool_inv desc s'"
  by (induction rule: rtranclp_induct) (blast intro: pool_inv_step)+

lemma pool_inv_aligned: "pool_inv desc (tab, held) \<Longrightarrow> m \<in> set tab \<Longrightarrow> m mod MEM_ALIGNMENT = 0"
  by (auto simp: pool_inv_def)

lemma pool_inv_malloc:
  "pool_inv desc (tab, held) \<Longrightarrow> do_memp_malloc_pool tab = Some (case tab of [] \<Rightarrow> (None, []) | m # r \<Rightarrow> (Some m, r))"
  by (simp add: do_memp_malloc_pool_def pool_inv_aligned split: list.splits)

lemma pool_inv_count: "pool_inv desc (tab, held) \<Longrightarrow> length tab + card held = card (set (elements desc))"
  unfolding pool_inv_def by (metis card_Un_disjoint distinct_card finite_set fst_conv snd_conv)

section \<open>Properties\<close>

text \<open>
  C15. The memory pools: after any sequence of allocations and releases from a freshly initialised pool, the free list has
  no duplicates, shares no element with those in use and accounts for all the others; allocation never aborts, hands out an
  element that nobody holds, and fails only when all \<^verbatim>\<open>num\<close> elements are in use.\<close>

theorem memp_pool_sound:
  assumes "0 < sz" "pool_step\<^sup>*\<^sup>* (memp_init_pool (LWIP_MEMPOOL_DECLARE num sz base), {}) (tab, held)"
  shows "distinct tab \<and> set tab \<inter> held = {} \<and> length tab + card held = num \<and>
    (case do_memp_malloc_pool tab of
       None \<Rightarrow> False
     | Some (None, _) \<Rightarrow> card held = num
     | Some (Some m, _) \<Rightarrow> m \<notin> held \<and> m mod 8 = 0)"
proof -
  let ?d = "LWIP_MEMPOOL_DECLARE num sz base"
  have inv: "pool_inv ?d (tab, held)" using pool_inv_reach [OF assms(2) pool_inv_init [OF assms(1)]] .
  have "distinct (elements ?d)" using pool_inv_init [OF assms(1), of num base] by (simp add: pool_inv_def memp_init_pool_eq)
  then have "card (set (elements ?d)) = num"
    using distinct_card by (fastforce simp: elements_def LWIP_MEMPOOL_DECLARE_def simp del: set_map)
  then have count: "length tab + card held = num" using pool_inv_count [OF inv] by simp
  show ?thesis
    using inv count pool_inv_malloc [OF inv] pool_inv_aligned [OF inv]
    by (cases tab) (auto simp: pool_inv_def MEM_ALIGNMENT_def)
qed

theorem memp_pool_sound_witness:
  "distinct [0x1008 :: nat] \<and> set [0x1008 :: nat] \<inter> {0x1020} = {} \<and> length [0x1008 :: nat] + card {0x1020 :: nat} = 2 \<and>
    (case do_memp_malloc_pool [0x1008] of
       None \<Rightarrow> False
     | Some (None, _) \<Rightarrow> card {0x1020 :: nat} = 2
     | Some (Some m, _) \<Rightarrow> m \<notin> {0x1020} \<and> m mod 8 = 0)"
proof -
  have i: "memp_init_pool (LWIP_MEMPOOL_DECLARE 2 20 0x1001) = [0x1020, 0x1008]"
    by (simp add: memp_init_pool_eq elements_def LWIP_MEMPOOL_DECLARE_def LWIP_MEM_ALIGN_def LWIP_MEM_ALIGN_SIZE_def
        MEM_ALIGNMENT_def upt_rec)
  have "pool_step (memp_init_pool (LWIP_MEMPOOL_DECLARE 2 20 0x1001), {}) ([0x1008], insert 0x1020 {})"
    unfolding i by (rule pool_step.take) (simp add: do_memp_malloc_pool_def MEM_ALIGNMENT_def)
  then show ?thesis using memp_pool_sound [of 20 2 "0x1001" "[0x1008]" "{0x1020}"] by (simp add: r_into_rtranclp)
qed

end
