(* ===== verification/Lwip_Def.thy ===== *)
theory Lwip_Def
  imports Prelude
begin

text \<open>
  The helpers of lwIP's \<^verbatim>\<open>core/def.c\<close>: byte order conversion for a little-endian host, bounded substring search,
  case-insensitive comparison and integer printing. A C string is the list of its bytes before the terminating zero; the
  byte at the end of the list reads as zero. A \<^verbatim>\<open>char\<close> comparison with \<^verbatim>\<open>'a'\<close> and \<^verbatim>\<open>'z'\<close> has the same result for signed
  and unsigned \<^verbatim>\<open>char\<close>.
\<close>

section \<open>Byte order\<close>

definition lwip_htons :: "u16 \<Rightarrow> u16" where
  "lwip_htons n = push_bit 8 (n AND 0x00ff) OR drop_bit 8 (n AND 0xff00)"

definition lwip_htonl :: "u32 \<Rightarrow> u32" where
  "lwip_htonl n = push_bit 24 (n AND 0x000000ff) OR push_bit 8 (n AND 0x0000ff00) OR
     drop_bit 8 (n AND 0x00ff0000) OR drop_bit 24 (n AND 0xff000000)"

section \<open>Strings\<close>

definition peek :: "u8 list \<Rightarrow> u8" where
  "peek s = (case s of [] \<Rightarrow> 0 | c # _ \<Rightarrow> c)"

text \<open>The loop body: do the two characters differ even up to case?\<close>

definition chars_differ :: "u8 \<Rightarrow> u8 \<Rightarrow> bool" where
  "chars_differ c1 c2 =
    (if c1 \<noteq> c2 then
       let c1_upc = c1 OR 0x20
       in if 0x61 \<le> c1_upc \<and> c1_upc \<le> 0x7a then
            let c2_upc = c2 OR 0x20 in c1_upc \<noteq> c2_upc
          else True
     else False)"

fun lwip_stricmp :: "u8 list \<Rightarrow> u8 list \<Rightarrow> int" where
  "lwip_stricmp str1 str2 =
    (let c1 = peek str1; c2 = peek str2
     in if chars_differ c1 c2 then 1
        else if c1 \<noteq> 0 then (case str1 of [] \<Rightarrow> 0 | _ # str1' \<Rightarrow> lwip_stricmp str1' (tl str2)) else 0)"

text \<open>\<^verbatim>\<open>len--\<close> is done on a 64-bit \<^verbatim>\<open>size_t\<close>, so that a length of zero wraps.\<close>

fun lwip_strnicmp :: "u8 list \<Rightarrow> u8 list \<Rightarrow> u64 \<Rightarrow> int" where
  "lwip_strnicmp str1 str2 len =
    (let c1 = peek str1; c2 = peek str2
     in if chars_differ c1 c2 then 1
        else if len - 1 \<noteq> 0 \<and> c1 \<noteq> 0 then (case str1 of [] \<Rightarrow> 0 | _ # str1' \<Rightarrow> lwip_strnicmp str1' (tl str2) (len - 1))
        else 0)"

declare lwip_stricmp.simps [simp del] lwip_strnicmp.simps [simp del]

text \<open>\<^verbatim>\<open>strncmp(p, token, tokenlen) == 0\<close> for a token without zero bytes.\<close>

definition strncmp_eq :: "u8 list \<Rightarrow> u8 list \<Rightarrow> bool" where
  "strncmp_eq p token \<longleftrightarrow> take (length token) p = token"

text \<open>The search loops over the offset \<open>i\<close> of \<open>p\<close> in the buffer; the result is an offset.\<close>

lemma peek_drop: "peek (drop i s) \<noteq> 0 \<Longrightarrow> i < length s"
  by (rule ccontr) (simp add: peek_def)

function strnstr_from :: "u8 list \<Rightarrow> u8 list \<Rightarrow> nat \<Rightarrow> nat \<Rightarrow> nat option" where
  "strnstr_from buffer token n i =
    (if peek (drop i buffer) \<noteq> 0 \<and> i + length token \<le> n then
       if peek (drop i buffer) = peek token \<and> strncmp_eq (drop i buffer) token then Some i
       else strnstr_from buffer token n (Suc i)
     else None)"
  by pat_completeness auto
termination
  by (relation "measure (\<lambda>(buffer, _, _, i). length buffer - i)")
    (auto dest: peek_drop)

function strnistr_from :: "u8 list \<Rightarrow> u8 list \<Rightarrow> nat \<Rightarrow> nat \<Rightarrow> nat option" where
  "strnistr_from buffer token n i =
    (if peek (drop i buffer) \<noteq> 0 \<and> i + length token \<le> n then
       if lwip_strnicmp (drop i buffer) token (of_nat (length token)) = 0 then Some i
       else strnistr_from buffer token n (Suc i)
     else None)"
  by pat_completeness auto
termination
  by (relation "measure (\<lambda>(buffer, _, _, i). length buffer - i)")
    (auto dest: peek_drop)

declare strnstr_from.simps [simp del] strnistr_from.simps [simp del]

definition lwip_strnstr :: "u8 list \<Rightarrow> u8 list \<Rightarrow> nat \<Rightarrow> nat option" where
  "lwip_strnstr buffer token n = (if length token = 0 then Some 0 else strnstr_from buffer token n 0)"

definition lwip_strnistr :: "u8 list \<Rightarrow> u8 list \<Rightarrow> nat \<Rightarrow> nat option" where
  "lwip_strnistr buffer token n = (if length token = 0 then Some 0 else strnistr_from buffer token n 0)"

section \<open>Integer printing\<close>

text \<open>Writing the digits backwards from the end of the buffer: the rest of the number, the position \<^verbatim>\<open>tmp - result\<close> and the
buffer. The number is a non-negative \<^verbatim>\<open>int\<close> here (\<^verbatim>\<open>INT_MIN\<close>, whose negation overflows, is outside the model).\<close>

fun itoa_digits :: "nat \<Rightarrow> nat \<Rightarrow> nat \<Rightarrow> u8 list \<Rightarrow> nat \<times> nat \<times> u8 list" where
  "itoa_digits n tmp res buf =
    (if n \<noteq> 0 \<and> tmp > res then
       itoa_digits (n div 10) (tmp - 1) res (buf[tmp - 1 := 0x30 + of_nat (n mod 10)])
     else (n, tmp, buf))"

declare itoa_digits.simps [simp del]

definition lwip_itoa :: "u8 list \<Rightarrow> int \<Rightarrow> u8 list" where
  "lwip_itoa buf number =
    (let bufsize = length buf;
         n = nat (abs number)
     in if bufsize < 2 then (if bufsize = 1 then buf[0 := 0] else buf)
        else
          let res = (if number < 0 then 1 else 0);
              buf = (if number < 0 then buf[0 := 0x2d] else buf);
              buf = buf[bufsize - 1 := 0];
              (n, tmp, buf) = itoa_digits n (bufsize - 1) res buf
          in if n \<noteq> 0 then buf[0 := 0]
             else if buf ! tmp = 0 then buf[res := 0x30, res + 1 := 0]
             else blit buf res (drop tmp buf))"


section \<open>Byte order reverses the bytes\<close>

lemma byte_masks16: "(0xff :: u16) = mask 8" "(0xff00 :: u16) = push_bit 8 (mask 8)"
  by (simp_all add: mask_eq_exp_minus_1)

lemma byte_masks32: "(0xff :: u32) = mask 8" "(0xff00 :: u32) = push_bit 8 (mask 8)" "(0xff0000 :: u32) = push_bit 16 (mask 8)"
  "(0xff000000 :: u32) = push_bit 24 (mask 8)"
  by (simp_all add: mask_eq_exp_minus_1)

lemma htons_or: "lwip_htons n = le_or (rev (le_bytes 2 n)) 0"
  by (rule bit_word_eqI)
    (auto simp: lwip_htons_def byte_masks16 le_bytes_def bit_simps upt_rec numeral_2_eq_2)

lemma htonl_or: "lwip_htonl n = le_or (rev (le_bytes 4 n)) 0"
  by (rule bit_word_eqI)
    (auto simp: lwip_htonl_def byte_masks32 le_bytes_def bit_simps upt_rec)


text \<open>The value of a swapped word is the value of its bytes in reverse order.\<close>

lemma uint_htons: "uint (lwip_htons n) = le_val (rev (le_bytes 2 n))"
  unfolding htons_or by (subst uint_le_or) simp_all

lemma uint_htonl: "uint (lwip_htonl n) = le_val (rev (le_bytes 4 n))"
  unfolding htonl_or by (subst uint_le_or) simp_all

lemma le_bytes_htons: "le_bytes 2 (lwip_htons n) = rev (le_bytes 2 n)"
  by (rule le_val_inject) (simp_all add: le_val_le_bytes_all uint_htons)

lemma le_bytes_htonl: "le_bytes 4 (lwip_htonl n) = rev (le_bytes 4 n)"
  by (rule le_val_inject) (simp_all add: le_val_le_bytes_all uint_htonl)

lemma htons_htons [simp]: "lwip_htons (lwip_htons n) = n"
  unfolding word_uint_eq_iff uint_htons [of "lwip_htons n"] le_bytes_htons by (simp add: le_val_le_bytes_all)

lemma htonl_htonl [simp]: "lwip_htonl (lwip_htonl n) = n"
  unfolding word_uint_eq_iff uint_htonl [of "lwip_htonl n"] le_bytes_htonl by (simp add: le_val_le_bytes_all)

section \<open>Case-insensitive comparison\<close>

definition to_lower :: "u8 \<Rightarrow> u8" where
  "to_lower c = (if 0x41 \<le> c \<and> c \<le> 0x5a then c + 0x20 else c)"

definition is_letter :: "u8 \<Rightarrow> bool" where
  "is_letter c \<longleftrightarrow> 0x41 \<le> c \<and> c \<le> 0x5a \<or> 0x61 \<le> c \<and> c \<le> 0x7a"

lemma or_push_bit: "bit (c::u8) k \<Longrightarrow> c OR push_bit k 1 = c"
  by (rule bit_word_eqI) (auto simp: bit_simps)

lemma and_push_bit: "\<not> bit (c::u8) k \<Longrightarrow> c AND push_bit k 1 = 0"
  by (rule bit_word_eqI) (auto simp: bit_simps)

lemma or_0x20: "(c OR 0x20 :: u8) = (if odd (unat c div 32) then c else c + 0x20)"
proof -
  have b: "bit c 5 \<longleftrightarrow> odd (unat c div 32)"
    using bit_iff_odd [of "unat c" 5] by (simp add: bit_unsigned_iff)
  show ?thesis
    using b or_push_bit [of c 5] and_push_bit [of c 5] by (auto simp: disjunctive_add_eq_or)
qed

lemma lower_cases:
  "(0x61 \<le> (c OR 0x20 :: u8) \<and> c OR 0x20 \<le> 0x7a) = is_letter c \<and> (is_letter c \<longrightarrow> c OR 0x20 = to_lower c) \<and>
   is_letter (to_lower c) = is_letter c \<and> (\<not> is_letter c \<longrightarrow> to_lower c = c)"
proof -
  define n q r where "n = unat c" and "q = n div 32" and "r = n mod 32"
  have n: "n < 256" "n = 32 * q + r" "r < 32" using unsigned_less [of c] by (simp_all add: n_def q_def r_def)
  then have q: "q < 8" by simp
  have c: "(0x61 \<le> c) = (97 \<le> n)" "(c \<le> 0x7a) = (n \<le> 122)" "(0x41 \<le> c) = (65 \<le> n)" "(c \<le> 0x5a) = (n \<le> 90)"
    by (simp_all add: n_def word_le_nat_alt)
  have "n < 224 \<Longrightarrow> unat (c + 0x20) = n + 32" by (simp add: n_def unat_word_ariths)
  then have p: "n < 224 \<Longrightarrow> (0x61 \<le> c + 0x20) = (65 \<le> n)" "n < 224 \<Longrightarrow> (c + 0x20 \<le> 0x7a) = (n \<le> 90)"
    "n < 224 \<Longrightarrow> (0x41 \<le> c + 0x20) = (33 \<le> n)" "n < 224 \<Longrightarrow> (c + 0x20 \<le> 0x5a) = (n \<le> 58)"
    by (auto simp: word_le_nat_alt)
  have o: "(c OR 0x20) = (if odd q then c else c + 0x20)" unfolding or_0x20 by (simp add: q_def n_def)
  from q have "q = 0 \<or> q = 1 \<or> q = 2 \<or> q = 3 \<or> q = 4 \<or> q = 5 \<or> q = 6 \<or> q = 7" by linarith
  then have "even q \<Longrightarrow> n < 224" using n(2,3) by auto
  moreover have "q = 2" if "65 \<le> n" "n \<le> 90" using that n(2,3) by linarith
  moreover have "q = 3" if "97 \<le> n" "n \<le> 122" using that n(2,3) by linarith
  ultimately have f: "even q \<Longrightarrow> n < 224" "65 \<le> n \<and> n \<le> 90 \<Longrightarrow> even q" "97 \<le> n \<and> n \<le> 122 \<Longrightarrow> odd q"
    by auto
  show ?thesis
  proof (cases "odd q")
    case True
    then have "\<not> (65 \<le> n \<and> n \<le> 90)" using f(2) by auto
    with True show ?thesis unfolding o to_lower_def is_letter_def using c by auto
  next
    case False
    then have "\<not> (97 \<le> n \<and> n \<le> 122)" "n < 224" using f by auto
    with False show ?thesis unfolding o to_lower_def is_letter_def using c p by auto
  qed
qed

lemma chars_differ_lower: "chars_differ c1 c2 \<longleftrightarrow> to_lower c1 \<noteq> to_lower c2"
  unfolding chars_differ_def Let_def using lower_cases [of c1] lower_cases [of c2] by (auto split: if_splits)

lemma to_lower_zero: "to_lower c = 0 \<longleftrightarrow> c = 0"
  using lower_cases [of c] by (auto simp: to_lower_def is_letter_def split: if_splits)


lemma peek_simps [simp]: "peek [] = 0" "peek (c # cs) = c"
  by (simp_all add: peek_def)

lemma stricmp_lower:
  "0 \<notin> set s \<Longrightarrow> 0 \<notin> set t \<Longrightarrow> lwip_stricmp s t = (if map to_lower s = map to_lower t then 0 else 1)"
proof (induction s arbitrary: t)
  case Nil
  then show ?case
    by (cases t) (auto simp: lwip_stricmp.simps [of "[]"] chars_differ_lower to_lower_zero to_lower_zero [of 0, simplified])
next
  case (Cons c s)
  show ?case
  proof (cases t)
    case Nil
    then show ?thesis using Cons.prems
      by (subst lwip_stricmp.simps) (simp add: chars_differ_lower to_lower_zero [of 0, simplified] to_lower_zero)
  next
    case (Cons d t')
    then show ?thesis using Cons.IH [of t'] Cons.prems
      by (subst lwip_stricmp.simps) (auto simp: chars_differ_lower)
  qed
qed

lemma strnicmp_lower:
  "0 \<notin> set s \<Longrightarrow> 0 \<notin> set t \<Longrightarrow> 0 < n \<Longrightarrow> n < 2 ^ 64 \<Longrightarrow>
   lwip_strnicmp s t (of_nat n) = (if map to_lower (take n s) = map to_lower (take n t) then 0 else 1)"
proof (induction s arbitrary: t n)
  case Nil
  then show ?case
    by (cases t) (auto simp: lwip_strnicmp.simps [of "[]"] chars_differ_lower to_lower_zero to_lower_zero [of 0, simplified]
        take_Cons')
next
  case (Cons c s)
  have n: "(of_nat n - 1 :: u64) = of_nat (n - 1)" using Cons.prems(3) by (simp add: of_nat_diff)
  have z: "(of_nat (n - 1) :: u64) = 0 \<longleftrightarrow> n = 1"
  proof -
    have "unat (of_nat (n - 1) :: u64) = n - 1" unfolding unat_of_nat using Cons.prems(4) by simp
    then show ?thesis using Cons.prems(3) by (metis One_nat_def Suc_pred diff_self_eq_0 unat_eq_zero)
  qed
  show ?case
  proof (cases t)
    case Nil
    then show ?thesis using Cons.prems
      by (subst lwip_strnicmp.simps) (simp add: chars_differ_lower to_lower_zero [of 0, simplified] to_lower_zero take_Cons')
  next
    case (Cons d t')
    then show ?thesis using Cons.IH [of t' "n - 1"] Cons.prems n z
      by (subst lwip_strnicmp.simps) (cases n; auto simp: chars_differ_lower)
  qed
qed

section \<open>Substring search\<close>

text \<open>The first position at which the token occurs, with its end within the first \<open>n\<close> bytes.\<close>

definition occurs :: "(u8 list \<Rightarrow> u8 list \<Rightarrow> bool) \<Rightarrow> u8 list \<Rightarrow> u8 list \<Rightarrow> nat \<Rightarrow> nat \<Rightarrow> bool" where
  "occurs eq buffer token n i \<longleftrightarrow>
     i + length token \<le> n \<and> i + length token \<le> length buffer \<and> eq (take (length token) (drop i buffer)) token"

lemma peek_nonzero: "0 \<notin> set s \<Longrightarrow> peek (drop i s) \<noteq> 0 \<longleftrightarrow> i < length s"
proof (cases "drop i s")
  case (Cons c cs)
  then have "c \<in> set s" using in_set_dropD [of c i s] by simp
  moreover assume "0 \<notin> set s"
  ultimately show ?thesis using Cons by (metis drop_all list.distinct(1) not_less peek_simps(2))
qed simp

text \<open>A loop that tries the positions in turn finds the first one that passes its test.\<close>

lemma search_first:
  assumes step: "\<And>i. f i = (if i < L \<and> i + m \<le> n then if P i then Some i else f (Suc i) else None)"
    and Q: "\<And>i. Q i \<longleftrightarrow> i < L \<and> i + m \<le> (n::nat) \<and> P i"
  shows "f i = (if \<exists>k\<ge>i. Q k then Some (LEAST k. i \<le> k \<and> Q k) else None)"
proof (induction "L - i" arbitrary: i rule: less_induct)
  case less
  show ?case
  proof (cases "i < L \<and> i + m \<le> n")
    case False
    then have "\<not> (\<exists>k\<ge>i. Q k)" by (auto simp: Q)
    with False show ?thesis by (subst step) auto
  next
    case True
    show ?thesis
    proof (cases "Q i")
      case q: True
      then have "(LEAST k. i \<le> k \<and> Q k) = i" by (intro Least_equality) auto
      then show ?thesis using q by (subst step) (auto simp: Q)
    next
      case q: False
      have eq: "(i \<le> k \<and> Q k) \<longleftrightarrow> (Suc i \<le> k \<and> Q k)" for k
        using q by (metis Suc_leI Suc_leD le_eq_less_or_eq)
      have "f i = f (Suc i)" using True q by (subst step) (auto simp: Q)
      then show ?thesis using less [of "Suc i"] True unfolding eq by (simp add: diff_less_mono2)
    qed
  qed
qed

lemma take_drop_full: "length (take m (drop i b)) = m \<Longrightarrow> 0 < m \<Longrightarrow> i + m \<le> length b \<and> i < length b"
  by (auto simp: min_def split: if_splits)

lemma strnstr_from_first:
  assumes "0 \<notin> set buffer" "token \<noteq> []"
  shows "strnstr_from buffer token n i =
    (if \<exists>k\<ge>i. occurs (=) buffer token n k then Some (LEAST k. i \<le> k \<and> occurs (=) buffer token n k) else None)"
proof (rule search_first [where L = "length buffer" and m = "length token" and P = "\<lambda>i. strncmp_eq (drop i buffer) token"])
  show "strnstr_from buffer token n i =
      (if i < length buffer \<and> i + length token \<le> n
       then if strncmp_eq (drop i buffer) token then Some i else strnstr_from buffer token n (Suc i) else None)" for i
  proof -
    have "strncmp_eq (drop i buffer) token \<Longrightarrow> peek (drop i buffer) = peek token"
      using assms(2) by (cases token; cases "drop i buffer") (auto simp: strncmp_eq_def)
    then show ?thesis
      using peek_nonzero [OF assms(1), of i] by (subst strnstr_from.simps) auto
  qed
  show "occurs (=) buffer token n i \<longleftrightarrow>
      i < length buffer \<and> i + length token \<le> n \<and> strncmp_eq (drop i buffer) token" for i
  proof -
    have "strncmp_eq (drop i buffer) token \<Longrightarrow> i + length token \<le> length buffer \<and> i < length buffer"
      using assms(2) take_drop_full [of "length token" i buffer] unfolding strncmp_eq_def by simp
    then show ?thesis by (auto simp: occurs_def strncmp_eq_def)
  qed
qed

lemma strnistr_from_first:
  assumes "0 \<notin> set buffer" "0 \<notin> set token" "token \<noteq> []" "length token < 2 ^ 64"
  shows "strnistr_from buffer token n i =
    (if \<exists>k\<ge>i. occurs (\<lambda>a b. map to_lower a = map to_lower b) buffer token n k
     then Some (LEAST k. i \<le> k \<and> occurs (\<lambda>a b. map to_lower a = map to_lower b) buffer token n k) else None)"
proof (rule search_first [where L = "length buffer" and m = "length token"
      and P = "\<lambda>i. map to_lower (take (length token) (drop i buffer)) = map to_lower token"])
  have "0 \<notin> set (drop i buffer)" for i using assms(1) in_set_dropD by metis
  then have cmp: "lwip_strnicmp (drop i buffer) token (of_nat (length token)) =
      (if map to_lower (take (length token) (drop i buffer)) = map to_lower token then 0 else 1)" for i
    using strnicmp_lower [of "drop i buffer" token "length token"] assms by simp
  show "strnistr_from buffer token n i =
      (if i < length buffer \<and> i + length token \<le> n
       then if map to_lower (take (length token) (drop i buffer)) = map to_lower token then Some i
            else strnistr_from buffer token n (Suc i) else None)" for i
    using peek_nonzero [OF assms(1), of i] by (subst strnistr_from.simps) (simp add: cmp)
  show "occurs (\<lambda>a b. map to_lower a = map to_lower b) buffer token n i \<longleftrightarrow>
      i < length buffer \<and> i + length token \<le> n \<and> map to_lower (take (length token) (drop i buffer)) = map to_lower token" for i
  proof -
    have "map to_lower (take (length token) (drop i buffer)) = map to_lower token \<Longrightarrow>
        i + length token \<le> length buffer \<and> i < length buffer"
      using assms(3) take_drop_full [of "length token" i buffer] by (metis length_greater_0_conv length_map)
    then show ?thesis unfolding occurs_def by blast
  qed
qed

section \<open>Decimal numbers\<close>

fun decimal :: "nat \<Rightarrow> u8 list" where
  "decimal n = (if n < 10 then [0x30 + of_nat n] else decimal (n div 10) @ [0x30 + of_nat (n mod 10)])"

declare decimal.simps [simp del]

lemma digit_nonzero: "d < 10 \<Longrightarrow> (0x30 + of_nat d :: u8) \<noteq> 0"
proof -
  assume "d < 10"
  then have "unat (of_nat (48 + d) :: u8) = 48 + d" unfolding unat_of_nat by simp
  then show ?thesis by (metis add_is_0 of_nat_add of_nat_numeral unsigned_0 zero_neq_numeral)
qed

lemma decimal_nonzero: "0 \<notin> set (decimal n)"
  by (induction n rule: decimal.induct) (subst decimal.simps, auto dest: sym simp: digit_nonzero [symmetric])

lemma decimal_length: "0 < length (decimal n)"
  by (subst decimal.simps) simp

lemma itoa_digits_spec:
  "res \<le> tmp \<Longrightarrow> tmp \<le> length buf \<Longrightarrow> 0 < n \<Longrightarrow>
   itoa_digits n tmp res buf =
    (if length (decimal n) \<le> tmp - res then (0, tmp - length (decimal n), blit buf (tmp - length (decimal n)) (decimal n))
     else itoa_digits n tmp res buf) \<and>
   (tmp - res < length (decimal n) \<longrightarrow> fst (itoa_digits n tmp res buf) \<noteq> 0 \<and>
      length (snd (snd (itoa_digits n tmp res buf))) = length buf)"
proof (induction n arbitrary: tmp buf rule: less_induct)
  case (less n)
  show ?case
  proof (cases "tmp > res")
    case False
    then have "itoa_digits n tmp res buf = (n, tmp, buf)" by (subst itoa_digits.simps) simp
    then show ?thesis using less.prems False decimal_length [of n] by auto
  next
    case True
    define b where "b = buf[tmp - 1 := 0x30 + of_nat (n mod 10)]"
    have step: "itoa_digits n tmp res buf = itoa_digits (n div 10) (tmp - 1) res b"
      using True less.prems by (subst itoa_digits.simps) (simp add: b_def)
    show ?thesis
    proof (cases "n < 10")
      case small: True
      have "itoa_digits n tmp res buf = (0, tmp - 1, b)"
        unfolding step using small by (subst itoa_digits.simps) simp
      moreover have "b = blit buf (tmp - 1) (decimal n)"
        using True less.prems small by (subst decimal.simps) (simp add: b_def blit_def upd_conv_take_nth_drop)
      ultimately show ?thesis using True small by (simp add: decimal.simps [of n])
    next
      case big: False
      have d: "decimal n = decimal (n div 10) @ [0x30 + of_nat (n mod 10)]" using big by (subst decimal.simps) simp
      have pre: "res \<le> tmp - 1" "tmp - 1 \<le> length b" "0 < n div 10" "n div 10 < n"
        using True less.prems big by (simp_all add: b_def div_greater_zero_iff)
      note ih = less.IH [OF pre(4,1,2,3)]
      have bl: "blit b (tmp - 1 - k) xs = blit buf (tmp - Suc k) (xs @ [0x30 + of_nat (n mod 10)])"
        if "length xs = k" "Suc k \<le> tmp" for k xs
        using that True less.prems unfolding blit_def b_def
        by (auto simp: take_update_swap drop_update_swap Cons_nth_drop_Suc [symmetric] list_update_beyond)
      have lb: "length b = length buf" by (simp add: b_def)
      show ?thesis
      proof (cases "length (decimal (n div 10)) \<le> tmp - 1 - res")
        case fits: True
        then have "itoa_digits n tmp res buf = (0, tmp - 1 - length (decimal (n div 10)),
            blit b (tmp - 1 - length (decimal (n div 10))) (decimal (n div 10)))"
          unfolding step using ih by simp
        moreover have "length (decimal n) \<le> tmp - res" "tmp - 1 - length (decimal (n div 10)) = tmp - length (decimal n)"
          using fits True by (simp_all add: d)
        ultimately show ?thesis using bl [OF refl, of "decimal (n div 10)"] fits True by (simp add: d)
      next
        case False
        then have "\<not> length (decimal n) \<le> tmp - res" by (simp add: d)
        then show ?thesis using ih False lb unfolding step by simp
      qed
    qed
  qed
qed


definition decimal_int :: "int \<Rightarrow> u8 list" where
  "decimal_int k = (if k < 0 then 0x2d # decimal (nat (- k)) else decimal (nat k))"

lemma c_string: "0 \<notin> set s \<Longrightarrow> take (length s + 1) buf = s @ [0] \<Longrightarrow> takeWhile (\<lambda>b. b \<noteq> 0) buf = s"
proof -
  assume z: "0 \<notin> set s" and t: "take (length s + 1) buf = s @ [0]"
  have "buf = (s @ [0]) @ drop (length s + 1) buf"
    using append_take_drop_id [of "length s + 1" buf] unfolding t by (rule sym)
  then have "buf = s @ 0 # drop (length s + 1) buf" by simp
  then have "takeWhile (\<lambda>b. b \<noteq> 0) buf = takeWhile (\<lambda>b. b \<noteq> 0) (s @ 0 # drop (length s + 1) buf)" by (rule arg_cong)
  also have "\<dots> = s" using z by (subst takeWhile_append2) auto
  finally show ?thesis .
qed

lemma itoa_nonzero:
  assumes "2 \<le> length buf" "k \<noteq> 0"
  shows "takeWhile (\<lambda>b. b \<noteq> 0) (lwip_itoa buf k) = (if length (decimal_int k) < length buf then decimal_int k else []) \<and>
    length (lwip_itoa buf k) = length buf"
proof -
  define res n pre where "res = (if k < 0 then 1 else (0::nat))" and "n = nat (abs k)"
    and "pre = (if k < 0 then [0x2d] else ([] :: u8 list))"
  have n: "0 < n" using assms(2) by (simp add: n_def)
  have dk: "decimal_int k = pre @ decimal n" "length pre = res"
    by (simp_all add: decimal_int_def pre_def n_def res_def)
  have z: "0 \<notin> set (pre @ decimal n)" using decimal_nonzero [of n] by (simp add: pre_def)
  define b where "b = (if k < 0 then buf[0 := 0x2d] else buf)[length buf - 1 := 0]"
  have b: "length b = length buf" "take res b = pre" "drop (length buf - 1) b = [0]"
  proof -
    show l: "length b = length buf" by (simp add: b_def)
    show "take res b = pre" using assms(1) by (cases buf) (auto simp: b_def res_def pre_def take_Cons' split: nat.splits)
    have "b ! (length buf - 1) = 0" using assms(1) by (simp add: b_def)
    then show "drop (length buf - 1) b = [0]"
      using assms(1) l by (metis Cons_nth_drop_Suc One_nat_def Suc_diff_1 Suc_le_lessD drop_all le_refl less_le_trans
          diff_less zero_less_Suc lessI numeral_2_eq_2)
  qed
  let ?d = "length (decimal n)" and ?t = "length buf - 1"
  have pre': "res \<le> ?t" "?t \<le> length b" using assms(1) b(1) by (auto simp: res_def)
  note spec = itoa_digits_spec [OF pre' n]
  have unf: "lwip_itoa buf k = (let (m, tmp, c) = itoa_digits n ?t res b
      in if m \<noteq> 0 then c[0 := 0] else if c ! tmp = 0 then c[res := 0x30, res + 1 := 0] else blit c res (drop tmp c))"
    using assms(1) unfolding lwip_itoa_def Let_def n_def [symmetric] res_def [symmetric] b_def [symmetric] by simp
  show ?thesis
  proof (cases "?d \<le> ?t - res")
    case False
    then have "fst (itoa_digits n ?t res b) \<noteq> 0" "length (snd (snd (itoa_digits n ?t res b))) = length b"
      using spec by auto
    then have "lwip_itoa buf k = (snd (snd (itoa_digits n ?t res b)))[0 := 0]" unfolding unf by (simp add: split_def)
    moreover have "\<not> length (decimal_int k) < length buf" using False dk by simp
    ultimately show ?thesis
      using \<open>length _ = length b\<close> b(1) assms(1)
      by (cases "snd (snd (itoa_digits n ?t res b))") auto
  next
    case True
    define tmp where "tmp = ?t - ?d"
    define c where "c = blit b tmp (decimal n)"
    have e: "itoa_digits n ?t res b = (0, tmp, c)" using spec True by (simp add: tmp_def c_def)
    have t: "res \<le> tmp" "tmp + ?d = ?t" using True pre' decimal_length [of n] by (simp_all add: tmp_def)
    have c: "length c = length buf" "take tmp c = take tmp b" "drop tmp c = decimal n @ [0]"
      using t b assms(1) by (simp_all add: c_def blit_def)
    have "c ! tmp = hd (drop tmp c)" using c(1) t assms(1) decimal_length [of n] by (simp add: hd_drop_conv_nth)
    then have "c ! tmp \<noteq> 0" using c(3) decimal_length [of n] decimal_nonzero [of n] by (cases "decimal n") auto
    then have r: "lwip_itoa buf k = blit c res (decimal n @ [0])" unfolding unf e using c(3) by simp
    have "take res c = pre" using c(2) b(2) t(1) by (metis min.absorb1 take_take)
    then have "take (length (pre @ decimal n) + 1) (lwip_itoa buf k) = (pre @ decimal n) @ [0]"
      unfolding r using take_blit [of res c "decimal n @ [0]"] c(1) t dk(2) assms(1) by (simp add: add.assoc)
    note cs = c_string [OF z this]
    have "res + ?d < length buf" using t assms(1) by linarith
    then have "length (decimal_int k) < length buf" "length (lwip_itoa buf k) = length buf"
      using dk c(1) by (simp_all add: r)
    then show ?thesis using cs dk(1) by simp
  qed
qed


section \<open>Properties\<close>

text \<open>
  Byte order: the conversions reverse the bytes of the word in memory, and applying one twice gives the word back.\<close>

theorem byte_order_correct:
  "le_bytes 2 (lwip_htons n) = rev (le_bytes 2 n) \<and> le_bytes 4 (lwip_htonl m) = rev (le_bytes 4 m) \<and>
   lwip_htons (lwip_htons n) = n \<and> lwip_htonl (lwip_htonl m) = m"
  by (simp add: le_bytes_htons le_bytes_htonl)

text \<open>
  Case-insensitive comparison: the result is 0 exactly when the strings (for the bounded form, their first \<^verbatim>\<open>len\<close>
  bytes, \<^verbatim>\<open>len\<close> not zero) are equal after mapping the ASCII capitals to small letters.\<close>

theorem stricmp_correct:
  assumes "0 \<notin> set s" "0 \<notin> set t" "0 < n" "n < 2 ^ 64"
  shows "(lwip_stricmp s t = 0 \<longleftrightarrow> map to_lower s = map to_lower t) \<and>
    (lwip_strnicmp s t (of_nat n) = 0 \<longleftrightarrow> map to_lower (take n s) = map to_lower (take n t))"
  using stricmp_lower [OF assms(1,2)] strnicmp_lower [OF assms] by simp

theorem stricmp_correct_witness:
  "(lwip_stricmp [0x41, 0x62] [0x61, 0x42] = 0 \<longleftrightarrow> map to_lower [0x41, 0x62] = map to_lower [0x61, 0x42]) \<and>
   (lwip_strnicmp [0x41, 0x62] [0x61, 0x7a] (of_nat 1) = 0 \<longleftrightarrow> map to_lower [0x41] = map to_lower [0x61])"
  using stricmp_correct [of "[0x41, 0x62]" "[0x61, 0x42]" 1] stricmp_correct [of "[0x41, 0x62]" "[0x61, 0x7a]" 1] by simp

text \<open>
  Bounded search: \<^verbatim>\<open>lwip_strnstr\<close> and \<^verbatim>\<open>lwip_strnistr\<close> return the first position at which the token occurs (exactly, or
  up to case) with its end within the first \<^verbatim>\<open>n\<close> bytes, and nothing when there is none.\<close>

theorem strnstr_correct:
  assumes "0 \<notin> set buffer" "0 \<notin> set token" "token \<noteq> []" "length token < 2 ^ 64"
  shows "lwip_strnstr buffer token n =
      (if \<exists>k. occurs (=) buffer token n k then Some (LEAST k. occurs (=) buffer token n k) else None) \<and>
    lwip_strnistr buffer token n =
      (if \<exists>k. occurs (\<lambda>a b. map to_lower a = map to_lower b) buffer token n k
       then Some (LEAST k. occurs (\<lambda>a b. map to_lower a = map to_lower b) buffer token n k) else None)"
  using strnstr_from_first [OF assms(1,3), of n 0] strnistr_from_first [OF assms, of n 0] assms(3)
  by (simp only: lwip_strnstr_def lwip_strnistr_def le0 simp_thms length_0_conv if_False)

theorem strnstr_correct_witness:
  "lwip_strnstr [0x61, 0x62, 0x63] [0x62, 0x63] 3 =
     (if \<exists>k. occurs (=) [0x61, 0x62, 0x63] [0x62, 0x63] 3 k then Some (LEAST k. occurs (=) [0x61, 0x62, 0x63] [0x62, 0x63] 3 k)
      else None)"
  using strnstr_correct [of "[0x61, 0x62, 0x63]" "[0x62, 0x63]" 3] by simp

text \<open>
  Integer printing: for every \<^verbatim>\<open>int\<close> but \<^verbatim>\<open>INT_MIN\<close>, \<^verbatim>\<open>lwip_itoa\<close> never writes outside its buffer, and leaves there the decimal representation of the
  number as a C string when it fits with its terminating zero, and the empty string otherwise.\<close>

theorem itoa_correct:
  assumes "2 \<le> length buf" "- (2 ^ 31) < k" "k < 2 ^ 31"
  shows "takeWhile (\<lambda>b. b \<noteq> 0) (lwip_itoa buf k) = (if length (decimal_int k) < length buf then decimal_int k else []) \<and>
    length (lwip_itoa buf k) = length buf"
proof (cases "k = 0")
  case True
  obtain a b c where buf: "buf = a # b # c" using assms by (cases buf; cases "tl buf") auto
  have "lwip_itoa buf k = (buf[length buf - 1 := 0])[0 := 0x30, 1 := 0]"
    using True assms by (simp add: lwip_itoa_def itoa_digits.simps)
  moreover have "decimal_int k = [0x30]" using True by (simp add: decimal_int_def decimal.simps)
  ultimately show ?thesis by (cases c) (simp_all add: buf split: nat.splits)
qed (rule itoa_nonzero [OF assms(1)])

theorem itoa_correct_witness:
  "takeWhile (\<lambda>b. b \<noteq> 0) (lwip_itoa (replicate 8 0) (- 42)) = decimal_int (- 42)"
  using itoa_correct [of "replicate 8 0" "- 42"] by (simp add: decimal_int_def decimal.simps)

end
