(* ===== verification/Inet_Sum.thy ===== *)
theory Inet_Sum
  imports Lwip_Def
begin

text \<open>
  The Internet sum of lwIP's \<^verbatim>\<open>core/inet_chksum.c\<close> (\<^verbatim>\<open>LWIP_CHKSUM_ALGORITHM\<close> 3, the one \<^verbatim>\<open>lwipopts.h\<close> selects): the routine
  that reads a buffer in aligned 16- and 32-bit loads with end-around carry. A buffer is its address and its bytes; only the
  two low bits of the address matter. The reference definition is \<open>wsum\<close>, the sum of the little-endian 16-bit words, reduced by
  \<open>fold16\<close> to the one's complement representative between 0 and 65535.
\<close>

section \<open>The code\<close>

definition FOLD_U32T :: "u32 \<Rightarrow> u32" where
  "FOLD_U32T u = drop_bit 16 u + (u AND 0xffff)"

definition SWAP_BYTES_IN_WORD :: "'a::len word \<Rightarrow> 'a word" where
  "SWAP_BYTES_IN_WORD w = push_bit 8 (w AND 0xff) OR drop_bit 8 (w AND 0xff00)"

definition load_u16 :: "u8 list \<Rightarrow> u32" where
  "load_u16 p = le_or (take 2 p) 0"

definition load_u32 :: "u8 list \<Rightarrow> u32" where
  "load_u32 p = le_or (take 4 p) 0"

definition add_carry :: "u32 \<Rightarrow> u32 \<Rightarrow> u32" where
  "add_carry acc x = (let tmp = acc + x in if tmp < acc then tmp + 1 else tmp)"

fun chksum_loop32 :: "u32 \<Rightarrow> u8 list \<Rightarrow> u32 \<times> u8 list" where
  "chksum_loop32 acc pl =
    (if length pl > 7 then
       let tmp = add_carry acc (load_u32 pl);
           acc = add_carry tmp (load_u32 (drop 4 pl))
       in chksum_loop32 acc (drop 8 pl)
     else (acc, pl))"

fun chksum_loop16 :: "u32 \<Rightarrow> u8 list \<Rightarrow> u32 \<times> u8 list" where
  "chksum_loop16 acc ps = (if length ps > 1 then chksum_loop16 (acc + load_u16 ps) (drop 2 ps) else (acc, ps))"

declare chksum_loop32.simps [simp del] chksum_loop16.simps [simp del]

text \<open>From the first aligned load to the final folding; \<open>t\<close> is the 16-bit word of the end bytes.\<close>

definition chksum_body :: "u16 \<Rightarrow> nat \<Rightarrow> u8 list \<Rightarrow> u32" where
  "chksum_body t addr pb =
    (let (acc, ps) = (if addr mod 4 \<noteq> 0 \<and> length pb > 1 then (load_u16 pb, drop 2 pb) else (0, pb));
         (acc, ps) = chksum_loop32 acc ps;
         acc = FOLD_U32T acc;
         (acc, ps) = chksum_loop16 acc ps;
         t = (if length ps > 0 then (t AND 0xff00) OR ucast (hd ps) else t)
     in FOLD_U32T (FOLD_U32T (acc + ucast t)))"

definition lwip_standard_chksum :: "nat \<Rightarrow> u8 list \<Rightarrow> u16" where
  "lwip_standard_chksum dataptr data =
    (let is_odd = odd dataptr;
         acc = (if is_odd \<and> length data > 0 then chksum_body (push_bit 8 (ucast (hd data))) (dataptr + 1) (tl data)
                else chksum_body 0 dataptr data);
         acc = (if is_odd then SWAP_BYTES_IN_WORD acc else acc)
     in ucast acc)"

definition inet_chksum :: "nat \<Rightarrow> u8 list \<Rightarrow> u16" where
  "inet_chksum dataptr data = ucast (NOT (ucast (lwip_standard_chksum dataptr data) :: u32))"

section \<open>The reference sum\<close>

fun wsum :: "u8 list \<Rightarrow> int" where
  "wsum [] = 0"
| "wsum [a] = uint a"
| "wsum (a # b # r) = uint a + 256 * uint b + wsum r"

definition fold16 :: "int \<Rightarrow> int" where
  "fold16 n = (if n = 0 then 0 else (n - 1) mod 65535 + 1)"

lemma fold16_eqI: "0 \<le> a \<Longrightarrow> 0 \<le> b \<Longrightarrow> a mod 65535 = b mod 65535 \<Longrightarrow> (a = 0 \<longleftrightarrow> b = 0) \<Longrightarrow> fold16 a = fold16 b"
  unfolding fold16_def by (metis mod_diff_cong)

lemma fold16_mod: "fold16 n mod 65535 = n mod 65535"
  unfolding fold16_def by (simp add: mod_simps)

lemma fold16_zero [simp]: "fold16 n = 0 \<longleftrightarrow> n = 0"
proof -
  have "0 \<le> (n - 1) mod 65535" by simp
  then show ?thesis unfolding fold16_def by auto
qed

lemma fold16_range: "0 \<le> fold16 n" "fold16 n \<le> 65535"
proof -
  have "0 \<le> (n - 1) mod 65535" "(n - 1) mod 65535 < 65535" by simp_all
  then show "0 \<le> fold16 n" "fold16 n \<le> 65535" unfolding fold16_def by auto
qed

lemma fold16_id: "0 \<le> n \<Longrightarrow> n \<le> 65535 \<Longrightarrow> fold16 n = n"
  by (simp add: fold16_def mod_pos_pos_trivial)

lemma fold16_eqD: "fold16 a = fold16 b \<Longrightarrow> a mod 65535 = b mod 65535 \<and> (a = 0 \<longleftrightarrow> b = 0)"
  by (metis fold16_mod fold16_zero)

lemma fold16_cong_add:
  assumes "0 \<le> a" "0 \<le> b" "0 \<le> c" "0 \<le> d" "fold16 a = fold16 c" "fold16 b = fold16 d"
  shows "fold16 (a + b) = fold16 (c + d)"
  using assms fold16_eqD [OF assms(5)] fold16_eqD [OF assms(6)]
  by (intro fold16_eqI) (auto intro: mod_add_cong simp: add_nonneg_eq_0_iff)

lemma fold16_cong_mult:
  assumes "0 \<le> a" "0 \<le> c" "0 < k" "fold16 a = fold16 c"
  shows "fold16 (k * a) = fold16 (k * c)"
  using assms fold16_eqD [OF assms(4)] by (intro fold16_eqI) (auto intro: mod_mult_cong)

lemma fold16_65536: "0 \<le> a \<Longrightarrow> 0 \<le> b \<Longrightarrow> fold16 (b + 65536 * a) = fold16 (b + a)"
proof (rule fold16_eqI)
  have "b + 65536 * a = b + a + 65535 * a" by simp
  then show "(b + 65536 * a) mod 65535 = (b + a) mod 65535" by (simp only: mod_mult_self2)
qed auto

lemma wsum_nonneg [simp]: "0 \<le> wsum bs"
  by (induction bs rule: wsum.induct) auto

lemma wsum_append_even: "even (length xs) \<Longrightarrow> wsum (xs @ ys) = wsum xs + wsum ys"
  by (induction xs rule: wsum.induct) auto

lemma wsum_Cons: "fold16 (wsum (a # r)) = fold16 (uint a + 256 * wsum r)"
proof (induction r arbitrary: a rule: wsum.induct)
  case (3 b c r)
  have "fold16 (wsum (a # b # c # r)) = fold16 (uint a + 256 * uint b + (uint c + 256 * wsum r))"
    unfolding wsum.simps by (rule fold16_cong_add) (simp_all add: 3)
  moreover have "fold16 (uint a + 256 * wsum (b # c # r)) =
      fold16 ((uint a + 256 * uint b + 256 * wsum r) + 65536 * uint c)"
    by (simp add: algebra_simps)
  moreover have "\<dots> = fold16 ((uint a + 256 * uint b + 256 * wsum r) + uint c)"
    by (rule fold16_65536) simp_all
  ultimately show ?case by (simp add: add_ac)
qed auto

lemma wsum_append_odd:
  assumes "odd (length xs)"
  shows "fold16 (wsum (xs @ ys)) = fold16 (wsum xs + 256 * wsum ys)"
proof -
  obtain us a where xs: "xs = us @ [a]" using assms by (cases xs rule: rev_cases) auto
  then have e: "even (length us)" using assms by simp
  have "fold16 (wsum us + wsum (a # ys)) = fold16 (wsum us + (uint a + 256 * wsum ys))"
    by (rule fold16_cong_add) (auto simp: wsum_Cons)
  then show ?thesis using e by (simp add: xs wsum_append_even add.assoc)
qed

section \<open>The code computes the reference sum\<close>

lemma uint_load16: "2 \<le> length p \<Longrightarrow> uint (load_u16 p) = wsum (take 2 p)"
  unfolding load_u16_def by (subst uint_le_or; cases p rule: wsum.cases) auto

lemma uint_load32: "4 \<le> length p \<Longrightarrow> fold16 (uint (load_u32 p)) = fold16 (wsum (take 4 p))"
proof -
  assume "4 \<le> length p"
  then obtain a b c d r where p: "p = a # b # c # d # r"
    by (auto simp: numeral_eq_Suc Suc_le_length_iff)
  have "uint (load_u32 p) = uint a + 256 * uint b + 65536 * (uint c + 256 * uint d)"
    unfolding load_u32_def by (subst uint_le_or) (simp_all add: p)
  then have "fold16 (uint (load_u32 p)) = fold16 (uint a + 256 * uint b + (uint c + 256 * uint d))"
    by (simp only: fold16_65536 uint_ge_0 add_nonneg_nonneg mult_nonneg_nonneg zero_le_numeral)
  then show ?thesis by (simp add: p)
qed

lemma uint_fold: "uint (FOLD_U32T u) = uint u div 65536 + uint u mod 65536"
proof -
  have "0 \<le> uint u" "uint u < 2 ^ 32" using uint_bounded [of u] by simp_all
  then have d: "uint u div 65536 < 65536" by auto
  have m: "(0xffff :: u32) = mask 16" by (simp add: mask_eq_exp_minus_1)
  have "uint (drop_bit 16 u) = uint u div 65536" "uint (u AND mask 16) = uint u mod 65536"
    using uint_drop_bit_div [of 16 u] uint_and_mask_mod [of u 16] by simp_all
  moreover have "uint u mod 65536 < 65536" by simp
  ultimately show ?thesis unfolding FOLD_U32T_def m using d by (subst uint_add_fits) simp_all
qed

lemma fold16_FOLD [simp]: "fold16 (uint (FOLD_U32T u)) = fold16 (uint u)"
  using fold16_65536 [of "uint u div 65536" "uint u mod 65536"]
  by (simp add: uint_fold add.commute pos_imp_zdiv_nonneg_iff)

lemma FOLD_le: "uint (FOLD_U32T u) \<le> 0x1fffe"
proof -
  have "uint u < 2 ^ 32" using uint_bounded [of u] by simp
  then have "uint u div 65536 < 65536" by auto
  moreover have "uint u mod 65536 < 65536" by simp
  ultimately show ?thesis unfolding uint_fold by linarith
qed

lemma FOLD_le16: "uint u \<le> 0x1fffe \<Longrightarrow> uint (FOLD_U32T u) \<le> 0xffff"
proof -
  assume u: "uint u \<le> 0x1fffe"
  have e: "uint u = 65536 * (uint u div 65536) + uint u mod 65536" "0 \<le> uint u div 65536" "0 \<le> uint u mod 65536"
    "uint u mod 65536 < 65536" by (simp_all add: pos_imp_zdiv_nonneg_iff)
  then have "uint u div 65536 \<le> 1" using u by linarith
  then have "uint u div 65536 = 0 \<or> uint u div 65536 = 1" using e(2) by linarith
  then show ?thesis unfolding uint_fold using e u by (elim disjE) linarith+
qed

lemma FOLD_eq:  "uint u \<le> 0x1fffe \<Longrightarrow> uint (FOLD_U32T u) = fold16 (uint u)"
  using FOLD_le16 fold16_id by (metis fold16_FOLD uint_ge_0)

lemma fold16_add_carry: "fold16 (uint (add_carry s x)) = fold16 (uint s + uint x)"
proof (cases "uint s + uint x < 2 ^ 32")
  case True
  then have u: "uint (s + x) = uint s + uint x" by (simp add: uint_add_fits)
  then have "\<not> s + x < s" by (simp add: word_less_def)
  then show ?thesis using u by (simp add: add_carry_def)
next
  case False
  have b: "uint s < 2 ^ 32" "uint x < 2 ^ 32" using uint_bounded [of s] uint_bounded [of x] by simp_all
  then have u: "uint (s + x) = uint s + uint x - 2 ^ 32"
    using False uint_plus_if' [of s x] by simp
  then have lt: "s + x < s" using b by (simp add: word_less_def)
  have "uint (s + x + 1) = uint (s + x) + uint (1::u32)"
    by (rule uint_add_fits) (use u b in simp)
  then have c: "uint (add_carry s x) = uint s + uint x - 2 ^ 32 + 1" using lt u by (simp add: add_carry_def)
  have "fold16 (uint s + uint x - 2 ^ 32 + 1) = fold16 (uint s + uint x)"
  proof (rule fold16_eqI)
    have "uint s + uint x = (uint s + uint x - 2 ^ 32 + 1) + 65535 * 65537" by simp
    then show "(uint s + uint x - 2 ^ 32 + 1) mod 65535 = (uint s + uint x) mod 65535"
      by (metis mod_mult_self2)
  qed (use False in auto)
  then show ?thesis by (simp only: c)
qed

lemma chksum_loop32_spec:
  "chksum_loop32 s pl = (s', pl') \<Longrightarrow> fold16 (uint s' + wsum pl') = fold16 (uint s + wsum pl) \<and> length pl' \<le> 7"
proof (induction s pl rule: chksum_loop32.induct)
  case (1 s pl)
  show ?case
  proof (cases "length pl > 7")
    case False
    then show ?thesis using 1 by (simp add: chksum_loop32.simps [of s pl])
  next
    case True
    define tmp where "tmp = add_carry s (load_u32 pl)"
    define s2 where "s2 = add_carry tmp (load_u32 (drop 4 pl))"
    have ih: "fold16 (uint s' + wsum pl') = fold16 (uint s2 + wsum (drop 8 pl))" "length pl' \<le> 7"
      using 1 True by (simp_all add: chksum_loop32.simps [of s pl] tmp_def s2_def Let_def)
    have "fold16 (uint tmp) = fold16 (uint s + wsum (take 4 pl))"
      using True unfolding tmp_def fold16_add_carry by (intro fold16_cong_add) (simp_all add: uint_load32)
    then have "fold16 (uint s2) = fold16 (uint s + wsum (take 4 pl) + wsum (take 4 (drop 4 pl)))"
      using True unfolding s2_def fold16_add_carry by (intro fold16_cong_add) (simp_all add: uint_load32)
    then have "fold16 (uint s2 + wsum (drop 8 pl)) =
        fold16 (uint s + wsum (take 4 pl) + wsum (take 4 (drop 4 pl)) + wsum (drop 8 pl))"
      by (intro fold16_cong_add) simp_all
    also have "wsum pl = wsum (take 4 pl) + wsum (take 4 (drop 4 pl)) + wsum (drop 8 pl)"
      using True wsum_append_even [of "take 4 pl" "drop 4 pl", unfolded append_take_drop_id]
        wsum_append_even [of "take 4 (drop 4 pl)" "drop 4 (drop 4 pl)", unfolded append_take_drop_id]
      by simp
    then have "uint s + wsum (take 4 pl) + wsum (take 4 (drop 4 pl)) + wsum (drop 8 pl) = uint s + wsum pl" by simp
    finally show ?thesis using ih by simp
  qed
qed

lemma chksum_loop16_spec:
  "chksum_loop16 s ps = (s', ps') \<Longrightarrow> uint s + 65535 * int (length ps) < 2 ^ 32 \<Longrightarrow>
   uint s' + wsum ps' = uint s + wsum ps \<and> length ps' \<le> 1 \<and> uint s' \<le> uint s + 65535 * int (length ps)"
proof (induction s ps rule: chksum_loop16.induct)
  case (1 s ps)
  show ?case
  proof (cases "length ps > 1")
    case False
    then show ?thesis using 1 by (simp add: chksum_loop16.simps [of s ps])
  next
    case True
    then obtain a b r where ps: "ps = a # b # r" by (cases ps rule: wsum.cases) auto
    have l: "uint (load_u16 ps) = uint a + 256 * uint b" using uint_load16 [of ps] by (simp add: ps)
    moreover have "uint a < 256" "uint b < 256" using uint_bounded [of a] uint_bounded [of b] by simp_all
    ultimately have lb: "uint (load_u16 ps) \<le> 65535" by linarith
    have s2: "uint (s + load_u16 ps) = uint s + uint (load_u16 ps)"
      using 1(3) lb by (intro uint_add_fits) (simp add: ps)
    have "chksum_loop16 (s + load_u16 ps) r = (s', ps')"
      using 1(2) by (subst (asm) chksum_loop16.simps) (simp add: ps)
    then have "uint s' + wsum ps' = uint (s + load_u16 ps) + wsum r \<and> length ps' \<le> 1 \<and>
        uint s' \<le> uint (s + load_u16 ps) + 65535 * int (length r)"
      using 1(1) [OF True] 1(3) s2 lb by (simp add: ps)
    then show ?thesis using s2 l lb by (simp add: ps)
  qed
qed

text \<open>The folded sum of the words and the end bytes.\<close>

lemma chksum_body_spec:
  fixes b :: u8
  assumes "uint t = 256 * uint b"
  shows "uint (chksum_body t addr pb) = fold16 (uint t + wsum pb)"
proof -
  obtain s0 p0 where h: "(if addr mod 4 \<noteq> 0 \<and> length pb > 1 then (load_u16 pb, drop 2 pb) else (0, pb)) = (s0, p0)"
    by fastforce
  have s0: "uint s0 + wsum p0 = wsum pb"
    using h uint_load16 [of pb] wsum_append_even [of "take 2 pb" "drop 2 pb"] by (auto split: if_splits)
  obtain s1 p1 where l1: "chksum_loop32 s0 p0 = (s1, p1)" by fastforce
  have s1: "fold16 (uint s1 + wsum p1) = fold16 (wsum pb)" "length p1 \<le> 7"
    using chksum_loop32_spec [OF l1] s0 by simp_all
  obtain s2 p2 where l2: "chksum_loop16 (FOLD_U32T s1) p1 = (s2, p2)" by fastforce
  have fl: "uint (FOLD_U32T s1) + 65535 * int (length p1) \<le> 131070 + 458745" using FOLD_le [of s1] s1(2) by linarith
  then have s2: "uint s2 + wsum p2 = uint (FOLD_U32T s1) + wsum p1" "length p2 \<le> 1" "uint s2 \<le> 131070 + 458745"
    using chksum_loop16_spec [OF l2] by auto
  have s2': "fold16 (uint s2 + wsum p2) = fold16 (wsum pb)"
    unfolding s2(1) s1(1) [symmetric] by (rule fold16_cong_add) simp_all
  define t' where "t' = (if length p2 > 0 then (t AND 0xff00) OR ucast (hd p2) else t)"
  have t': "uint t' = uint t + wsum p2"
  proof (cases p2)
    case (Cons c r)
    then have r: "r = []" using s2(2) by simp
    have b8: "uint b < 256" "uint c < 256" using uint_bounded [of b] uint_bounded [of c] by simp_all
    have tp: "t = push_bit 8 (ucast b)"
      using assms b8 by (simp add: word_uint_eq_iff uint_push_bit_mod uint_ucast_up)
    have m: "t AND 0xff00 = t"
      unfolding tp byte_masks16(2) push_bit_and [symmetric]
      using b8 by (intro arg_cong [of _ _ "push_bit 8"]) (simp add: word_uint_eq_iff uint_and_mask_mod uint_ucast_up)
    have uc: "uint (ucast c :: u16) = uint c" by (simp add: uint_ucast_up)
    have "uint (ucast c OR t) = uint (ucast c :: u16) + uint t"
      by (rule uint_or_disjoint [where n = 8]) (use uc b8 assms in simp_all)
    then show ?thesis using Cons r m uc by (simp add: t'_def or.commute)
  qed (simp add: t'_def)
  have "uint t' < 2 ^ 16" using uint_bounded [of t'] by simp
  then have t16: "uint t' \<le> 65535" by simp
  have ut: "uint (ucast t' :: u32) = uint t'" by (simp add: uint_ucast_up)
  have add: "uint (s2 + ucast t') = uint s2 + uint t'" using t16 s2(3) unfolding ut [symmetric] by (intro uint_add_fits) simp
  define S where "S = s2 + ucast t'"
  have "uint S \<le> 655350" using add t16 s2(3) by (simp add: S_def)
  then have "uint S div 65536 \<le> 9" "uint S mod 65536 < 65536" using zdiv_mono1 [of "uint S" 655350 65536] by simp_all
  then have "uint (FOLD_U32T S) \<le> 0x1fffe" unfolding uint_fold by linarith
  then have "uint (FOLD_U32T (FOLD_U32T S)) = fold16 (uint S)" using FOLD_eq by simp
  also have "\<dots> = fold16 (uint t + (uint s2 + wsum p2))" by (simp add: S_def add t' ac_simps)
  also have "\<dots> = fold16 (uint t + wsum pb)" by (rule fold16_cong_add) (simp_all add: s2')
  finally show ?thesis
    unfolding chksum_body_def h Let_def prod.case l1 l2 t'_def [symmetric] S_def [symmetric] .
qed

lemma uint_swap:
  fixes w :: "'a::len word"
  assumes "uint w \<le> 0xffff" "16 \<le> LENGTH('a)"
  shows "uint (SWAP_BYTES_IN_WORD w) = uint w mod 256 * 256 + uint w div 256"
proof -
  have d: "uint w div 256 < 256" using assms zdiv_mono1 [of "uint w" 65535 256] by simp
  have m: "uint w mod 256 < 256" by simp
  have p: "(65536::int) \<le> 2 ^ LENGTH('a)" using power_increasing [OF assms(2), of "2::int"] by simp
  have a: "uint (push_bit 8 (w AND 0xff)) = uint w mod 256 * 256"
  proof -
    have "(0xff :: 'a word) = mask 8" by (simp add: mask_eq_exp_minus_1)
    then have "uint (w AND 0xff) = uint w mod 256" using uint_and_mask_mod [of w 8] by simp
    then show ?thesis unfolding uint_push_bit_mod using m p by simp
  qed
  have b: "uint (drop_bit 8 (w AND 0xff00)) = uint w div 256"
  proof -
    have "(0xff00 :: 'a word) = push_bit 8 (mask 8)" by (simp add: mask_eq_exp_minus_1 push_bit_eq_mult)
    then have "drop_bit 8 (w AND 0xff00) = drop_bit 8 w AND drop_bit 8 (push_bit 8 (mask 8))" by (simp only: drop_bit_and)
    also have "\<dots> = drop_bit 8 w AND mask 8"
      by (rule bit_word_eqI) (use assms(2) in \<open>auto simp: bit_and_iff bit_drop_bit_eq bit_push_bit_iff bit_mask_iff\<close>)
    finally show ?thesis using d uint_and_mask_mod [of "drop_bit 8 w" 8] by (simp add: uint_drop_bit_div pos_imp_zdiv_nonneg_iff)
  qed
  have "uint (drop_bit 8 (w AND 0xff00) OR push_bit 8 (w AND 0xff)) = uint w div 256 + uint w mod 256 * 256"
    by (subst uint_or_disjoint [where n = 8]) (use a b d in simp_all)
  then show ?thesis by (simp add: SWAP_BYTES_IN_WORD_def or.commute)
qed

lemma fold16_swap:
  fixes w :: "'a::len word"
  assumes "uint w \<le> 0xffff" "16 \<le> LENGTH('a)"
  shows "fold16 (uint (SWAP_BYTES_IN_WORD w)) = fold16 (256 * uint w)"
    and "uint (SWAP_BYTES_IN_WORD w) \<le> 0xffff"
proof -
  have d: "uint w div 256 < 256" "0 \<le> uint w div 256"
    using assms zdiv_mono1 [of "uint w" 65535 256] by (simp_all add: pos_imp_zdiv_nonneg_iff)
  have m: "uint w mod 256 < 256" "0 \<le> uint w mod 256" by simp_all
  have "256 * uint w = uint w mod 256 * 256 + 65536 * (uint w div 256)"
    using mult_div_mod_eq [of 256 "uint w"] by linarith
  then have "fold16 (256 * uint w) = fold16 (uint w mod 256 * 256 + uint w div 256)"
    using d m by (simp only: fold16_65536 mult_nonneg_nonneg zero_le_numeral)
  then show "fold16 (uint (SWAP_BYTES_IN_WORD w)) = fold16 (256 * uint w)" by (simp only: uint_swap [OF assms])
  show "uint (SWAP_BYTES_IN_WORD w) \<le> 0xffff" unfolding uint_swap [OF assms] using d m by linarith
qed

lemma uint_standard_chksum: "uint (lwip_standard_chksum dataptr data) = fold16 (wsum data)"
proof -
  define acc where "acc = (if odd dataptr \<and> length data > 0 then chksum_body (push_bit 8 (ucast (hd data))) (dataptr + 1) (tl data)
    else chksum_body 0 dataptr data)"
  define n where "n = (if odd dataptr \<and> length data > 0 then 256 * uint (hd data) + wsum (tl data) else wsum data)"
  have hd8: "uint (hd data) < 256" using uint_bounded [of "hd data"] by simp
  have pb: "uint (push_bit 8 (ucast (hd data)) :: u16) = 256 * uint (hd data)"
    using hd8 by (simp add: uint_push_bit_mod uint_ucast_up)
  have acc: "uint acc = fold16 n"
    using chksum_body_spec [OF pb] chksum_body_spec [of 0 0 dataptr data] pb
    by (cases "odd dataptr \<and> length data > 0") (simp_all only: acc_def n_def if_True if_False, simp_all)
  have n0: "0 \<le> n" by (simp add: n_def)
  have le: "uint acc \<le> 0xffff" using fold16_range [of n] acc by simp
  define r where "r = (if odd dataptr then SWAP_BYTES_IN_WORD acc else acc)"
  have r: "uint r \<le> 0xffff" "fold16 (uint r) = fold16 (wsum data)"
  proof -
    show "uint r \<le> 0xffff" using le fold16_swap(2) [of acc] by (simp add: r_def)
    show "fold16 (uint r) = fold16 (wsum data)"
    proof (cases "odd dataptr")
      case True
      have "fold16 (uint r) = fold16 (256 * uint acc)" using True le fold16_swap(1) [of acc] by (simp add: r_def)
      also have "\<dots> = fold16 (256 * n)"
        using n0 by (intro fold16_cong_mult) (simp_all add: acc fold16_range fold16_id)
      also have "\<dots> = fold16 (wsum data)"
      proof (cases data)
        case (Cons b bs)
        have "256 * n = 256 * wsum bs + 65536 * uint b" using True by (simp add: n_def Cons algebra_simps)
        then show ?thesis by (simp only: fold16_65536 uint_ge_0 mult_nonneg_nonneg zero_le_numeral wsum_nonneg)
            (simp add: Cons wsum_Cons add.commute)
      qed (simp add: n_def)
      finally show ?thesis .
    next
      case False
      then show ?thesis using acc by (simp add: r_def n_def fold16_range fold16_id)
    qed
  qed
  have "lwip_standard_chksum dataptr data = ucast r" by (simp add: lwip_standard_chksum_def acc_def r_def Let_def)
  moreover have "uint (ucast r :: u16) = uint r" using r(1) by (simp add: uint_ucast_down)
  ultimately show ?thesis using r fold16_id [of "uint r"] by simp
qed

lemma uint_not16: "uint (NOT (w :: u16)) = 65535 - uint w"
proof -
  have m: "uint (- 1 :: u16) = 65535" by (simp add: unsigned_minus_1_eq_mask mask_eq_exp_minus_1)
  have "uint w \<le> uint (- 1 :: u16)" using uint_bounded [of w] unfolding m by simp
  from uint_sub_fits [OF this] show ?thesis unfolding m by (simp add: not_eq_complement minus_diff_commute)
qed

lemma inet_chksum_eq: "inet_chksum dataptr data = NOT (lwip_standard_chksum dataptr data)"
  unfolding inet_chksum_def by (rule bit_word_eqI) (simp add: bit_ucast_iff bit_not_iff)

text \<open>A checksum stored in a zeroed 16-bit field makes the sum of the whole buffer come out as all ones.\<close>

lemma chksum_verifies:
  assumes "even (length xs)"
  shows "lwip_standard_chksum a (xs @ le_bytes 2 (inet_chksum b (xs @ [0, 0] @ ys)) @ ys) = 0xffff"
proof -
  define s where "s = wsum xs + wsum ys"
  have c: "uint (inet_chksum b (xs @ [0, 0] @ ys)) = 65535 - fold16 s"
    using assms by (simp add: inet_chksum_eq uint_not16 uint_standard_chksum wsum_append_even s_def)
  have w2: "wsum (le_bytes 2 v) = uint v" for v :: u16
    using le_val_le_bytes_all [of 2 v] by (simp add: le_bytes_def numeral_2_eq_2)
  have s0: "0 \<le> s" by (simp add: s_def)
  have "wsum (xs @ le_bytes 2 (inet_chksum b (xs @ [0, 0] @ ys)) @ ys) = s + (65535 - fold16 s)"
    unfolding c [symmetric] w2 [symmetric] using assms by (simp add: wsum_append_even s_def)
  moreover have "fold16 (s + (65535 - fold16 s)) = fold16 65535"
  proof (rule fold16_eqI)
    show "(s + (65535 - fold16 s)) mod 65535 = 65535 mod 65535"
    proof -
      have "65535 dvd s - fold16 s" using fold16_mod [of s] by (simp add: mod_eq_dvd_iff dvd_diff_commute)
      moreover have "s + (65535 - fold16 s) = (s - fold16 s) + 65535" by simp
      ultimately show ?thesis by (simp only: mod_add_self2 mod_self dvd_eq_mod_eq_0)
    qed
    show "(s + (65535 - fold16 s) = 0) = ((65535::int) = 0)" using fold16_range [of s] fold16_zero [of s] s0
      by linarith
    show "0 \<le> s + (65535 - fold16 s)" using fold16_range [of s] s0 by simp
  qed simp
  ultimately have "uint (lwip_standard_chksum a (xs @ le_bytes 2 (inet_chksum b (xs @ [0, 0] @ ys)) @ ys)) = 65535"
    by (simp add: uint_standard_chksum fold16_def)
  then show ?thesis by (simp add: word_uint_eq_iff)
qed

end
