(* ===== verification/Pbuf.thy ===== *)
theory Pbuf
  imports Memp Inet_Sum "HOL-Library.Monad_Syntax"
begin

text \<open>
  lwIP's packet buffers, \<^verbatim>\<open>core/pbuf.c\<close> as configured by \<^verbatim>\<open>lwipopts.h\<close> (no custom pbufs, no out-of-order queue, the C library's
  heap). The memory is a record: the pbuf structures by address, the payload bytes by address, the free lists of the memory
  pools and the live blocks of the C heap. A pointer is an optional address. Every operation returns an optional result:
  \<open>None\<close> stands for an execution that does not return properly, because an \<^verbatim>\<open>LWIP_ASSERT\<close> aborts, a dead pbuf or a wrong byte
  is accessed, or a loop over a circular chain never ends. The loops are \<^theory_text>\<open>partial_function (option)\<close>, so that their
  termination is part of what the theorems show. The C library's \<^verbatim>\<open>malloc\<close> is the parameter \<open>malloc\<close>.
\<close>

section \<open>Data\<close>

datatype err_t = ERR_OK | ERR_MEM | ERR_BUF | ERR_TIMEOUT | ERR_RTE | ERR_INPROGRESS | ERR_VAL | ERR_WOULDBLOCK | ERR_USE
  | ERR_ALREADY | ERR_ISCONN | ERR_CONN | ERR_IF | ERR_ABRT | ERR_RST | ERR_CLSD | ERR_ARG

datatype pbuf_type = PBUF_RAM | PBUF_ROM | PBUF_REF | PBUF_POOL

datatype pbuf_layer = PBUF_TRANSPORT | PBUF_IP | PBUF_LINK | PBUF_RAW_TX | PBUF_RAW

fun layer_offset :: "pbuf_layer \<Rightarrow> nat" where
  "layer_offset PBUF_TRANSPORT = 0 + 14 + 40 + 20"
| "layer_offset PBUF_IP = 0 + 14 + 40"
| "layer_offset PBUF_LINK = 0 + 14"
| "layer_offset PBUF_RAW_TX = 0"
| "layer_offset PBUF_RAW = 0"

text \<open>The enumeration value cut to \<^verbatim>\<open>u8_t\<close>, as \<^verbatim>\<open>type_internal\<close> stores it.\<close>

fun type_bits :: "pbuf_type \<Rightarrow> u8" where
  "type_bits PBUF_RAM = 0x80"
| "type_bits PBUF_ROM = 0x01"
| "type_bits PBUF_REF = 0x41"
| "type_bits PBUF_POOL = 0x82"

record pbuf =
  pnext :: "nat option"
  payload :: nat
  tot_len :: u16
  plen :: u16
  type_internal :: u8
  pflags :: u8
  pref :: u8
  if_idx :: u8

record pmem =
  pbufs :: "nat \<rightharpoonup> pbuf"
  bytes :: "nat \<Rightarrow> u8"
  tabs :: memp_tabs
  heap :: "nat \<rightharpoonup> nat"

type_synonym mallocf = "pmem \<Rightarrow> nat \<Rightarrow> nat option"

definition SIZEOF_STRUCT_PBUF :: nat where
  "SIZEOF_STRUCT_PBUF = 24"

definition PBUF_POOL_BUFSIZE_ALIGNED :: nat where
  "PBUF_POOL_BUFSIZE_ALIGNED = LWIP_MEM_ALIGN_SIZE 1500"

section \<open>Memory access\<close>

definition rd :: "pmem \<Rightarrow> nat \<Rightarrow> nat \<Rightarrow> u8 list" where
  "rd m a n = map (bytes m) [a..<a + n]"

definition wr :: "nat \<Rightarrow> u8 list \<Rightarrow> pmem \<Rightarrow> pmem" where
  "wr a bs m = m\<lparr>bytes := (\<lambda>x. if a \<le> x \<and> x < a + length bs then bs ! (x - a) else bytes m x)\<rparr>"

definition upd :: "nat \<Rightarrow> (pbuf \<Rightarrow> pbuf) \<Rightarrow> pmem \<Rightarrow> pmem" where
  "upd a f m = m\<lparr>pbufs := (pbufs m)(a := map_option f (pbufs m a))\<rparr>"

definition assert_that :: "bool \<Rightarrow> unit option" where
  "assert_that b = (if b then Some () else None)"

definition mem_malloc :: "mallocf \<Rightarrow> nat \<Rightarrow> pmem \<Rightarrow> (nat option \<times> pmem) option" where
  "mem_malloc malloc n m =
    (case malloc m n of
       None \<Rightarrow> Some (None, m)
     | Some a \<Rightarrow> if LWIP_MEM_ALIGN a = a then Some (Some a, m\<lparr>heap := (heap m)(a \<mapsto> n)\<rparr>) else None)"

text \<open>Freeing what is not a live block of the C heap is undefined.\<close>

definition mem_free :: "nat \<Rightarrow> pmem \<Rightarrow> pmem option" where
  "mem_free a m =
    (if a \<noteq> 0 \<and> LWIP_MEM_ALIGN a = a \<and> a \<in> dom (heap m) then Some (m\<lparr>heap := (heap m)(a := None)\<rparr>) else None)"

section \<open>Freeing\<close>

definition pbuf_get_allocsrc :: "pbuf \<Rightarrow> u8" where
  "pbuf_get_allocsrc p = type_internal p AND 0x0f"

definition pbuf_dealloc :: "nat \<Rightarrow> pbuf \<Rightarrow> pmem \<Rightarrow> pmem option" where
  "pbuf_dealloc a p m =
    (let m = m\<lparr>pbufs := (pbufs m)(a := None)\<rparr>;
         alloc_src = pbuf_get_allocsrc p
     in if alloc_src = 0x02 then map_option (\<lambda>t. m\<lparr>tabs := t\<rparr>) (memp_free MEMP_PBUF_POOL (Some a) (tabs m))
        else if alloc_src = 0x01 then map_option (\<lambda>t. m\<lparr>tabs := t\<rparr>) (memp_free MEMP_PBUF (Some a) (tabs m))
        else if alloc_src = 0x00 then mem_free a m
        else None)"

partial_function (option) pbuf_free_loop :: "nat option \<Rightarrow> u8 \<Rightarrow> pmem \<Rightarrow> (u8 \<times> pmem) option" where
  "pbuf_free_loop p count m =
    (case p of
       None \<Rightarrow> Some (count, m)
     | Some a \<Rightarrow> do {
         pb \<leftarrow> pbufs m a;
         _ \<leftarrow> assert_that (pref pb > 0);
         let r = pref pb - 1;
         let m = upd a (\<lambda>b. b\<lparr>pref := r\<rparr>) m;
         if r = 0 then do {
           m \<leftarrow> pbuf_dealloc a pb m;
           pbuf_free_loop (pnext pb) (count + 1) m
         } else Some (count, m)
       })"

definition pbuf_free :: "nat option \<Rightarrow> pmem \<Rightarrow> (u8 \<times> pmem) option" where
  "pbuf_free p m = do { _ \<leftarrow> assert_that (p \<noteq> None); pbuf_free_loop p 0 m }"

section \<open>Allocation\<close>

definition pbuf_init_alloced_pbuf :: "nat \<Rightarrow> nat \<Rightarrow> u16 \<Rightarrow> u16 \<Rightarrow> pbuf_type \<Rightarrow> u8 \<Rightarrow> pmem \<Rightarrow> pmem" where
  "pbuf_init_alloced_pbuf p pl tot l ty fl m =
    m\<lparr>pbufs := (pbufs m)(p \<mapsto> \<lparr>pnext = None, payload = pl, tot_len = tot, plen = l, type_internal = type_bits ty,
        pflags = fl, pref = 1, if_idx = 0\<rparr>)\<rparr>"

definition pbuf_alloc_reference :: "nat \<Rightarrow> u16 \<Rightarrow> pbuf_type \<Rightarrow> pmem \<Rightarrow> (nat option \<times> pmem) option" where
  "pbuf_alloc_reference pl len ty m = do {
     _ \<leftarrow> assert_that (ty = PBUF_REF \<or> ty = PBUF_ROM);
     (p, t) \<leftarrow> memp_malloc MEMP_PBUF (tabs m);
     let m = m\<lparr>tabs := t\<rparr>;
     case p of
       None \<Rightarrow> Some (None, m)
     | Some a \<Rightarrow> Some (Some a, pbuf_init_alloced_pbuf a pl len len ty 0 m)
   }"

partial_function (option) pool_chain_loop ::
  "nat option \<Rightarrow> nat option \<Rightarrow> u16 \<Rightarrow> nat \<Rightarrow> pmem \<Rightarrow> (nat option \<times> pmem) option" where
  "pool_chain_loop p lastp rem_len off m = do {
     (q, t) \<leftarrow> memp_malloc MEMP_PBUF_POOL (tabs m);
     let m = m\<lparr>tabs := t\<rparr>;
     case q of
       None \<Rightarrow> (case p of
           None \<Rightarrow> Some (None, m)
         | Some _ \<Rightarrow> do { (_, m) \<leftarrow> pbuf_free p m; Some (None, m) })
     | Some q \<Rightarrow> do {
         let room = PBUF_POOL_BUFSIZE_ALIGNED - LWIP_MEM_ALIGN_SIZE off;
         let qlen = min rem_len (of_nat room);
         let pl = LWIP_MEM_ALIGN (q + SIZEOF_STRUCT_PBUF + off);
         let m = pbuf_init_alloced_pbuf q pl rem_len qlen PBUF_POOL 0 m;
         _ \<leftarrow> assert_that (pl mod MEM_ALIGNMENT = 0);
         _ \<leftarrow> assert_that (room > 0);
         let m = (case lastp of None \<Rightarrow> m | Some l \<Rightarrow> upd l (\<lambda>b. b\<lparr>pnext := Some q\<rparr>) m);
         let p = (case p of None \<Rightarrow> Some q | Some p \<Rightarrow> Some p);
         let rem_len = rem_len - qlen;
         if rem_len > 0 then pool_chain_loop p (Some q) rem_len 0 m else Some (p, m)
       }
   }"

definition pbuf_alloc :: "mallocf \<Rightarrow> pbuf_layer \<Rightarrow> u16 \<Rightarrow> pbuf_type \<Rightarrow> pmem \<Rightarrow> (nat option \<times> pmem) option" where
  "pbuf_alloc malloc layer len ty m =
    (let off = layer_offset layer
     in case ty of
       PBUF_REF \<Rightarrow> pbuf_alloc_reference 0 len ty m
     | PBUF_ROM \<Rightarrow> pbuf_alloc_reference 0 len ty m
     | PBUF_POOL \<Rightarrow> pool_chain_loop None None len off m
     | PBUF_RAM \<Rightarrow>
         let payload_len = (LWIP_MEM_ALIGN_SIZE off + LWIP_MEM_ALIGN_SIZE (unat len)) mod 2 ^ 64;
             alloc_len = (LWIP_MEM_ALIGN_SIZE SIZEOF_STRUCT_PBUF + payload_len) mod 2 ^ 64
         in if payload_len < LWIP_MEM_ALIGN_SIZE (unat len) \<or> alloc_len < LWIP_MEM_ALIGN_SIZE (unat len) then Some (None, m)
            else do {
              (p, m) \<leftarrow> mem_malloc malloc alloc_len m;
              case p of
                None \<Rightarrow> Some (None, m)
              | Some p \<Rightarrow> do {
                  let pl = LWIP_MEM_ALIGN (p + SIZEOF_STRUCT_PBUF + off);
                  _ \<leftarrow> assert_that (pl mod MEM_ALIGNMENT = 0);
                  Some (Some p, pbuf_init_alloced_pbuf p pl len len ty 0 m)
                }
            })"

section \<open>Shrinking and headers\<close>

partial_function (option) realloc_loop :: "nat \<Rightarrow> u16 \<Rightarrow> u16 \<Rightarrow> pmem \<Rightarrow> (nat \<times> u16 \<times> pmem) option" where
  "realloc_loop q rem_len shrink m = do {
     pb \<leftarrow> pbufs m q;
     if rem_len > plen pb then do {
       let rem_len = rem_len - plen pb;
       let m = upd q (\<lambda>b. b\<lparr>tot_len := tot_len b - shrink\<rparr>) m;
       (case pnext pb of None \<Rightarrow> None | Some q \<Rightarrow> realloc_loop q rem_len shrink m)
     } else Some (q, rem_len, m)
   }"

text \<open>\<^verbatim>\<open>mem_trim\<close> returns its argument when the C library's heap is used.\<close>

definition pbuf_realloc :: "nat option \<Rightarrow> u16 \<Rightarrow> pmem \<Rightarrow> pmem option" where
  "pbuf_realloc p new_len m = do {
     p \<leftarrow> p;
     pb \<leftarrow> pbufs m p;
     if new_len \<ge> tot_len pb then Some m
     else do {
       let shrink = tot_len pb - new_len;
       (q, rem_len, m) \<leftarrow> realloc_loop p new_len shrink m;
       let m = upd q (\<lambda>b. b\<lparr>plen := rem_len, tot_len := rem_len\<rparr>) m;
       qb \<leftarrow> pbufs m q;
       m \<leftarrow> (case pnext qb of None \<Rightarrow> Some m | Some n \<Rightarrow> map_option snd (pbuf_free (Some n) m));
       Some (upd q (\<lambda>b. b\<lparr>pnext := None\<rparr>) m)
     }
   }"

text \<open>The pointer difference is computed modulo the size of the address space.\<close>

definition pbuf_add_header_impl :: "nat option \<Rightarrow> nat \<Rightarrow> bool \<Rightarrow> pmem \<Rightarrow> (u8 \<times> pmem) option" where
  "pbuf_add_header_impl p inc force m = do {
     a \<leftarrow> p;
     pb \<leftarrow> pbufs m a;
     if inc > 0xFFFF then Some (1, m)
     else if inc = 0 then Some (0, m)
     else
       let mag = (of_nat inc :: u16)
       in if mag + tot_len pb < mag then Some (1, m)
          else
            let contiguous = type_internal pb AND 0x80 \<noteq> 0;
                pl = (payload pb + 2 ^ 64 - inc) mod 2 ^ 64
            in if contiguous \<and> pl < a + SIZEOF_STRUCT_PBUF then Some (1, m)
               else if \<not> contiguous \<and> \<not> force then Some (1, m)
               else Some (0, upd a (\<lambda>b. b\<lparr>payload := pl, plen := plen b + mag, tot_len := tot_len b + mag\<rparr>) m)
   }"

definition pbuf_add_header :: "nat option \<Rightarrow> nat \<Rightarrow> pmem \<Rightarrow> (u8 \<times> pmem) option" where
  "pbuf_add_header p inc m = pbuf_add_header_impl p inc False m"

definition pbuf_add_header_force :: "nat option \<Rightarrow> nat \<Rightarrow> pmem \<Rightarrow> (u8 \<times> pmem) option" where
  "pbuf_add_header_force p inc m = pbuf_add_header_impl p inc True m"

definition pbuf_remove_header :: "nat option \<Rightarrow> nat \<Rightarrow> pmem \<Rightarrow> (u8 \<times> pmem) option" where
  "pbuf_remove_header p dec m = do {
     a \<leftarrow> p;
     pb \<leftarrow> pbufs m a;
     if dec > 0xFFFF then Some (1, m)
     else if dec = 0 then Some (0, m)
     else
       let mag = (of_nat dec :: u16)
       in if \<not> mag \<le> plen pb then Some (1, m)
          else Some (0, upd a (\<lambda>b. b\<lparr>payload := payload b + dec, plen := plen b - mag, tot_len := tot_len b - mag\<rparr>) m)
   }"

definition pbuf_header_impl :: "nat option \<Rightarrow> 16 word \<Rightarrow> bool \<Rightarrow> pmem \<Rightarrow> (u8 \<times> pmem) option" where
  "pbuf_header_impl p inc force m =
    (if sint inc < 0 then pbuf_remove_header p (nat (- sint inc)) m else pbuf_add_header_impl p (nat (sint inc)) force m)"

definition pbuf_header :: "nat option \<Rightarrow> 16 word \<Rightarrow> pmem \<Rightarrow> (u8 \<times> pmem) option" where
  "pbuf_header p inc m = pbuf_header_impl p inc False m"

definition pbuf_header_force :: "nat option \<Rightarrow> 16 word \<Rightarrow> pmem \<Rightarrow> (u8 \<times> pmem) option" where
  "pbuf_header_force p inc m = pbuf_header_impl p inc True m"

partial_function (option) pbuf_free_header :: "nat option \<Rightarrow> u16 \<Rightarrow> pmem \<Rightarrow> (nat option \<times> pmem) option" where
  "pbuf_free_header p free_left m =
    (if free_left = 0 then Some (p, m)
     else case p of
       None \<Rightarrow> Some (None, m)
     | Some a \<Rightarrow> do {
         pb \<leftarrow> pbufs m a;
         if free_left \<ge> plen pb then do {
           let m = upd a (\<lambda>b. b\<lparr>pnext := None\<rparr>) m;
           (_, m) \<leftarrow> pbuf_free (Some a) m;
           pbuf_free_header (pnext pb) (free_left - plen pb) m
         } else do {
           (_, m) \<leftarrow> pbuf_remove_header p (unat free_left) m;
           Some (p, m)
         }
       })"

section \<open>Chains\<close>

partial_function (option) pbuf_clen_loop :: "pmem \<Rightarrow> nat option \<Rightarrow> u16 \<Rightarrow> u16 option" where
  "pbuf_clen_loop m p l =
    (case p of None \<Rightarrow> Some l | Some a \<Rightarrow> do { pb \<leftarrow> pbufs m a; pbuf_clen_loop m (pnext pb) (l + 1) })"

definition pbuf_clen :: "pmem \<Rightarrow> nat option \<Rightarrow> u16 option" where
  "pbuf_clen m p = pbuf_clen_loop m p 0"

definition pbuf_ref :: "nat option \<Rightarrow> pmem \<Rightarrow> pmem option" where
  "pbuf_ref p m =
    (case p of
       None \<Rightarrow> Some m
     | Some a \<Rightarrow> do {
         pb \<leftarrow> pbufs m a;
         let r = pref pb + 1;
         _ \<leftarrow> assert_that (r > 0);
         Some (upd a (\<lambda>b. b\<lparr>pref := r\<rparr>) m)
       })"

partial_function (option) cat_loop :: "nat \<Rightarrow> nat \<Rightarrow> pmem \<Rightarrow> (nat \<times> pmem) option" where
  "cat_loop p t m = do {
     pb \<leftarrow> pbufs m p;
     tb \<leftarrow> pbufs m t;
     (case pnext pb of
        None \<Rightarrow> Some (p, m)
      | Some n \<Rightarrow> cat_loop n t (upd p (\<lambda>b. b\<lparr>tot_len := tot_len b + tot_len tb\<rparr>) m))
   }"

definition pbuf_cat :: "nat option \<Rightarrow> nat option \<Rightarrow> pmem \<Rightarrow> pmem option" where
  "pbuf_cat h t m =
    (case (h, t) of
       (Some h, Some t) \<Rightarrow> do {
         (p, m) \<leftarrow> cat_loop h t m;
         pb \<leftarrow> pbufs m p;
         tb \<leftarrow> pbufs m t;
         _ \<leftarrow> assert_that (tot_len pb = plen pb);
         Some (upd p (\<lambda>b. b\<lparr>tot_len := tot_len b + tot_len tb, pnext := Some t\<rparr>) m)
       }
     | _ \<Rightarrow> Some m)"

definition pbuf_chain :: "nat option \<Rightarrow> nat option \<Rightarrow> pmem \<Rightarrow> pmem option" where
  "pbuf_chain h t m = do { m \<leftarrow> pbuf_cat h t m; pbuf_ref t m }"

definition pbuf_dechain :: "nat \<Rightarrow> pmem \<Rightarrow> (nat option \<times> pmem) option" where
  "pbuf_dechain p m = do {
     pb \<leftarrow> pbufs m p;
     (tail_gone, m) \<leftarrow>
       (case pnext pb of
          None \<Rightarrow> Some (1, m)
        | Some q \<Rightarrow> do {
            qb \<leftarrow> pbufs m q;
            _ \<leftarrow> assert_that (int (unat (tot_len qb)) = int (unat (tot_len pb)) - int (unat (plen pb)));
            let m = upd q (\<lambda>b. b\<lparr>tot_len := tot_len pb - plen pb\<rparr>) m;
            let m = upd p (\<lambda>b. b\<lparr>pnext := None, tot_len := plen b\<rparr>) m;
            pbuf_free (Some q) m
          });
     pb' \<leftarrow> pbufs m p;
     _ \<leftarrow> assert_that (tot_len pb' = plen pb');
     Some (if tail_gone > 0 then None else pnext pb, m)
   }"

section \<open>Reading\<close>

text \<open>The destination is the application's buffer, a list of bytes; writing past its end is undefined.\<close>

partial_function (option) copy_partial_loop ::
  "pmem \<Rightarrow> nat option \<Rightarrow> u8 list \<Rightarrow> u16 \<Rightarrow> u16 \<Rightarrow> u16 \<Rightarrow> u16 \<Rightarrow> (u16 \<times> u8 list) option" where
  "copy_partial_loop m p dst len offset left copied_total =
    (if len = 0 then Some (copied_total, dst)
     else case p of
       None \<Rightarrow> Some (copied_total, dst)
     | Some a \<Rightarrow> do {
         pb \<leftarrow> pbufs m a;
         if offset \<noteq> 0 \<and> offset \<ge> plen pb then
           copy_partial_loop m (pnext pb) dst len (offset - plen pb) left copied_total
         else do {
           let n = (let n = plen pb - offset in if n > len then len else n);
           _ \<leftarrow> assert_that (unat left + unat n \<le> length dst);
           let dst = blit dst (unat left) (rd m (payload pb + unat offset) (unat n));
           copy_partial_loop m (pnext pb) dst (len - n) 0 (left + n) (copied_total + n)
         }
       })"

definition pbuf_copy_partial :: "pmem \<Rightarrow> nat option \<Rightarrow> u8 list option \<Rightarrow> u16 \<Rightarrow> u16 \<Rightarrow> (u16 \<times> u8 list option) option" where
  "pbuf_copy_partial m buf dst len offset =
    (case (buf, dst) of
       (Some b, Some d) \<Rightarrow> map_option (\<lambda>(n, d). (n, Some d)) (copy_partial_loop m buf d len offset 0 0)
     | _ \<Rightarrow> Some (0, dst))"

partial_function (option) pbuf_skip_const :: "pmem \<Rightarrow> nat option \<Rightarrow> u16 \<Rightarrow> (nat option \<times> u16) option" where
  "pbuf_skip_const m q offset_left =
    (case q of
       None \<Rightarrow> Some (None, offset_left)
     | Some a \<Rightarrow> do {
         qb \<leftarrow> pbufs m a;
         if plen qb \<le> offset_left then pbuf_skip_const m (pnext qb) (offset_left - plen qb)
         else Some (Some a, offset_left)
       })"

definition pbuf_skip :: "pmem \<Rightarrow> nat option \<Rightarrow> u16 \<Rightarrow> (nat option \<times> u16) option" where
  "pbuf_skip m p in_offset = pbuf_skip_const m p in_offset"

datatype contiguous = Nowhere | In_Place nat | In_Buffer "u8 list"

definition pbuf_get_contiguous :: "pmem \<Rightarrow> nat option \<Rightarrow> u8 list option \<Rightarrow> u16 \<Rightarrow> u16 \<Rightarrow> contiguous option" where
  "pbuf_get_contiguous m p buffer len offset =
    (case (p, buffer) of
       (Some _, Some buf) \<Rightarrow>
         if length buf < unat len then Some Nowhere
         else do {
           (q, out_offset) \<leftarrow> pbuf_skip_const m p offset;
           (case q of
              None \<Rightarrow> Some Nowhere
            | Some a \<Rightarrow> do {
                qb \<leftarrow> pbufs m a;
                if unat (plen qb) \<ge> unat out_offset + unat len then Some (In_Place (payload qb + unat out_offset))
                else do {
                  (n, buf) \<leftarrow> pbuf_copy_partial m q buffer len out_offset;
                  Some (if n \<noteq> len then Nowhere else (case buf of None \<Rightarrow> Nowhere | Some b \<Rightarrow> In_Buffer b))
                }
              })
         }
     | _ \<Rightarrow> Some Nowhere)"

definition pbuf_try_get_at :: "pmem \<Rightarrow> nat option \<Rightarrow> u16 \<Rightarrow> int option" where
  "pbuf_try_get_at m p offset = do {
     (q, q_idx) \<leftarrow> pbuf_skip_const m p offset;
     (case q of
        None \<Rightarrow> Some (- 1)
      | Some a \<Rightarrow> do {
          qb \<leftarrow> pbufs m a;
          Some (if plen qb > q_idx then uint (bytes m (payload qb + unat q_idx)) else - 1)
        })
   }"

definition pbuf_get_at :: "pmem \<Rightarrow> nat option \<Rightarrow> u16 \<Rightarrow> u8 option" where
  "pbuf_get_at m p offset = do { r \<leftarrow> pbuf_try_get_at m p offset; Some (if r \<ge> 0 then word_of_int r else 0) }"

partial_function (option) memcmp_loop :: "pmem \<Rightarrow> nat option \<Rightarrow> u16 \<Rightarrow> u8 list \<Rightarrow> u16 \<Rightarrow> u16 \<Rightarrow> u16 option" where
  "memcmp_loop m q start s2 n i =
    (if i < n then do {
       a \<leftarrow> pbuf_get_at m q (start + i);
       _ \<leftarrow> assert_that (unat i < length s2);
       if a \<noteq> s2 ! unat i then Some (of_nat (min (unat i + 1) 0xFFFF)) else memcmp_loop m q start s2 n (i + 1)
     } else Some 0)"

definition pbuf_memcmp :: "pmem \<Rightarrow> nat \<Rightarrow> u16 \<Rightarrow> u8 list \<Rightarrow> u16 \<Rightarrow> u16 option" where
  "pbuf_memcmp m p offset s2 n = do {
     pb \<leftarrow> pbufs m p;
     if unat (tot_len pb) < unat offset + unat n then Some 0xffff
     else do { (q, start) \<leftarrow> pbuf_skip_const m (Some p) offset; memcmp_loop m q start s2 n 0 }
   }"

partial_function (option) memfind_loop :: "pmem \<Rightarrow> nat \<Rightarrow> u8 list \<Rightarrow> u16 \<Rightarrow> u16 \<Rightarrow> u16 \<Rightarrow> u16 option" where
  "memfind_loop m p s2 mem_len max_cmp_start i =
    (if i \<le> max_cmp_start then do {
       plus \<leftarrow> pbuf_memcmp m p i s2 mem_len;
       if plus = 0 then Some i else memfind_loop m p s2 mem_len max_cmp_start (i + 1)
     } else Some 0xFFFF)"

definition pbuf_memfind :: "pmem \<Rightarrow> nat \<Rightarrow> u8 list \<Rightarrow> u16 \<Rightarrow> u16 \<Rightarrow> u16 option" where
  "pbuf_memfind m p s2 mem_len start_offset = do {
     pb \<leftarrow> pbufs m p;
     if unat (tot_len pb) \<ge> unat mem_len + unat start_offset
     then memfind_loop m p s2 mem_len (tot_len pb - mem_len) start_offset
     else Some 0xFFFF
   }"

definition pbuf_strstr :: "pmem \<Rightarrow> nat \<Rightarrow> u8 list option \<Rightarrow> u16 option" where
  "pbuf_strstr m p substr =
    (case substr of
       None \<Rightarrow> Some 0xFFFF
     | Some s \<Rightarrow> do {
         pb \<leftarrow> pbufs m p;
         if s = [] \<or> tot_len pb = 0xFFFF then Some 0xFFFF
         else if length s \<ge> 0xFFFF then Some 0xFFFF
         else pbuf_memfind m p s (of_nat (length s)) 0
       })"

section \<open>Writing\<close>

definition pbuf_put_at :: "nat option \<Rightarrow> u16 \<Rightarrow> u8 \<Rightarrow> pmem \<Rightarrow> pmem option" where
  "pbuf_put_at p offset data m = do {
     (q, q_idx) \<leftarrow> pbuf_skip m p offset;
     (case q of
        None \<Rightarrow> Some m
      | Some a \<Rightarrow> do { qb \<leftarrow> pbufs m a; Some (if plen qb > q_idx then wr (payload qb + unat q_idx) [data] m else m) })
   }"

partial_function (option) take_loop :: "nat option \<Rightarrow> u8 list \<Rightarrow> pmem \<Rightarrow> pmem option" where
  "take_loop p data m =
    (if data = [] then Some m
     else do {
       a \<leftarrow> p;
       pb \<leftarrow> pbufs m a;
       let n = min (length data) (unat (plen pb));
       take_loop (pnext pb) (drop n data) (wr (payload pb) (take n data) m)
     })"

text \<open>The caller's data is the list of the \<^verbatim>\<open>len\<close> bytes it points to; \<^verbatim>\<open>None\<close> is the null pointer.\<close>

definition pbuf_take :: "nat option \<Rightarrow> u8 list option \<Rightarrow> pmem \<Rightarrow> (err_t \<times> pmem) option" where
  "pbuf_take buf data m =
    (case (buf, data) of
       (Some a, Some d) \<Rightarrow> do {
         pb \<leftarrow> pbufs m a;
         if unat (tot_len pb) < length d then Some (ERR_MEM, m) else do { m \<leftarrow> take_loop buf d m; Some (ERR_OK, m) }
       }
     | _ \<Rightarrow> Some (ERR_ARG, m))"

definition pbuf_take_at :: "nat option \<Rightarrow> u8 list \<Rightarrow> u16 \<Rightarrow> pmem \<Rightarrow> (err_t \<times> pmem) option" where
  "pbuf_take_at buf data offset m = do {
     (q, target_offset) \<leftarrow> pbuf_skip m buf offset;
     (case q of
        None \<Rightarrow> Some (ERR_MEM, m)
      | Some a \<Rightarrow> do {
          qb \<leftarrow> pbufs m a;
          if unat (tot_len qb) \<ge> unat target_offset + length data then do {
            _ \<leftarrow> assert_that (target_offset < plen qb);
            let n = min (unat (plen qb) - unat target_offset) (length data);
            let m = wr (payload qb + unat target_offset) (take n data) m;
            if length data - n > 0 then pbuf_take (pnext qb) (Some (drop n data)) m else Some (ERR_OK, m)
          } else Some (ERR_MEM, m)
        })
   }"

text \<open>\<^verbatim>\<open>size_t\<close> arithmetic is done on 64-bit words.\<close>

partial_function (option) copy_pbuf_loop ::
  "nat option \<Rightarrow> nat option \<Rightarrow> u64 \<Rightarrow> u64 \<Rightarrow> u16 \<Rightarrow> pmem \<Rightarrow> (err_t \<times> pmem) option" where
  "copy_pbuf_loop p_to p_from offset_to offset_from copy_len m = do {
     ta \<leftarrow> p_to;
     fa \<leftarrow> p_from;
     tb \<leftarrow> pbufs m ta;
     fb \<leftarrow> pbufs m fa;
     let tl = ucast (plen tb);
     let fl = ucast (plen fb);
     let len = (if tl - offset_to \<ge> fl - offset_from then fl - offset_from else tl - offset_to);
     let len = min (ucast copy_len) len;
     let m = wr (payload tb + unat offset_to) (rd m (payload fb + unat offset_from) (unat len)) m;
     let offset_to = offset_to + len;
     let offset_from = offset_from + len;
     let copy_len = copy_len - ucast len;
     _ \<leftarrow> assert_that (offset_to \<le> tl);
     _ \<leftarrow> assert_that (offset_from \<le> fl);
     let (offset_from, p_from) = (if offset_from \<ge> fl then (0, pnext fb) else (offset_from, p_from));
     if p_from = None \<and> copy_len \<noteq> 0 then Some (ERR_ARG, m)
     else do {
       let (offset_to, p_to) = (if offset_to = tl then (0, pnext tb) else (offset_to, p_to));
       if p_to = None \<and> copy_len \<noteq> 0 then Some (ERR_ARG, m)
       else do {
         from_queue \<leftarrow> (case p_from of None \<Rightarrow> Some False
           | Some fa \<Rightarrow> do { fb \<leftarrow> pbufs m fa; Some (plen fb = tot_len fb \<and> pnext fb \<noteq> None) });
         to_queue \<leftarrow> (case p_to of None \<Rightarrow> Some False
           | Some ta \<Rightarrow> do { tb \<leftarrow> pbufs m ta; Some (plen tb = tot_len tb \<and> pnext tb \<noteq> None) });
         if from_queue \<or> to_queue then Some (ERR_VAL, m)
         else if copy_len = 0 then Some (ERR_OK, m)
         else copy_pbuf_loop p_to p_from offset_to offset_from copy_len m
       }
     }
   }"

definition pbuf_copy_partial_pbuf :: "nat option \<Rightarrow> nat option \<Rightarrow> u16 \<Rightarrow> u16 \<Rightarrow> pmem \<Rightarrow> (err_t \<times> pmem) option" where
  "pbuf_copy_partial_pbuf p_to p_from copy_len offset m =
    (case p_from of
       None \<Rightarrow> Some (ERR_ARG, m)
     | Some fa \<Rightarrow> do {
         fb \<leftarrow> pbufs m fa;
         if \<not> tot_len fb \<ge> copy_len then Some (ERR_ARG, m)
         else case p_to of
           None \<Rightarrow> Some (ERR_ARG, m)
         | Some ta \<Rightarrow> do {
             tb \<leftarrow> pbufs m ta;
             if \<not> unat (tot_len tb) \<ge> unat offset + unat copy_len then Some (ERR_ARG, m)
             else copy_pbuf_loop p_to p_from (ucast offset) 0 copy_len m
           }
       })"

definition pbuf_copy :: "nat option \<Rightarrow> nat option \<Rightarrow> pmem \<Rightarrow> (err_t \<times> pmem) option" where
  "pbuf_copy p_to p_from m =
    (case p_from of
       None \<Rightarrow> Some (ERR_ARG, m)
     | Some fa \<Rightarrow> do { fb \<leftarrow> pbufs m fa; pbuf_copy_partial_pbuf p_to p_from (tot_len fb) 0 m })"

definition pbuf_clone :: "mallocf \<Rightarrow> pbuf_layer \<Rightarrow> pbuf_type \<Rightarrow> nat \<Rightarrow> pmem \<Rightarrow> (nat option \<times> pmem) option" where
  "pbuf_clone malloc layer ty p m = do {
     pb \<leftarrow> pbufs m p;
     (q, m) \<leftarrow> pbuf_alloc malloc layer (tot_len pb) ty m;
     (case q of
        None \<Rightarrow> Some (None, m)
      | Some _ \<Rightarrow> do {
          (err, m) \<leftarrow> pbuf_copy q (Some p) m;
          _ \<leftarrow> assert_that (err = ERR_OK);
          Some (q, m)
        })
   }"

definition pbuf_coalesce :: "mallocf \<Rightarrow> nat \<Rightarrow> pbuf_layer \<Rightarrow> pmem \<Rightarrow> (nat \<times> pmem) option" where
  "pbuf_coalesce malloc p layer m = do {
     pb \<leftarrow> pbufs m p;
     if pnext pb = None then Some (p, m)
     else do {
       (q, m) \<leftarrow> pbuf_clone malloc layer PBUF_RAM p m;
       (case q of
          None \<Rightarrow> Some (p, m)
        | Some q \<Rightarrow> do { (_, m) \<leftarrow> pbuf_free (Some p) m; Some (q, m) })
     }
   }"

definition lwip_chksum_copy :: "nat \<Rightarrow> u8 list \<Rightarrow> pmem \<Rightarrow> u16 \<times> pmem" where
  "lwip_chksum_copy dst src m = (let m = wr dst src m in (lwip_standard_chksum dst (rd m dst (length src)), m))"

definition pbuf_fill_chksum :: "nat \<Rightarrow> u16 \<Rightarrow> u8 list \<Rightarrow> u16 \<Rightarrow> pmem \<Rightarrow> (err_t \<times> u16 \<times> pmem) option" where
  "pbuf_fill_chksum p start_offset data chksum m = do {
     pb \<leftarrow> pbufs m p;
     _ \<leftarrow> assert_that (length data \<noteq> 0);
     if start_offset \<ge> plen pb \<or> unat start_offset + length data > unat (plen pb) then Some (ERR_ARG, chksum, m)
     else do {
       let (copy_chksum, m) = lwip_chksum_copy (payload pb + unat start_offset) data m;
       let copy_chksum = (if start_offset AND 1 \<noteq> 0 then SWAP_BYTES_IN_WORD copy_chksum else copy_chksum);
       let acc = ucast chksum + ucast copy_chksum;
       Some (ERR_OK, ucast (FOLD_U32T acc), m)
     }
   }"

end
