(* ===== verification/Pbuf_Chain.thy ===== *)
theory Pbuf_Chain
  imports Pbuf
begin

text \<open>
  What a chain of packet buffers represents: the addresses it runs through, the packet invariant
  \<^verbatim>\<open>p->tot_len == p->len + (p->next ? p->next->tot_len : 0)\<close> that \<^verbatim>\<open>pbuf.h\<close> states, and its content, the concatenation of the
  payloads. The reading operations are shown to terminate on every chain and to compute the list function on the content.
\<close>

primrec chain :: "pmem \<Rightarrow> nat option \<Rightarrow> nat list \<Rightarrow> bool" where
  "chain m p [] \<longleftrightarrow> p = None"
| "chain m p (a # as) \<longleftrightarrow> p = Some a \<and> (case pbufs m a of None \<Rightarrow> False | Some pb \<Rightarrow> chain m (pnext pb) as)"

definition seg_len :: "pmem \<Rightarrow> nat \<Rightarrow> nat" where
  "seg_len m a = (case pbufs m a of None \<Rightarrow> 0 | Some pb \<Rightarrow> unat (plen pb))"

definition seg :: "pmem \<Rightarrow> nat \<Rightarrow> u8 list" where
  "seg m a = (case pbufs m a of None \<Rightarrow> [] | Some pb \<Rightarrow> rd m (payload pb) (unat (plen pb)))"

definition lens :: "pmem \<Rightarrow> nat list \<Rightarrow> nat" where
  "lens m as = sum_list (map (seg_len m) as)"

definition contents :: "pmem \<Rightarrow> nat list \<Rightarrow> u8 list" where
  "contents m as = concat (map (seg m) as)"

primrec totals :: "pmem \<Rightarrow> nat list \<Rightarrow> bool" where
  "totals m [] = True"
| "totals m (a # as) \<longleftrightarrow> (case pbufs m a of None \<Rightarrow> False | Some pb \<Rightarrow> unat (tot_len pb) = lens m (a # as)) \<and> totals m as"

definition packet :: "pmem \<Rightarrow> nat option \<Rightarrow> nat list \<Rightarrow> bool" where
  "packet m p as \<longleftrightarrow> chain m p as \<and> totals m as"

section \<open>Basic facts\<close>

lemma length_rd [simp]: "length (rd m a n) = n"
  by (simp add: rd_def)

lemma rd_0 [simp]: "rd m a 0 = []"
  by (simp add: rd_def)

lemma take_rd: "k \<le> n \<Longrightarrow> take k (rd m a n) = rd m a k"
  by (simp add: rd_def take_map)

lemma drop_rd: "k \<le> n \<Longrightarrow> drop k (rd m a n) = rd m (a + k) (n - k)"
  by (simp add: rd_def drop_map)

lemma nth_rd: "k < n \<Longrightarrow> rd m a n ! k = bytes m (a + k)"
  by (simp add: rd_def)

lemma lens_simps [simp]: "lens m [] = 0" "lens m (a # as) = seg_len m a + lens m as" "lens m (as @ bs) = lens m as + lens m bs"
  by (simp_all add: lens_def)

lemma contents_simps [simp]:
  "contents m [] = []" "contents m (a # as) = seg m a @ contents m as" "contents m (as @ bs) = contents m as @ contents m bs"
  by (simp_all add: contents_def)

lemma length_seg [simp]: "length (seg m a) = seg_len m a"
  by (simp add: seg_def seg_len_def split: option.splits)

lemma length_contents [simp]: "length (contents m as) = lens m as"
  by (induction as) simp_all

lemma chain_ConsE:
  assumes "chain m p (a # as)"
  obtains pb where "p = Some a" "pbufs m a = Some pb" "chain m (pnext pb) as"
  using assms by (auto split: option.splits)

lemma chain_append: "chain m p (us @ a # vs) \<Longrightarrow> chain m (Some a) (a # vs)"
proof (induction us arbitrary: p)
  case (Cons b us)
  then show ?case by (metis append_Cons chain_ConsE)
qed auto

lemma chain_unique: "chain m p as \<Longrightarrow> chain m p bs \<Longrightarrow> as = bs"
proof (induction as arbitrary: p bs)
  case Nil
  then show ?case by (cases bs) auto
next
  case (Cons a as)
  then show ?case by (cases bs) (auto split: option.splits)
qed

lemma chain_distinct: "chain m p as \<Longrightarrow> distinct as"
proof (induction as arbitrary: p)
  case (Cons a as)
  have "a \<notin> set as"
  proof
    assume "a \<in> set as"
    then obtain us vs where as: "as = us @ a # vs" by (auto dest: split_list)
    have "chain m (Some a) (a # vs)" using Cons.prems chain_append [of m p "a # us" a vs] by (simp add: as)
    then have "a # as = a # vs" using Cons.prems chain_unique by (metis chain_ConsE)
    then show False by (simp add: as)
  qed
  then show ?case using Cons by (auto split: option.splits)
qed simp

lemma chain_live: "chain m p as \<Longrightarrow> a \<in> set as \<Longrightarrow> \<exists>pb. pbufs m a = Some pb"
  by (induction as arbitrary: p) (auto split: option.splits)

lemma chain_cong:
  "(\<And>a. a \<in> set as \<Longrightarrow> map_option pnext (pbufs m a) = map_option pnext (pbufs m' a)) \<Longrightarrow> chain m p as = chain m' p as"
proof (induction as arbitrary: p)
  case (Cons a as)
  have "map_option pnext (pbufs m a) = map_option pnext (pbufs m' a)" "\<And>p. chain m p as = chain m' p as"
    using Cons by simp_all
  then show ?case by (cases "pbufs m a"; cases "pbufs m' a") simp_all
qed simp

lemma lens_cong: "(\<And>a. a \<in> set as \<Longrightarrow> map_option plen (pbufs m a) = map_option plen (pbufs m' a)) \<Longrightarrow> lens m as = lens m' as"
proof (induction as)
  case (Cons a as)
  have "map_option plen (pbufs m a) = map_option plen (pbufs m' a)" using Cons.prems by simp
  then have "seg_len m a = seg_len m' a" by (auto simp: seg_len_def split: option.splits)
  then show ?case using Cons by simp
qed simp

lemma totals_cong:
  "(\<And>a. a \<in> set as \<Longrightarrow> map_option plen (pbufs m a) = map_option plen (pbufs m' a)) \<Longrightarrow>
   (\<And>a. a \<in> set as \<Longrightarrow> map_option tot_len (pbufs m a) = map_option tot_len (pbufs m' a)) \<Longrightarrow> totals m as = totals m' as"
proof (induction as)
  case (Cons a as)
  have "lens m (a # as) = lens m' (a # as)" using Cons.prems by (intro lens_cong) auto
  moreover have "map_option tot_len (pbufs m a) = map_option tot_len (pbufs m' a)" using Cons.prems(2) by simp
  moreover have "totals m as = totals m' as" using Cons by simp
  ultimately show ?case by (cases "pbufs m a"; cases "pbufs m' a") simp_all
qed simp

lemma rd_cong: "bytes m = bytes m' \<Longrightarrow> rd m = rd m'"
  by (intro ext) (simp add: rd_def)

lemma contents_cong:
  "(\<And>a. a \<in> set as \<Longrightarrow> pbufs m a = pbufs m' a) \<Longrightarrow> bytes m = bytes m' \<Longrightarrow> contents m as = contents m' as"
proof (induction as)
  case (Cons a as)
  have "seg m a = seg m' a" using Cons.prems(1) rd_cong [OF Cons.prems(2)] by (cases "pbufs m' a") (simp_all add: seg_def)
  then show ?case using Cons by simp
qed simp

lemma packet_cong: "(\<And>a. a \<in> set as \<Longrightarrow> pbufs m a = pbufs m' a) \<Longrightarrow> packet m p as = packet m' p as"
  unfolding packet_def using chain_cong [of as m m'] totals_cong [of as m m'] by simp

lemma packet_ConsE:
  assumes "packet m p (a # as)"
  obtains pb where "p = Some a" "pbufs m a = Some pb" "packet m (pnext pb) as" "unat (tot_len pb) = unat (plen pb) + lens m as"
    "seg m a = rd m (payload pb) (unat (plen pb))" "seg_len m a = unat (plen pb)"
  using assms by (auto simp: packet_def seg_def seg_len_def split: option.splits)

lemma packet_Nil [simp]: "packet m p [] \<longleftrightarrow> p = None"
  by (simp add: packet_def)

lemma packet_len_bound: "packet m p as \<Longrightarrow> lens m as < 2 ^ 16"
proof (cases as)
  case (Cons a bs)
  assume "packet m p as"
  then have "packet m p (a # bs)" by (simp only: Cons)
  then obtain pb :: pbuf where "unat (tot_len pb) = unat (plen pb) + lens m bs" "seg_len m a = unat (plen pb)"
    by (rule packet_ConsE) blast
  moreover have "unat (tot_len pb) < 2 ^ 16" using unsigned_less [of "tot_len pb", where ?'a = nat] by simp
  ultimately show ?thesis unfolding Cons lens_simps by linarith
qed simp

section \<open>Reading operations\<close>

lemma unat_sub_le: "(b :: 'a::len word) \<le> a \<Longrightarrow> unat (a - b) = unat a - unat b"
  by (rule unat_sub)

text \<open>An offset into the content found as a pbuf of the chain and an offset into its payload.\<close>

definition located :: "pmem \<Rightarrow> nat list \<Rightarrow> nat \<Rightarrow> nat option \<Rightarrow> u16 \<Rightarrow> bool" where
  "located m as off q k \<longleftrightarrow>
    (if off < lens m as
     then \<exists>us a vs pb. as = us @ a # vs \<and> q = Some a \<and> pbufs m a = Some pb \<and> off = lens m us + unat k \<and> k < plen pb
     else q = None)"

lemma locatedE:
  assumes "located m as off q k" "off < lens m as"
  obtains us a vs pb where "as = us @ a # vs" "q = Some a" "pbufs m a = Some pb" "off = lens m us + unat k" "k < plen pb"
  using assms by (auto simp: located_def)

lemma locatedI:
  "as = us @ a # vs \<Longrightarrow> pbufs m a = Some pb \<Longrightarrow> off = lens m us + unat k \<Longrightarrow> k < plen pb \<Longrightarrow> located m as off (Some a) k"
  by (auto simp: located_def seg_len_def word_less_nat_alt)

lemma located_Cons:
  assumes "located m as (off - seg_len m a) q k" "seg_len m a \<le> off"
  shows "located m (a # as) off q k"
proof (cases "off - seg_len m a < lens m as")
  case True
  from assms(1) True obtain us b vs pb where "as = us @ b # vs" "q = Some b" "pbufs m b = Some pb"
    "off - seg_len m a = lens m us + unat k" "k < plen pb" by (rule locatedE)
  moreover from this assms(2) have "off = seg_len m a + lens m us + unat k" by linarith
  ultimately show ?thesis using locatedI [of "a # as" "a # us" b vs m pb off k] by simp
qed (use assms in \<open>auto simp: located_def\<close>)

lemma located_here:
  assumes "pbufs m a = Some pb" "k < plen pb"
  shows "located m (a # as) (unat k) (Some a) k"
  using assms locatedI [of "a # as" "[]" a as m pb "unat k" k] by simp

lemma skip_const_spec: "chain m p as \<Longrightarrow> \<exists>q k. pbuf_skip_const m p off = Some (q, k) \<and> located m as (unat off) q k"
proof (induction as arbitrary: p off)
  case Nil
  then show ?case by (subst pbuf_skip_const.simps) (simp add: located_def)
next
  case (Cons a as)
  from Cons.prems obtain pb where p: "p = Some a" "pbufs m a = Some pb" "chain m (pnext pb) as" by (rule chain_ConsE)
  have l: "seg_len m a = unat (plen pb)" by (simp add: seg_len_def p)
  show ?case
  proof (cases "plen pb \<le> off")
    case True
    have s: "pbuf_skip_const m p off = pbuf_skip_const m (pnext pb) (off - plen pb)"
      using True by (subst pbuf_skip_const.simps) (simp add: p)
    have u: "unat (off - plen pb) = unat off - seg_len m a" "seg_len m a \<le> unat off"
      using True by (simp_all add: l unat_sub_le word_le_nat_alt)
    obtain q k where "pbuf_skip_const m (pnext pb) (off - plen pb) = Some (q, k)" "located m as (unat (off - plen pb)) q k"
      using Cons.IH [OF p(3), of "off - plen pb"] by auto
    then show ?thesis using s u located_Cons by metis
  next
    case False
    then have "pbuf_skip_const m p off = Some (Some a, off)" by (subst pbuf_skip_const.simps) (simp add: p)
    then show ?thesis using located_here [OF p(2), of off] False by auto
  qed
qed

lemma located_nth:
  assumes "as = us @ a # vs" "pbufs m a = Some pb" "off = lens m us + unat k" "k < plen pb"
  shows "contents m as ! off = bytes m (payload pb + unat k)"
  using assms by (simp add: nth_append seg_len_def seg_def nth_rd word_less_nat_alt)

lemma try_get_at_spec:
  assumes "chain m p as"
  shows "pbuf_try_get_at m p off = Some (if unat off < lens m as then uint (contents m as ! unat off) else - 1)"
proof -
  obtain q k where s: "pbuf_skip_const m p off = Some (q, k)" "located m as (unat off) q k"
    using skip_const_spec [OF assms] by blast
  show ?thesis
  proof (cases "unat off < lens m as")
    case True
    from s(2) True obtain us a vs pb where w: "as = us @ a # vs" "q = Some a" "pbufs m a = Some pb"
      "unat off = lens m us + unat k" "k < plen pb" by (rule locatedE)
    then show ?thesis using True s(1) located_nth [OF w(1,3,4,5)] by (simp add: pbuf_try_get_at_def)
  qed (use s in \<open>simp add: pbuf_try_get_at_def located_def\<close>)
qed

lemma get_at_spec:
  assumes "chain m p as"
  shows "pbuf_get_at m p off = Some (if unat off < lens m as then contents m as ! unat off else 0)"
  by (simp add: pbuf_get_at_def try_get_at_spec [OF assms])

text \<open>Copying out.\<close>

lemma blit_blit:
  assumes "i + length xs + length ys \<le> length dst"
  shows "blit (blit dst i xs) (i + length xs) ys = blit dst i (xs @ ys)"
  using assms by (simp add: blit_def ac_simps)

lemma blit_Nil [simp]: "blit dst i [] = dst"
  by (simp add: blit_def)

lemma unat_add_fits:
  fixes a b :: "'a::len word"
  shows "unat a + unat b < 2 ^ LENGTH('a) \<Longrightarrow> unat (a + b) = unat a + unat b"
  by (simp add: unat_word_ariths)

definition window :: "pmem \<Rightarrow> nat list \<Rightarrow> nat \<Rightarrow> nat \<Rightarrow> u8 list" where
  "window m as off n = take n (drop off (contents m as))"

lemma copy_partial_loop_spec:
  "chain m p as \<Longrightarrow> unat left + length (window m as (unat off) (unat len)) \<le> length dst \<Longrightarrow> unat left + unat len < 2 ^ 16 \<Longrightarrow>
   copy_partial_loop m p dst len off left cnt =
     Some (cnt + of_nat (length (window m as (unat off) (unat len))), blit dst (unat left) (window m as (unat off) (unat len)))"
proof (induction as arbitrary: p dst len off left cnt)
  case Nil
  then show ?case by (subst copy_partial_loop.simps) (simp add: window_def)
next
  case (Cons a as)
  from Cons.prems(1) obtain pb where p: "p = Some a" "pbufs m a = Some pb" "chain m (pnext pb) as" by (rule chain_ConsE)
  have l: "seg_len m a = unat (plen pb)" "seg m a = rd m (payload pb) (unat (plen pb))" by (simp_all add: seg_len_def seg_def p)
  show ?case
  proof (cases "len = 0")
    case True
    then show ?thesis by (subst copy_partial_loop.simps) (simp add: window_def)
  next
    case nz: False
    show ?thesis
    proof (cases "off \<noteq> 0 \<and> off \<ge> plen pb")
      case True
      then have u: "unat (off - plen pb) = unat off - unat (plen pb)" "unat (plen pb) \<le> unat off"
        by (simp_all add: unat_sub_le word_le_nat_alt)
      then have w: "window m (a # as) (unat off) (unat len) = window m as (unat (off - plen pb)) (unat len)"
        by (simp add: window_def l)
      have "copy_partial_loop m p dst len off left cnt = copy_partial_loop m (pnext pb) dst len (off - plen pb) left cnt"
        using True nz by (subst copy_partial_loop.simps) (simp add: p)
      then show ?thesis using Cons.IH [OF p(3)] Cons.prems(2,3) unfolding w by simp
    next
      case False
      then have ol: "off \<le> plen pb" by (cases "off = 0") auto
      define n where "n = (if len < plen pb - off then len else plen pb - off)"
      have un: "unat n = min (unat (plen pb) - unat off) (unat len)"
        using ol by (auto simp: n_def unat_sub_le word_less_nat_alt min_def)
      have nl: "n \<le> len" "unat off + unat n \<le> unat (plen pb)" using ol un by (simp_all add: word_le_nat_alt)
      have ul: "unat (len - n) = unat len - unat n" using nl by (simp add: unat_sub_le)
      have w: "window m (a # as) (unat off) (unat len) = rd m (payload pb + unat off) (unat n) @ window m as 0 (unat (len - n))"
      proof -
        have "take (unat len) (drop (unat off) (seg m a)) = rd m (payload pb + unat off) (unat n)"
        proof (cases "unat (plen pb) - unat off \<le> unat len")
          case True
          then show ?thesis using ol un by (simp add: l drop_rd word_le_nat_alt)
        next
          case False
          then show ?thesis using ol un by (simp add: l drop_rd take_rd word_le_nat_alt)
        qed
        moreover have "take (unat len - (unat (plen pb) - unat off)) (contents m as) = window m as 0 (unat (len - n))"
          unfolding window_def ul un by (cases "unat (plen pb) - unat off \<le> unat len") simp_all
        moreover have "window m (a # as) (unat off) (unat len) =
            take (unat len) (drop (unat off) (seg m a)) @ take (unat len - (unat (plen pb) - unat off)) (contents m as)"
          using ol by (simp add: window_def l word_le_nat_alt)
        ultimately show ?thesis by simp
      qed
      have left: "unat (left + n) = unat left + unat n"
        using Cons.prems(3) nl(1) by (intro unat_add_fits) (simp add: word_le_nat_alt)
      have fits: "unat left + unat n \<le> length dst" using Cons.prems(2) unfolding w by simp
      have "copy_partial_loop m p dst len off left cnt =
          copy_partial_loop m (pnext pb) (blit dst (unat left) (rd m (payload pb + unat off) (unat n))) (len - n) 0 (left + n) (cnt + n)"
        by (subst copy_partial_loop.simps) (simp only: if_not_P [OF nz] p option.case bind.bind_lunit
          if_not_P [OF False] Let_def n_def [symmetric] assert_that_def fits if_True)
      also have "\<dots> = Some (cnt + n + of_nat (length (window m as 0 (unat (len - n)))),
          blit (blit dst (unat left) (rd m (payload pb + unat off) (unat n))) (unat (left + n)) (window m as 0 (unat (len - n))))"
        using Cons.IH [OF p(3), of "left + n" 0 "len - n"] Cons.prems(2,3) left ul nl fits unfolding w
        by (simp add: word_le_nat_alt)
      also have "\<dots> = Some (cnt + of_nat (length (window m (a # as) (unat off) (unat len))),
          blit dst (unat left) (window m (a # as) (unat off) (unat len)))"
        using Cons.prems(2) blit_blit [of "unat left" "rd m (payload pb + unat off) (unat n)" "window m as 0 (unat (len - n))" dst]
        unfolding w left by (simp add: add.assoc)
      finally show ?thesis .
    qed
  qed
qed

lemma copy_partial_spec:
  assumes "chain m (Some p) as" "length (window m as (unat off) (unat len)) \<le> length dst"
  shows "pbuf_copy_partial m (Some p) (Some dst) len off =
    Some (of_nat (length (window m as (unat off) (unat len))), Some (blit dst 0 (window m as (unat off) (unat len))))"
proof -
  have "unat (0::u16) + unat len < 2 ^ 16" using unsigned_less [of len, where ?'a = nat] by simp
  then show ?thesis using copy_partial_loop_spec [OF assms(1), of 0 off len dst 0] assms(2) by (simp add: pbuf_copy_partial_def)
qed

text \<open>Comparing and searching.\<close>

lemma skip_drop:
  assumes "packet m (Some p) as" "unat off < lens m as" "pbuf_skip_const m (Some p) off = Some (q, k)"
  obtains bs where "chain m q bs" "drop (unat k) (contents m bs) = drop (unat off) (contents m as)"
    "unat k + (lens m as - unat off) = lens m bs" "lens m bs \<le> lens m as"
proof -
  have c: "chain m (Some p) as" using assms(1) by (simp add: packet_def)
  have "located m as (unat off) q k" using skip_const_spec [OF c, of off] assms(3) by auto
  then obtain us a vs pb where w: "as = us @ a # vs" "q = Some a" "pbufs m a = Some pb" "unat off = lens m us + unat k" "k < plen pb"
    using assms(2) by (rule locatedE)
  show ?thesis
  proof (rule that)
    show "chain m q (a # vs)" using chain_append c w by blast
    show "drop (unat k) (contents m (a # vs)) = drop (unat off) (contents m as)" by (simp add: w)
    show "unat k + (lens m as - unat off) = lens m (a # vs)" using assms(2) by (simp add: w)
    show "lens m (a # vs) \<le> lens m as" by (simp add: w)
  qed
qed

lemma Suc_unat: "(i::u16) < n \<Longrightarrow> unat (i + 1) = Suc (unat i)"
proof -
  assume "i < n"
  then have "unat i < unat n" "unat n < 2 ^ 16"
    using unsigned_less [of n, where ?'a = nat] by (simp_all add: word_less_nat_alt)
  then have "unat i + unat (1::u16) < 2 ^ LENGTH(16)" by simp
  from unat_add_fits [OF this] show ?thesis by simp
qed

lemma unat_of_nat_fits: "n < 2 ^ 16 \<Longrightarrow> unat (of_nat n :: u16) = n"
  by (simp add: unat_of_nat)

lemma memcmp_loop_spec:
  assumes "chain m q bs" "unat k + unat n \<le> lens m bs" "lens m bs < 2 ^ 16" "unat n = length s2"
  shows "i \<le> n \<Longrightarrow> \<exists>r. memcmp_loop m q k s2 n i = Some r \<and>
    (r = 0 \<longleftrightarrow> (\<forall>j. unat i \<le> j \<longrightarrow> j < unat n \<longrightarrow> drop (unat k) (contents m bs) ! j = s2 ! j))"
proof (induction "unat n - unat i" arbitrary: i rule: less_induct)
  case less
  show ?case
  proof (cases "i < n")
    case False
    then have "memcmp_loop m q k s2 n i = Some 0" by (subst memcmp_loop.simps) simp
    then show ?thesis using False by (auto simp: word_less_nat_alt)
  next
    case True
    then have lt: "unat i < unat n" by (simp add: word_less_nat_alt)
    have ki: "unat (k + i) = unat k + unat i" using assms(2,3) lt by (intro unat_add_fits) simp
    have in_range: "unat k + unat i < lens m bs" using assms(2) lt by simp
    have g: "pbuf_get_at m q (k + i) = Some (drop (unat k) (contents m bs) ! unat i)"
      using get_at_spec [OF assms(1), of "k + i"] in_range assms(2) ki by simp
    have step: "memcmp_loop m q k s2 n i = (if drop (unat k) (contents m bs) ! unat i \<noteq> s2 ! unat i
        then Some (of_nat (min (unat i + 1) 0xFFFF)) else memcmp_loop m q k s2 n (i + 1))"
      using True lt assms(4) by (subst memcmp_loop.simps) (simp only: g bind.bind_lunit assert_that_def if_True)
    show ?thesis
    proof (cases "drop (unat k) (contents m bs) ! unat i = s2 ! unat i")
      case False
      have "unat n < 2 ^ 16" using unsigned_less [of n, where ?'a = nat] by simp
      then have "unat i + 1 < 2 ^ 16" using lt by linarith
      then have "min (unat i + 1) 0xFFFF = unat i + 1" by simp
      then have "unat (of_nat (min (unat i + 1) 0xFFFF) :: u16) = unat i + 1"
        using \<open>unat i + 1 < 2 ^ 16\<close> by (simp only: unat_of_nat_fits)
      then have "(of_nat (min (unat i + 1) 0xFFFF) :: u16) \<noteq> 0" by (metis add_is_0 unsigned_0 zero_neq_one)
      then show ?thesis using False lt step by auto
    next
      case eq: True
      have s: "unat (i + 1) = Suc (unat i)" "i + 1 \<le> n" using True Suc_unat lt by (simp_all add: word_le_nat_alt)
      obtain r where r: "memcmp_loop m q k s2 n (i + 1) = Some r"
        "r = 0 \<longleftrightarrow> (\<forall>j. unat (i + 1) \<le> j \<longrightarrow> j < unat n \<longrightarrow> drop (unat k) (contents m bs) ! j = s2 ! j)"
        using less(1) [of "i + 1", OF _ s(2)] s(1) diff_less_mono2 [of "unat i" "Suc (unat i)" "unat n"] lt by auto
      have "(\<forall>j. unat (i + 1) \<le> j \<longrightarrow> j < unat n \<longrightarrow> drop (unat k) (contents m bs) ! j = s2 ! j) \<longleftrightarrow>
          (\<forall>j. unat i \<le> j \<longrightarrow> j < unat n \<longrightarrow> drop (unat k) (contents m bs) ! j = s2 ! j)"
        unfolding s(1) using eq by (metis Suc_leI le_eq_less_or_eq less_imp_le_nat Suc_le_lessD)
      then show ?thesis using step eq r by auto
    qed
  qed
qed

lemma memcmp_spec:
  assumes "packet m (Some p) as" "length s2 < 2 ^ 16"
  shows "\<exists>r. pbuf_memcmp m p off s2 (of_nat (length s2)) = Some r \<and>
    (r = 0 \<longleftrightarrow> unat off + length s2 \<le> lens m as \<and> window m as (unat off) (length s2) = s2)"
proof -
  obtain a bs where as: "as = a # bs" using assms(1) by (cases as) auto
  obtain pb where pb: "Some p = Some a" "pbufs m a = Some pb" "packet m (pnext pb) bs"
    "unat (tot_len pb) = unat (plen pb) + lens m bs" "seg m a = rd m (payload pb) (unat (plen pb))" "seg_len m a = unat (plen pb)"
    using assms(1) unfolding as by (rule packet_ConsE)
  have tot: "pbufs m p = Some pb" "unat (tot_len pb) = lens m as" using pb as by simp_all
  have n: "unat (of_nat (length s2) :: u16) = length s2" using assms(2) by (simp add: unat_of_nat)
  show ?thesis
  proof (cases "unat off + length s2 \<le> lens m as")
    case False
    then have "pbuf_memcmp m p off s2 (of_nat (length s2)) = Some 0xffff" using tot n by (simp add: pbuf_memcmp_def)
    then show ?thesis using False by simp
  next
    case le: True
    obtain q k where s: "pbuf_skip_const m (Some p) off = Some (q, k)"
      using skip_const_spec [of m "Some p" as off] assms(1) by (auto simp: packet_def)
    have red: "pbuf_memcmp m p off s2 (of_nat (length s2)) = memcmp_loop m q k s2 (of_nat (length s2)) 0"
      using le tot n s by (simp add: pbuf_memcmp_def)
    show ?thesis
    proof (cases "s2 = []")
      case True
      have "memcmp_loop m q k s2 0 0 = Some 0" by (subst memcmp_loop.simps) simp
      then show ?thesis using True red le by (simp add: window_def)
    next
      case False
      then have "unat off < lens m as" using le by (cases s2) simp_all
      with assms(1) obtain bs where b: "chain m q bs" "drop (unat k) (contents m bs) = drop (unat off) (contents m as)"
        "unat k + (lens m as - unat off) = lens m bs" "lens m bs \<le> lens m as"
        using s by (rule skip_drop)
      have "lens m bs < 2 ^ 16" using b(4) packet_len_bound [OF assms(1)] by linarith
      moreover have "unat k + length s2 \<le> lens m bs" using b(3) le by linarith
      ultimately obtain r where r: "memcmp_loop m q k s2 (of_nat (length s2)) 0 = Some r"
        "r = 0 \<longleftrightarrow> (\<forall>j. j < length s2 \<longrightarrow> drop (unat off) (contents m as) ! j = s2 ! j)"
        using memcmp_loop_spec [OF b(1), of k "of_nat (length s2)" s2 0] unfolding n b(2) by auto
      have "window m as (unat off) (length s2) = s2 \<longleftrightarrow> (\<forall>j. j < length s2 \<longrightarrow> drop (unat off) (contents m as) ! j = s2 ! j)"
        using le by (auto simp: window_def list_eq_iff_nth_eq)
      then show ?thesis using r red le by simp
    qed
  qed
qed

definition occurs_at :: "pmem \<Rightarrow> nat list \<Rightarrow> u8 list \<Rightarrow> nat \<Rightarrow> bool" where
  "occurs_at m as s2 j \<longleftrightarrow> j + length s2 \<le> lens m as \<and> window m as j (length s2) = s2"

lemma Least_step: "\<not> P i \<Longrightarrow> (LEAST j. Suc i \<le> j \<and> P j) = (LEAST j. i \<le> j \<and> P (j::nat))"
  by (rule arg_cong [of _ _ Least]) (auto simp: Suc_le_eq le_less)

lemma memfind_loop_spec:
  assumes "packet m (Some p) as" "length s2 < 2 ^ 16" "unat mx = lens m as - length s2" "length s2 \<le> lens m as"
  shows "memfind_loop m p s2 (of_nat (length s2)) mx i = Some
    (if \<exists>j\<ge>unat i. occurs_at m as s2 j then of_nat (LEAST j. unat i \<le> j \<and> occurs_at m as s2 j) else 0xFFFF)"
proof (induction "lens m as + 1 - unat i" arbitrary: i rule: less_induct)
  case less
  have occ_le: "j \<le> unat mx" if "occurs_at m as s2 j" for j using that assms(3) unfolding occurs_at_def by linarith
  show ?case
  proof (cases "i \<le> mx")
    case False
    then have "memfind_loop m p s2 (of_nat (length s2)) mx i = Some 0xFFFF" by (subst memfind_loop.simps) simp
    moreover have "\<not> (\<exists>j\<ge>unat i. occurs_at m as s2 j)" using False occ_le by (fastforce simp: word_le_nat_alt)
    ultimately show ?thesis by (simp only: if_False)
  next
    case True
    then have le: "unat i \<le> unat mx" by (simp add: word_le_nat_alt)
    obtain r where r: "pbuf_memcmp m p i s2 (of_nat (length s2)) = Some r" "r = 0 \<longleftrightarrow> occurs_at m as s2 (unat i)"
      using memcmp_spec [OF assms(1,2), of i] by (auto simp: occurs_at_def)
    have step: "memfind_loop m p s2 (of_nat (length s2)) mx i = (if r = 0 then Some i else memfind_loop m p s2 (of_nat (length s2)) mx (i + 1))"
      using True r(1) by (subst memfind_loop.simps) simp
    show ?thesis
    proof (cases "occurs_at m as s2 (unat i)")
      case occ: True
      then have "(LEAST j. unat i \<le> j \<and> occurs_at m as s2 j) = unat i" by (intro Least_equality) auto
      then show ?thesis using occ step r by auto
    next
      case no: False
      have "s2 \<noteq> []" using no le assms(3) by (auto simp: occurs_at_def window_def)
      then have "unat i < lens m as" "lens m as < 2 ^ 16"
        using le assms(3,4) packet_len_bound [OF assms(1)] by (cases s2, auto)
      then have s: "unat (i + 1) = Suc (unat i)"
        using unat_add_fits [of i 1] by simp
      have ih: "memfind_loop m p s2 (of_nat (length s2)) mx (i + 1) = Some
          (if \<exists>j\<ge>Suc (unat i). occurs_at m as s2 j then of_nat (LEAST j. Suc (unat i) \<le> j \<and> occurs_at m as s2 j) else 0xFFFF)"
        using less(1) [of "i + 1"] \<open>unat i < lens m as\<close> unfolding s by simp
      have "(\<exists>j\<ge>Suc (unat i). occurs_at m as s2 j) \<longleftrightarrow> (\<exists>j\<ge>unat i. occurs_at m as s2 j)"
        using no by (metis Suc_leD Suc_leI le_neq_implies_less)
      moreover have "memfind_loop m p s2 (of_nat (length s2)) mx i = memfind_loop m p s2 (of_nat (length s2)) mx (i + 1)"
        using step r(2) no by simp
      ultimately show ?thesis unfolding ih Least_step [of "occurs_at m as s2", OF no] by (simp only:)
    qed
  qed
qed

lemma memfind_spec:
  assumes "packet m (Some p) as" "length s2 < 2 ^ 16"
  shows "pbuf_memfind m p s2 (of_nat (length s2)) off = Some
    (if \<exists>j\<ge>unat off. occurs_at m as s2 j then of_nat (LEAST j. unat off \<le> j \<and> occurs_at m as s2 j) else 0xFFFF)"
proof -
  obtain a bs where as: "as = a # bs" using assms(1) by (cases as) auto
  obtain pb where pb: "Some p = Some a" "pbufs m a = Some pb" "packet m (pnext pb) bs"
    "unat (tot_len pb) = unat (plen pb) + lens m bs" "seg m a = rd m (payload pb) (unat (plen pb))" "seg_len m a = unat (plen pb)"
    using assms(1) unfolding as by (rule packet_ConsE)
  have tot: "pbufs m p = Some pb" "unat (tot_len pb) = lens m as" using pb as by simp_all
  have n: "unat (of_nat (length s2) :: u16) = length s2" using assms(2) by (rule unat_of_nat_fits)
  show ?thesis
  proof (cases "length s2 + unat off \<le> lens m as")
    case True
    have "unat (tot_len pb - of_nat (length s2)) = lens m as - length s2"
      using True tot n by (subst unat_sub_le) (simp_all add: word_le_nat_alt)
    then show ?thesis using memfind_loop_spec [OF assms] True tot n by (simp add: pbuf_memfind_def)
  next
    case False
    then have "pbuf_memfind m p s2 (of_nat (length s2)) off = Some 0xFFFF" using tot n by (simp add: pbuf_memfind_def)
    moreover have "\<not> (\<exists>j\<ge>unat off. occurs_at m as s2 j)" using False by (auto simp: occurs_at_def)
    ultimately show ?thesis by (simp only: if_False)
  qed
qed

section \<open>A concrete packet\<close>

text \<open>Two pbufs, three bytes from the heap and two referenced bytes at an odd address.\<close>

definition sample_mem :: pmem where
  "sample_mem = \<lparr>pbufs = [0x1000 \<mapsto> \<lparr>pnext = Some 0x2000, payload = 0x1100, tot_len = 5, plen = 3, type_internal = 0x80, pflags = 0,
       pref = 1, if_idx = 0\<rparr>, 0x2000 \<mapsto> \<lparr>pnext = None, payload = 0x2201, tot_len = 2, plen = 2, type_internal = 0x41, pflags = 0,
       pref = 1, if_idx = 0\<rparr>], bytes = of_nat, tabs = (\<lambda>_. []), heap = [0x1000 \<mapsto> 0x200]\<rparr>"

lemma sample_packet: "packet sample_mem (Some 0x1000) [0x1000, 0x2000]"
  by (simp add: packet_def sample_mem_def seg_len_def)

lemma sample_contents: "contents sample_mem [0x1000, 0x2000] = [0, 1, 2, 1, 2]"
  by (simp add: sample_mem_def seg_def rd_def upt_rec)

end
