(* ===== verification/Inet_Chksum.thy ===== *)
theory Inet_Chksum
  imports Pbuf_Chain
begin

text \<open>
  The checksum routines of \<^verbatim>\<open>core/inet_chksum.c\<close> over chains of packet buffers, with and without the IPv4 and IPv6 pseudo
  headers, against the one's complement sum of the concatenated bytes. A segment of odd length shifts the byte lanes of all
  that follow; the code swaps the accumulator to account for it.
\<close>

section \<open>The code\<close>

text \<open>An \<^verbatim>\<open>ip_addr_t\<close>: the union as its four words (an IPv4 address is the first), and the type tag.\<close>

record ip_addr_t =
  u_addr :: "u32 list"
  addr_type :: u8

definition IPADDR_TYPE_V6 :: u8 where
  "IPADDR_TYPE_V6 = 6"

definition IP_IS_V6 :: "ip_addr_t \<Rightarrow> bool" where
  "IP_IS_V6 a = (addr_type a = IPADDR_TYPE_V6)"

definition ip_2_ip6 :: "ip_addr_t \<Rightarrow> u32 list" where
  "ip_2_ip6 a = u_addr a"

definition ip_2_ip4 :: "ip_addr_t \<Rightarrow> u32" where
  "ip_2_ip4 a = u_addr a ! 0"

partial_function (option) chksum_chain :: "pmem \<Rightarrow> nat option \<Rightarrow> u32 \<Rightarrow> bool \<Rightarrow> (u32 \<times> bool) option" where
  "chksum_chain m q acc swapped =
    (case q of
       None \<Rightarrow> Some (acc, swapped)
     | Some a \<Rightarrow> do {
         qb \<leftarrow> pbufs m a;
         let acc = acc + ucast (lwip_standard_chksum (payload qb) (rd m (payload qb) (unat (plen qb))));
         let acc = FOLD_U32T acc;
         if plen qb mod 2 \<noteq> 0 then chksum_chain m (pnext qb) (SWAP_BYTES_IN_WORD acc) (\<not> swapped)
         else chksum_chain m (pnext qb) acc swapped
       })"

text \<open>The end shared by the pseudo-header sums.\<close>

definition finish_pseudo :: "u8 \<Rightarrow> u16 \<Rightarrow> u32 \<times> bool \<Rightarrow> u16" where
  "finish_pseudo proto proto_len r =
    (let (acc, swapped) = r;
         acc = (if swapped then SWAP_BYTES_IN_WORD acc else acc);
         acc = acc + ucast (lwip_htons (ucast proto));
         acc = acc + ucast (lwip_htons proto_len);
         acc = FOLD_U32T (FOLD_U32T acc)
     in ucast (NOT (acc AND 0xffff)))"

definition inet_cksum_pseudo_base :: "pmem \<Rightarrow> nat option \<Rightarrow> u8 \<Rightarrow> u16 \<Rightarrow> u32 \<Rightarrow> u16 option" where
  "inet_cksum_pseudo_base m p proto proto_len acc = map_option (finish_pseudo proto proto_len) (chksum_chain m p acc False)"

definition add_addr :: "u32 \<Rightarrow> u32 \<Rightarrow> u32" where
  "add_addr acc addr = acc + (addr AND 0xffff) + (drop_bit 16 addr AND 0xffff)"

definition inet_chksum_pseudo :: "pmem \<Rightarrow> nat option \<Rightarrow> u8 \<Rightarrow> u16 \<Rightarrow> u32 \<Rightarrow> u32 \<Rightarrow> u16 option" where
  "inet_chksum_pseudo m p proto proto_len src dest =
    (let acc = add_addr (add_addr 0 src) dest;
         acc = FOLD_U32T (FOLD_U32T acc)
     in inet_cksum_pseudo_base m p proto proto_len acc)"

definition ip6_addr_sum :: "u32 list \<Rightarrow> u32 list \<Rightarrow> u32" where
  "ip6_addr_sum src dest = foldl (\<lambda>acc i. add_addr (add_addr acc (src ! i)) (dest ! i)) 0 [0..<4]"

definition ip6_chksum_pseudo :: "pmem \<Rightarrow> nat option \<Rightarrow> u8 \<Rightarrow> u16 \<Rightarrow> u32 list \<Rightarrow> u32 list \<Rightarrow> u16 option" where
  "ip6_chksum_pseudo m p proto proto_len src dest =
    (let acc = FOLD_U32T (FOLD_U32T (ip6_addr_sum src dest)) in inet_cksum_pseudo_base m p proto proto_len acc)"

definition ip_chksum_pseudo :: "pmem \<Rightarrow> nat option \<Rightarrow> u8 \<Rightarrow> u16 \<Rightarrow> ip_addr_t \<Rightarrow> ip_addr_t \<Rightarrow> u16 option" where
  "ip_chksum_pseudo m p proto proto_len src dest =
    (if IP_IS_V6 dest then ip6_chksum_pseudo m p proto proto_len (ip_2_ip6 src) (ip_2_ip6 dest)
     else inet_chksum_pseudo m p proto proto_len (ip_2_ip4 src) (ip_2_ip4 dest))"

partial_function (option) chksum_chain_partial :: "pmem \<Rightarrow> nat option \<Rightarrow> u16 \<Rightarrow> u32 \<Rightarrow> bool \<Rightarrow> (u32 \<times> bool) option" where
  "chksum_chain_partial m q chksum_len acc swapped =
    (case q of
       None \<Rightarrow> Some (acc, swapped)
     | Some a \<Rightarrow>
        if \<not> chksum_len > 0 then Some (acc, swapped)
        else do {
          qb \<leftarrow> pbufs m a;
          let chklen = (if plen qb > chksum_len then chksum_len else plen qb);
          let acc = acc + ucast (lwip_standard_chksum (payload qb) (rd m (payload qb) (unat chklen)));
          let chksum_len = chksum_len - chklen;
          _ \<leftarrow> assert_that (chksum_len < 0x7fff);
          let acc = FOLD_U32T acc;
          if plen qb mod 2 \<noteq> 0 then chksum_chain_partial m (pnext qb) chksum_len (SWAP_BYTES_IN_WORD acc) (\<not> swapped)
          else chksum_chain_partial m (pnext qb) chksum_len acc swapped
        })"

definition inet_cksum_pseudo_partial_base :: "pmem \<Rightarrow> nat option \<Rightarrow> u8 \<Rightarrow> u16 \<Rightarrow> u16 \<Rightarrow> u32 \<Rightarrow> u16 option" where
  "inet_cksum_pseudo_partial_base m p proto proto_len chksum_len acc =
    map_option (finish_pseudo proto proto_len) (chksum_chain_partial m p chksum_len acc False)"

definition inet_chksum_pseudo_partial :: "pmem \<Rightarrow> nat option \<Rightarrow> u8 \<Rightarrow> u16 \<Rightarrow> u16 \<Rightarrow> u32 \<Rightarrow> u32 \<Rightarrow> u16 option" where
  "inet_chksum_pseudo_partial m p proto proto_len chksum_len src dest =
    (let acc = add_addr (add_addr 0 src) dest;
         acc = FOLD_U32T (FOLD_U32T acc)
     in inet_cksum_pseudo_partial_base m p proto proto_len chksum_len acc)"

definition ip6_chksum_pseudo_partial :: "pmem \<Rightarrow> nat option \<Rightarrow> u8 \<Rightarrow> u16 \<Rightarrow> u16 \<Rightarrow> u32 list \<Rightarrow> u32 list \<Rightarrow> u16 option" where
  "ip6_chksum_pseudo_partial m p proto proto_len chksum_len src dest =
    (let acc = FOLD_U32T (FOLD_U32T (ip6_addr_sum src dest)) in inet_cksum_pseudo_partial_base m p proto proto_len chksum_len acc)"

definition ip_chksum_pseudo_partial :: "pmem \<Rightarrow> nat option \<Rightarrow> u8 \<Rightarrow> u16 \<Rightarrow> u16 \<Rightarrow> ip_addr_t \<Rightarrow> ip_addr_t \<Rightarrow> u16 option" where
  "ip_chksum_pseudo_partial m p proto proto_len chksum_len src dest =
    (if IP_IS_V6 dest then ip6_chksum_pseudo_partial m p proto proto_len chksum_len (ip_2_ip6 src) (ip_2_ip6 dest)
     else inet_chksum_pseudo_partial m p proto proto_len chksum_len (ip_2_ip4 src) (ip_2_ip4 dest))"

definition inet_chksum_pbuf :: "pmem \<Rightarrow> nat option \<Rightarrow> u16 option" where
  "inet_chksum_pbuf m p = do {
     (acc, swapped) \<leftarrow> chksum_chain m p 0 False;
     let acc = (if swapped then SWAP_BYTES_IN_WORD acc else acc);
     Some (ucast (NOT (acc AND 0xffff)))
   }"

section \<open>Lane swaps\<close>

definition lane :: "bool \<Rightarrow> int \<Rightarrow> int" where
  "lane swapped n = (if swapped then 256 * n else n)"

lemma lane_nonneg [simp]: "0 \<le> n \<Longrightarrow> 0 \<le> lane s n"
  by (simp add: lane_def)

lemma lane_add: "lane s (a + b) = lane s a + lane s b"
  by (simp add: lane_def algebra_simps)

lemma fold16_lane_cong: "0 \<le> a \<Longrightarrow> 0 \<le> b \<Longrightarrow> fold16 a = fold16 b \<Longrightarrow> fold16 (lane s a) = fold16 (lane s b)"
  by (cases s) (auto simp only: lane_def if_True if_False intro!: fold16_cong_mult)

lemma fold16_256_256: "0 \<le> a \<Longrightarrow> fold16 (256 * (256 * a)) = fold16 a"
proof -
  assume a: "0 \<le> a"
  have "256 * (256 * a) = 0 + 65536 * a" by simp
  also have "fold16 \<dots> = fold16 (0 + a)" using a by (rule fold16_65536) simp
  finally show ?thesis by (simp only: add_0)
qed

lemma fold16_lane_swap:
  assumes "0 \<le> a" "0 \<le> b" "fold16 a = fold16 (256 * b)"
  shows "fold16 (lane (\<not> s) a) = fold16 (lane s b)"
  using assms fold16_cong_mult [of a "256 * b" 256] fold16_256_256 [of b] by (simp add: lane_def)

lemma sum_step:
  assumes "uint acc \<le> 0xffff"
  shows "uint (FOLD_U32T (acc + ucast (lwip_standard_chksum a bs))) \<le> 0xffff"
    and "fold16 (uint (FOLD_U32T (acc + ucast (lwip_standard_chksum a bs)))) = fold16 (uint acc + wsum bs)"
proof -
  have c: "uint (ucast (lwip_standard_chksum a bs) :: u32) = fold16 (wsum bs)"
    by (simp add: uint_ucast_up uint_standard_chksum)
  have u: "uint (acc + ucast (lwip_standard_chksum a bs)) = uint acc + fold16 (wsum bs)"
    unfolding c [symmetric] by (rule uint_add_fits) (use c assms fold16_range(2) [of "wsum bs"] in simp)
  show "uint (FOLD_U32T (acc + ucast (lwip_standard_chksum a bs))) \<le> 0xffff"
    using u assms fold16_range(2) [of "wsum bs"] by (intro FOLD_le16) simp
  show "fold16 (uint (FOLD_U32T (acc + ucast (lwip_standard_chksum a bs)))) = fold16 (uint acc + wsum bs)"
    unfolding fold16_FOLD u by (rule fold16_cong_add) (simp_all add: fold16_range fold16_id)
qed

lemma odd_word16: "(w :: u16) mod 2 \<noteq> 0 \<longleftrightarrow> odd (unat w)"
proof -
  have "unat (w mod 2) = unat w mod 2" by (simp add: unat_mod)
  then show ?thesis unfolding word_unat_eq_iff even_iff_mod_2_eq_zero by simp
qed

lemma chksum_chain_spec:
  "chain m p as \<Longrightarrow> uint acc \<le> 0xffff \<Longrightarrow> \<exists>acc' s'. chksum_chain m p acc s = Some (acc', s') \<and> uint acc' \<le> 0xffff \<and>
     fold16 (lane s' (uint acc')) = fold16 (lane s (uint acc) + lane s (wsum (contents m as)))"
proof (induction as arbitrary: p acc s)
  case Nil
  then show ?case by (subst chksum_chain.simps) (simp add: lane_def)
next
  case (Cons a as)
  from Cons.prems(1) obtain pb where p: "p = Some a" "pbufs m a = Some pb" "chain m (pnext pb) as" by (rule chain_ConsE)
  define bs where "bs = rd m (payload pb) (unat (plen pb))"
  have sg: "seg m a = bs" "length bs = unat (plen pb)" by (simp_all add: seg_def p bs_def)
  define acc1 where "acc1 = FOLD_U32T (acc + ucast (lwip_standard_chksum (payload pb) bs))"
  have a1: "uint acc1 \<le> 0xffff" "fold16 (uint acc1) = fold16 (uint acc + wsum bs)"
    using sum_step [OF Cons.prems(2)] by (simp_all add: acc1_def)
  show ?case
  proof (cases "odd (unat (plen pb))")
    case True
    have step: "chksum_chain m p acc s = chksum_chain m (pnext pb) (SWAP_BYTES_IN_WORD acc1) (\<not> s)"
      by (subst chksum_chain.simps) (simp only: p option.case bind.bind_lunit Let_def odd_word16 True simp_thms if_True acc1_def bs_def)
    have sw: "uint (SWAP_BYTES_IN_WORD acc1) \<le> 0xffff" "fold16 (uint (SWAP_BYTES_IN_WORD acc1)) = fold16 (256 * uint acc1)"
      using fold16_swap [of acc1] a1(1) by simp_all
    obtain acc' s' where ih: "chksum_chain m (pnext pb) (SWAP_BYTES_IN_WORD acc1) (\<not> s) = Some (acc', s')" "uint acc' \<le> 0xffff"
      "fold16 (lane s' (uint acc')) = fold16 (lane (\<not> s) (uint (SWAP_BYTES_IN_WORD acc1)) + lane (\<not> s) (wsum (contents m as)))"
      using Cons.IH [OF p(3) sw(1)] by blast
    have "fold16 (lane (\<not> s) (uint (SWAP_BYTES_IN_WORD acc1))) = fold16 (lane s (uint acc + wsum bs))"
      using fold16_lane_swap [OF _ _ sw(2), of s] fold16_lane_cong [OF _ _ a1(2), of s] by simp
    moreover have "fold16 (lane (\<not> s) (wsum (contents m as))) = fold16 (lane s (256 * wsum (contents m as)))"
      using fold16_lane_swap [of "wsum (contents m as)" "256 * wsum (contents m as)" s] fold16_256_256 by simp
    ultimately have "fold16 (lane s' (uint acc')) = fold16 (lane s (uint acc + wsum bs) + lane s (256 * wsum (contents m as)))"
      unfolding ih(3) by (intro fold16_cong_add) simp_all
    also have "\<dots> = fold16 (lane s (uint acc) + lane s (wsum bs + 256 * wsum (contents m as)))"
      by (simp add: lane_add add.assoc)
    also have "\<dots> = fold16 (lane s (uint acc) + lane s (wsum (contents m (a # as))))"
      using True sg wsum_append_odd [of bs "contents m as"]
      by (intro fold16_cong_add fold16_lane_cong) simp_all
    finally show ?thesis using step ih(1,2) by auto
  next
    case False
    have step: "chksum_chain m p acc s = chksum_chain m (pnext pb) acc1 s"
      by (subst chksum_chain.simps) (simp only: p option.case bind.bind_lunit Let_def odd_word16 False if_False acc1_def bs_def)
    obtain acc' s' where ih: "chksum_chain m (pnext pb) acc1 s = Some (acc', s')" "uint acc' \<le> 0xffff"
      "fold16 (lane s' (uint acc')) = fold16 (lane s (uint acc1) + lane s (wsum (contents m as)))"
      using Cons.IH [OF p(3) a1(1)] by blast
    have "fold16 (lane s' (uint acc')) = fold16 (lane s (uint acc + wsum bs) + lane s (wsum (contents m as)))"
      unfolding ih(3) using fold16_lane_cong [OF _ _ a1(2), of s] by (intro fold16_cong_add) simp_all
    also have "\<dots> = fold16 (lane s (uint acc) + lane s (wsum (contents m (a # as))))"
      using False sg by (simp add: lane_add wsum_append_even add.assoc)
    finally show ?thesis using step ih(1,2) by auto
  qed
qed

text \<open>The same over the first \<^verbatim>\<open>chksum_len\<close> bytes. The last segment may be cut; its parity no longer matters.\<close>

lemma chksum_chain_partial_spec:
  "chain m p as \<Longrightarrow> uint acc \<le> 0xffff \<Longrightarrow> n < 0x7fff \<Longrightarrow>
   \<exists>acc' s'. chksum_chain_partial m p n acc s = Some (acc', s') \<and> uint acc' \<le> 0xffff \<and>
     fold16 (lane s' (uint acc')) = fold16 (lane s (uint acc) + lane s (wsum (take (unat n) (contents m as))))"
proof (induction as arbitrary: p acc s n)
  case Nil
  then show ?case by (subst chksum_chain_partial.simps) (simp add: lane_def)
next
  case (Cons a as)
  from Cons.prems(1) obtain pb where p: "p = Some a" "pbufs m a = Some pb" "chain m (pnext pb) as" by (rule chain_ConsE)
  have sl: "seg m a = rd m (payload pb) (unat (plen pb))" "seg_len m a = unat (plen pb)" by (simp_all add: seg_def seg_len_def p)
  show ?case
  proof (cases "n > 0")
    case False
    then have "chksum_chain_partial m p n acc s = Some (acc, s)"
      by (subst chksum_chain_partial.simps) (simp add: p)
    moreover have "n = 0" using False by (simp add: word_gt_0)
    ultimately show ?thesis using Cons.prems(2) by (simp add: lane_def)
  next
    case True
    define k where "k = (if plen pb > n then n else plen pb)"
    define bs where "bs = rd m (payload pb) (unat k)"
    have uk: "unat k = min (unat n) (unat (plen pb))" by (auto simp: k_def word_less_nat_alt min_def)
    have kn: "k \<le> n" "n - k < 0x7fff"
    proof -
      show "k \<le> n" using uk by (simp add: word_le_nat_alt)
      then have "unat (n - k) \<le> unat n" by (simp add: unat_sub_le)
      then show "n - k < 0x7fff" using Cons.prems(3) by (simp add: word_less_nat_alt)
    qed
    have bs: "take (unat n) (seg m a) = bs" "length bs = unat k"
      unfolding sl bs_def uk by (cases "unat n \<le> unat (plen pb)") (simp_all add: take_rd)
    define acc1 where "acc1 = FOLD_U32T (acc + ucast (lwip_standard_chksum (payload pb) bs))"
    have a1: "uint acc1 \<le> 0xffff" "fold16 (uint acc1) = fold16 (uint acc + wsum bs)"
      using sum_step [OF Cons.prems(2)] by (simp_all add: acc1_def)
    define acc2 where "acc2 = (if odd (unat (plen pb)) then SWAP_BYTES_IN_WORD acc1 else acc1)"
    define s2 where "s2 = (if odd (unat (plen pb)) then \<not> s else s)"
    have step: "chksum_chain_partial m p n acc s = chksum_chain_partial m (pnext pb) (n - k) acc2 s2"
      by (cases "odd (unat (plen pb))"; subst chksum_chain_partial.simps)
        (simp_all only: p option.case bind.bind_lunit Let_def odd_word16 True k_def [symmetric] kn(2) assert_that_def simp_thms if_True if_False
          acc2_def s2_def acc1_def bs_def)
    have sw: "uint acc2 \<le> 0xffff" "fold16 (lane s2 (uint acc2)) = fold16 (lane s (uint acc + wsum bs))"
      using fold16_swap [of acc1] a1 fold16_lane_swap [of "uint (SWAP_BYTES_IN_WORD acc1)" "uint acc1" s] fold16_lane_cong [OF _ _ a1(2), of s]
      by (auto simp: acc2_def s2_def)
    obtain acc' s' where ih: "chksum_chain_partial m (pnext pb) (n - k) acc2 s2 = Some (acc', s')" "uint acc' \<le> 0xffff"
      "fold16 (lane s' (uint acc')) = fold16 (lane s2 (uint acc2) + lane s2 (wsum (take (unat (n - k)) (contents m as))))"
      using Cons.IH [OF p(3) sw(1) kn(2)] by blast
    let ?rest = "take (unat (n - k)) (contents m as)"
    have tk: "take (unat n) (contents m (a # as)) = bs @ ?rest"
      using bs kn(1) uk sl by (simp add: unat_sub_le) (simp add: min_def)
    have "fold16 (lane s2 (wsum ?rest)) = fold16 (lane s (if odd (unat (plen pb)) then 256 * wsum ?rest else wsum ?rest))"
      using fold16_lane_swap [of "wsum ?rest" "256 * wsum ?rest" s] fold16_256_256 by (simp add: s2_def)
    then have "fold16 (lane s' (uint acc')) = fold16 (lane s (uint acc + wsum bs) +
        lane s (if odd (unat (plen pb)) then 256 * wsum ?rest else wsum ?rest))"
      unfolding ih(3) using sw(2) by (intro fold16_cong_add) simp_all
    also have "\<dots> = fold16 (lane s (uint acc) + lane s (wsum bs + (if odd (unat (plen pb)) then 256 * wsum ?rest else wsum ?rest)))"
      by (simp add: lane_add add.assoc)
    also have "\<dots> = fold16 (lane s (uint acc) + lane s (wsum (bs @ ?rest)))"
    proof (intro fold16_cong_add fold16_lane_cong)
      show "fold16 (wsum bs + (if odd (unat (plen pb)) then 256 * wsum ?rest else wsum ?rest)) = fold16 (wsum (bs @ ?rest))"
      proof (cases "unat k = unat (plen pb)")
        case True
        then show ?thesis using bs(2) wsum_append_odd [of bs ?rest] wsum_append_even [of bs ?rest] by auto
      next
        case False
        then have "unat k = unat n" using uk by (simp add: min_def split: if_splits)
        then show ?thesis using kn(1) by (simp add: unat_sub_le)
      qed
    qed simp_all
    finally show ?thesis using step ih(1,2) tk by auto
  qed
qed

section \<open>The results\<close>

text \<open>The bytes a pseudo header contributes, as the sum of their words, and the checksum of a sum.\<close>

definition chksum_of :: "int \<Rightarrow> u16" where
  "chksum_of n = word_of_int (65535 - fold16 n)"

definition be_bytes16 :: "u16 \<Rightarrow> u8 list" where
  "be_bytes16 w = rev (le_bytes 2 w)"

lemma wsum_be16: "wsum (be_bytes16 w) = uint (lwip_htons w)"
  unfolding uint_htons be_bytes16_def by (simp add: le_bytes_def numeral_2_eq_2)

lemma chksum_of_not:
  assumes "uint acc = fold16 n"
  shows "ucast (NOT (acc AND 0xffff :: u32)) = chksum_of n"
proof -
  have m: "(0xffff :: u32) = mask 16" by (simp add: mask_eq_exp_minus_1)
  have "ucast (NOT (acc AND 0xffff :: u32)) = NOT (ucast acc :: u16)"
    unfolding m by (rule bit_word_eqI) (simp add: bit_ucast_iff bit_not_iff bit_and_iff bit_or_iff bit_mask_iff)
  moreover have "uint (ucast acc :: u16) = fold16 n"
    using assms fold16_range [of n] by (simp add: uint_ucast_down)
  moreover have "uint (chksum_of n) = 65535 - fold16 n"
    unfolding chksum_of_def uint_word_of_int using fold16_range [of n] by (simp add: mod_pos_pos_trivial)
  ultimately show ?thesis by (simp only: word_uint_eq_iff uint_not16)
qed

lemma swap_back:
  assumes "uint (acc :: u32) \<le> 0xffff"
  shows "uint (if s then SWAP_BYTES_IN_WORD acc else acc) = fold16 (lane s (uint acc))"
  using assms fold16_swap [of acc] fold16_id [of "uint acc"] fold16_id [of "uint (SWAP_BYTES_IN_WORD acc)"]
  by (cases s) (simp_all add: lane_def)

lemma uint_htons_ucast: "uint (ucast (lwip_htons w) :: u32) = wsum (be_bytes16 w)"
  by (simp add: uint_ucast_up wsum_be16)

lemma wsum_be16_le: "wsum (be_bytes16 w) \<le> 65535"
  unfolding wsum_be16 using uint_bounded [of "lwip_htons w"] by simp

lemma finish_pseudo_spec:
  assumes "uint acc \<le> 0xffff" "fold16 (lane s (uint acc)) = fold16 n" "0 \<le> n"
  shows "finish_pseudo proto l (acc, s) = chksum_of (n + wsum (be_bytes16 (ucast proto)) + wsum (be_bytes16 l))"
proof -
  define a0 where "a0 = (if s then SWAP_BYTES_IN_WORD acc else acc)"
  define a1 where "a1 = a0 + ucast (lwip_htons (ucast proto))"
  define a2 where "a2 = a1 + ucast (lwip_htons l)"
  have u0: "uint a0 = fold16 n" using swap_back [OF assms(1), of s] assms(2) by (simp add: a0_def)
  have r: "fold16 n \<le> 65535" by (rule fold16_range)
  have u1: "uint a1 = fold16 n + wsum (be_bytes16 (ucast proto))"
    unfolding a1_def u0 [symmetric] uint_htons_ucast [symmetric]
    by (rule uint_add_fits) (use u0 r wsum_be16_le [of "ucast proto"] uint_htons_ucast in simp)
  have u2: "uint a2 = fold16 n + wsum (be_bytes16 (ucast proto)) + wsum (be_bytes16 l)"
  proof -
    have "uint a2 = uint a1 + uint (ucast (lwip_htons l) :: u32)" unfolding a2_def
      by (rule uint_add_fits) (use u1 r wsum_be16_le [of "ucast proto"] wsum_be16_le [of l] uint_htons_ucast in simp)
    then show ?thesis by (simp only: u1 uint_htons_ucast)
  qed
  have "uint a2 \<le> 196605" using u2 r wsum_be16_le [of "ucast proto"] wsum_be16_le [of l] by simp
  then have "uint a2 div 65536 \<le> 2" "uint a2 mod 65536 < 65536" using zdiv_mono1 [of "uint a2" 196605 65536] by simp_all
  then have "uint (FOLD_U32T a2) \<le> 0x1fffe" unfolding uint_fold by linarith
  then have "uint (FOLD_U32T (FOLD_U32T a2)) = fold16 (uint a2)" using FOLD_eq by simp
  also have "\<dots> = fold16 (n + wsum (be_bytes16 (ucast proto)) + wsum (be_bytes16 l))"
    unfolding u2 using assms(3) by (intro fold16_cong_add) (simp_all add: fold16_range fold16_id)
  finally have "ucast (NOT (FOLD_U32T (FOLD_U32T a2) AND 0xffff)) = chksum_of (n + wsum (be_bytes16 (ucast proto)) + wsum (be_bytes16 l))"
    by (rule chksum_of_not)
  then show ?thesis by (simp only: finish_pseudo_def Let_def prod.case a0_def a1_def a2_def)
qed

lemma wsum_le4: "wsum (le_bytes 4 (addr :: u32)) = uint addr mod 65536 + uint addr div 65536"
proof -
  have b: "uint addr < 2 ^ 32" using uint_bounded [of addr] by simp
  have "le_bytes 4 addr = le_bytes 2 addr @ le_bytes 2 (drop_bit 16 addr)"
    by (simp add: le_bytes_def numeral_eq_Suc)
  moreover have "wsum (le_bytes 2 v) = uint v mod 65536" for v :: u32
    using le_val_le_bytes [of 2 v] by (simp add: le_bytes_def numeral_2_eq_2)
  moreover have "uint (drop_bit 16 addr) = uint addr div 65536" by (simp add: uint_drop_bit_div)
  moreover have "uint addr div 65536 < 65536" "0 \<le> uint addr div 65536" using b by (auto simp: pos_imp_zdiv_nonneg_iff)
  ultimately show ?thesis by (simp add: wsum_append_even)
qed

lemma wsum_le4_bound: "wsum (le_bytes 4 (addr :: u32)) \<le> 131070"
proof -
  have "uint addr < 2 ^ 32" using uint_bounded [of addr] by simp
  then have "uint addr div 65536 < 65536" by auto
  moreover have "uint addr mod 65536 < 65536" by simp
  ultimately show ?thesis unfolding wsum_le4 by linarith
qed

lemma uint_add_addr:
  assumes "uint acc + 131070 < 2 ^ 32"
  shows "uint (add_addr acc addr) = uint acc + wsum (le_bytes 4 addr)"
proof -
  have m: "(0xffff :: u32) = mask 16" by (simp add: mask_eq_exp_minus_1)
  have lo: "uint (addr AND 0xffff) = uint addr mod 65536" unfolding m using uint_and_mask_mod [of addr 16] by simp
  have "uint addr < 2 ^ 32" using uint_bounded [of addr] by simp
  then have d: "uint addr div 65536 < 65536" "0 \<le> uint addr div 65536" by (auto simp: pos_imp_zdiv_nonneg_iff)
  have hi: "uint (drop_bit 16 addr AND 0xffff) = uint addr div 65536"
    unfolding m using uint_and_mask_mod [of "drop_bit 16 addr" 16] d by (simp add: uint_drop_bit_div)
  have lob: "uint addr mod 65536 \<le> 65535" using pos_mod_bound [of 65536 "uint addr"] by simp
  have "uint (acc + (addr AND 0xffff)) = uint acc + uint addr mod 65536"
    unfolding lo [symmetric] by (rule uint_add_fits) (use assms lo lob in simp)
  moreover from this have "uint (add_addr acc addr) = uint (acc + (addr AND 0xffff)) + uint addr div 65536"
    unfolding add_addr_def hi [symmetric] by (intro uint_add_fits) (use assms hi lob d in simp)
  ultimately show ?thesis by (simp add: wsum_le4)
qed

text \<open>The pseudo headers of RFC 793 and RFC 8200.\<close>

definition pseudo4 :: "u32 \<Rightarrow> u32 \<Rightarrow> u8 \<Rightarrow> u16 \<Rightarrow> u8 list" where
  "pseudo4 src dest proto l = le_bytes 4 src @ le_bytes 4 dest @ [0, proto] @ be_bytes16 l"

definition pseudo6 :: "u32 list \<Rightarrow> u32 list \<Rightarrow> u8 \<Rightarrow> u16 \<Rightarrow> u8 list" where
  "pseudo6 src dest proto l = concat (map (le_bytes 4) src) @ concat (map (le_bytes 4) dest) @ [0, 0] @ be_bytes16 l @ [0, 0, 0, proto]"

definition pseudo :: "ip_addr_t \<Rightarrow> ip_addr_t \<Rightarrow> u8 \<Rightarrow> u16 \<Rightarrow> u8 list" where
  "pseudo src dest = (if IP_IS_V6 dest then pseudo6 (ip_2_ip6 src) (ip_2_ip6 dest) else pseudo4 (ip_2_ip4 src) (ip_2_ip4 dest))"

lemma wsum_proto: "wsum (be_bytes16 (ucast (proto :: u8))) = 256 * uint proto"
proof -
  have "uint (ucast proto :: u16) = uint proto" by (simp add: uint_ucast_up)
  moreover have "uint proto < 256" using uint_bounded [of proto] by simp
  ultimately show ?thesis
    by (simp add: be_bytes16_def le_bytes_def numeral_2_eq_2 uint_ucast_down uint_drop_bit_div)
qed

lemma wsum_pseudo4: "wsum (pseudo4 src dest proto l @ bs) =
    wsum (le_bytes 4 src) + wsum (le_bytes 4 dest) + wsum (be_bytes16 (ucast proto)) + wsum (be_bytes16 l) + wsum bs"
  unfolding wsum_proto by (simp add: pseudo4_def wsum_append_even be_bytes16_def)

lemma addr4_sum:
  "uint (FOLD_U32T (FOLD_U32T (add_addr (add_addr 0 src) dest))) = fold16 (wsum (le_bytes 4 src) + wsum (le_bytes 4 dest))"
proof -
  have u: "uint (add_addr (add_addr 0 src) dest) = wsum (le_bytes 4 src) + wsum (le_bytes 4 dest)"
    using wsum_le4_bound [of src] by (simp add: uint_add_addr)
  have "uint (FOLD_U32T (add_addr (add_addr 0 src) dest)) \<le> 0x1fffe" by (rule FOLD_le)
  then show ?thesis using FOLD_eq u by simp
qed

lemma addr6_sum:
  assumes "length src = 4" "length dest = 4"
  shows "uint (FOLD_U32T (FOLD_U32T (ip6_addr_sum src dest))) = fold16 (wsum (concat (map (le_bytes 4) src) @ concat (map (le_bytes 4) dest)))"
proof -
  obtain s0 s1 s2 s3 where s: "src = [s0, s1, s2, s3]" using assms(1) by (auto simp: numeral_eq_Suc length_Suc_conv)
  obtain d0 d1 d2 d3 where d: "dest = [d0, d1, d2, d3]" using assms(2) by (auto simp: numeral_eq_Suc length_Suc_conv)
  have fits: "uint (add_addr (add_addr acc a) b) = uint acc + wsum (le_bytes 4 a) + wsum (le_bytes 4 b) \<and>
      uint (add_addr (add_addr acc a) b) \<le> k + 262140" if "uint acc \<le> k" "k \<le> 1000000" for acc a b k
    using that wsum_le4_bound [of a] wsum_le4_bound [of b] by (simp add: uint_add_addr)
  define a1 where "a1 = add_addr (add_addr 0 s0) d0"
  define a2 where "a2 = add_addr (add_addr a1 s1) d1"
  define a3 where "a3 = add_addr (add_addr a2 s2) d2"
  define a4 where "a4 = add_addr (add_addr a3 s3) d3"
  have 1: "uint a1 = wsum (le_bytes 4 s0) + wsum (le_bytes 4 d0)" "uint a1 \<le> 262140"
    using fits [of 0 0 s0 d0] by (simp_all add: a1_def)
  have 2: "uint a2 = uint a1 + wsum (le_bytes 4 s1) + wsum (le_bytes 4 d1)" "uint a2 \<le> 524280"
    using fits [of a1 262140 s1 d1] 1 by (simp_all add: a2_def)
  have 3: "uint a3 = uint a2 + wsum (le_bytes 4 s2) + wsum (le_bytes 4 d2)" "uint a3 \<le> 786420"
    using fits [of a2 524280 s2 d2] 2 by (simp_all add: a3_def)
  have 4: "uint a4 = uint a3 + wsum (le_bytes 4 s3) + wsum (le_bytes 4 d3)"
    using fits [of a3 786420 s3 d3] 3 by (simp_all add: a4_def)
  have a4: "ip6_addr_sum src dest = a4" by (simp add: ip6_addr_sum_def s d a1_def a2_def a3_def a4_def upt_rec)
  have "uint (ip6_addr_sum src dest) = wsum (concat (map (le_bytes 4) src) @ concat (map (le_bytes 4) dest))"
    using 1(1) 2(1) 3(1) 4 unfolding a4 by (simp add: s d wsum_append_even)
  moreover have "uint (FOLD_U32T (ip6_addr_sum src dest)) \<le> 0x1fffe" by (rule FOLD_le)
  ultimately show ?thesis using FOLD_eq by simp
qed

lemma length_concat_le4: "length (concat (map (le_bytes 4) (xs :: u32 list))) = 4 * length xs"
  by (induction xs) simp_all

lemma wsum_pseudo6:
  "wsum (pseudo6 src dest proto l @ bs) = wsum (concat (map (le_bytes 4) src) @ concat (map (le_bytes 4) dest)) +
     wsum (be_bytes16 (ucast proto)) + wsum (be_bytes16 l) + wsum bs"
  unfolding wsum_proto
  by (simp add: pseudo6_def wsum_append_even be_bytes16_def length_concat_le4)

lemma pseudo_base_spec:
  assumes "chain m p as" "uint acc = fold16 n" "0 \<le> n"
  shows "inet_cksum_pseudo_base m p proto l acc =
    Some (chksum_of (n + wsum (contents m as) + wsum (be_bytes16 (ucast proto)) + wsum (be_bytes16 l)))"
proof -
  have le: "uint acc \<le> 0xffff" using assms(2) fold16_range by simp
  obtain acc' s' where c: "chksum_chain m p acc False = Some (acc', s')" "uint acc' \<le> 0xffff"
    "fold16 (lane s' (uint acc')) = fold16 (uint acc + wsum (contents m as))"
    using chksum_chain_spec [OF assms(1) le, of False] by (auto simp: lane_def)
  have "fold16 (uint acc + wsum (contents m as)) = fold16 (n + wsum (contents m as))"
    using assms(2,3) by (intro fold16_cong_add) (simp_all add: fold16_range fold16_id)
  then show ?thesis using finish_pseudo_spec [OF c(2), of s' "n + wsum (contents m as)" proto l] c assms(3)
    by (simp add: inet_cksum_pseudo_base_def)
qed

lemma pseudo_partial_base_spec:
  assumes "chain m p as" "uint acc = fold16 n" "0 \<le> n" "k < 0x7fff"
  shows "inet_cksum_pseudo_partial_base m p proto l k acc =
    Some (chksum_of (n + wsum (take (unat k) (contents m as)) + wsum (be_bytes16 (ucast proto)) + wsum (be_bytes16 l)))"
proof -
  have le: "uint acc \<le> 0xffff" using assms(2) fold16_range by simp
  obtain acc' s' where c: "chksum_chain_partial m p k acc False = Some (acc', s')" "uint acc' \<le> 0xffff"
    "fold16 (lane s' (uint acc')) = fold16 (uint acc + wsum (take (unat k) (contents m as)))"
    using chksum_chain_partial_spec [OF assms(1) le assms(4), of False] by (auto simp: lane_def)
  have "fold16 (uint acc + wsum (take (unat k) (contents m as))) = fold16 (n + wsum (take (unat k) (contents m as)))"
    using assms(2,3) by (intro fold16_cong_add) (simp_all add: fold16_range fold16_id)
  then show ?thesis using finish_pseudo_spec [OF c(2), of s' "n + wsum (take (unat k) (contents m as))" proto l] c assms(3)
    by (simp add: inet_cksum_pseudo_partial_base_def)
qed

lemma inet_chksum_pbuf_spec:
  assumes "chain m p as"
  shows "inet_chksum_pbuf m p = Some (chksum_of (wsum (contents m as)))"
proof -
  obtain acc s where c: "chksum_chain m p 0 False = Some (acc, s)" "uint acc \<le> 0xffff"
    "fold16 (lane s (uint acc)) = fold16 (wsum (contents m as))"
    using chksum_chain_spec [OF assms, of 0 False] by (auto simp: lane_def)
  have "uint (if s then SWAP_BYTES_IN_WORD acc else acc) = fold16 (wsum (contents m as))"
    using swap_back [OF c(2), of s] c(3) by simp
  from chksum_of_not [OF this] show ?thesis
    unfolding inet_chksum_pbuf_def c(1) bind.bind_lunit prod.case Let_def by simp
qed

definition ip_wf :: "ip_addr_t \<Rightarrow> bool" where
  "ip_wf a \<longleftrightarrow> length (u_addr a) = 4"

lemma ip_chksum_pseudo_spec:
  assumes "chain m p as" "ip_wf src" "ip_wf dest" "k < 0x7fff"
  shows "ip_chksum_pseudo m p proto l src dest = Some (chksum_of (wsum (pseudo src dest proto l @ contents m as))) \<and>
    ip_chksum_pseudo_partial m p proto l k src dest =
      Some (chksum_of (wsum (pseudo src dest proto l @ take (unat k) (contents m as)))) \<and>
    inet_chksum_pbuf m p = Some (chksum_of (wsum (contents m as)))"
proof -
  have w: "length (ip_2_ip6 src) = 4" "length (ip_2_ip6 dest) = 4" using assms(2,3) by (simp_all add: ip_wf_def ip_2_ip6_def)
  note base = pseudo_base_spec [OF assms(1) _ _, of _ _ proto l] and part = pseudo_partial_base_spec [OF assms(1) _ _ assms(4), of _ _ proto l]
  show ?thesis
    unfolding ip_chksum_pseudo_def ip_chksum_pseudo_partial_def ip6_chksum_pseudo_def ip6_chksum_pseudo_partial_def
      inet_chksum_pseudo_def inet_chksum_pseudo_partial_def Let_def pseudo_def
    using base [OF addr6_sum [OF w]] base [OF addr4_sum] part [OF addr6_sum [OF w]] part [OF addr4_sum]
    by (simp add: wsum_pseudo4 wsum_pseudo6 add_ac inet_chksum_pbuf_spec [OF assms(1)])
qed

section \<open>Properties\<close>

text \<open>
  C39. The Internet sum: for every address and every buffer, however it is aligned, \<^verbatim>\<open>lwip_standard_chksum\<close> returns the one's
  complement sum of the 16-bit words of the buffer; and a buffer whose checksum field (at an even offset) holds the value
  \<^verbatim>\<open>inet_chksum\<close> computed with that field zeroed sums to all ones.\<close>

theorem standard_chksum_correct:
  "uint (lwip_standard_chksum dataptr data) = fold16 (wsum data) \<and>
   (even (length xs) \<longrightarrow> lwip_standard_chksum a (xs @ le_bytes 2 (inet_chksum b (xs @ [0, 0] @ ys)) @ ys) = 0xffff)"
  by (simp add: uint_standard_chksum chksum_verifies del: append.simps append_Cons)

theorem standard_chksum_correct_witness:
  "lwip_standard_chksum 3 ([0x45, 0] @ le_bytes 2 (inet_chksum 8 ([0x45, 0] @ [0, 0] @ [7])) @ [7]) = 0xffff"
proof -
  have "even (length [0x45 :: u8, 0])" by simp
  then show ?thesis using standard_chksum_correct [where xs = "[0x45, 0]" and ys = "[7]" and a = 3 and b = 8] by blast
qed

text \<open>
  C11. The transport checksum: over any chain of packet buffers (segments of any length at any alignment) the routine returns,
  and its result is the complemented one's complement sum of the pseudo header of the IP version followed by the content of
  the chain, or by its first \<^verbatim>\<open>chksum_len\<close> bytes for the partial variant (below 32767, where its assertion holds). Without a
  pseudo header it is that of the content alone.\<close>

theorem ip_chksum_pseudo_correct:
  assumes "chain m p as" "ip_wf src" "ip_wf dest" "k < 0x7fff"
  shows "ip_chksum_pseudo m p proto l src dest = Some (chksum_of (wsum (pseudo src dest proto l @ contents m as))) \<and>
    ip_chksum_pseudo_partial m p proto l k src dest =
      Some (chksum_of (wsum (pseudo src dest proto l @ take (unat k) (contents m as)))) \<and>
    inet_chksum_pbuf m p = Some (chksum_of (wsum (contents m as)))"
  by (rule ip_chksum_pseudo_spec [OF assms])

theorem ip_chksum_pseudo_correct_witness:
  "ip_chksum_pseudo sample_mem (Some 0x1000) 17 5 \<lparr>u_addr = [1, 2, 3, 4], addr_type = 6\<rparr> \<lparr>u_addr = [5, 6, 7, 8], addr_type = 6\<rparr> =
   Some (chksum_of (wsum (pseudo \<lparr>u_addr = [1, 2, 3, 4], addr_type = 6\<rparr> \<lparr>u_addr = [5, 6, 7, 8], addr_type = 6\<rparr> 17 5 @ [0, 1, 2, 1, 2])))"
proof -
  have "chain sample_mem (Some 0x1000) [0x1000, 0x2000]" using sample_packet by (simp only: packet_def)
  then show ?thesis
    using ip_chksum_pseudo_correct [of sample_mem "Some 0x1000" "[0x1000, 0x2000]" "\<lparr>u_addr = [1, 2, 3, 4], addr_type = 6\<rparr>"
        "\<lparr>u_addr = [5, 6, 7, 8], addr_type = 6\<rparr>" 0 17 5]
    unfolding sample_contents by (simp add: ip_wf_def)
qed

end
