(* ===== verification/Ip_Addr.thy ===== *)
theory Ip_Addr
  imports Inet_Chksum
begin

text \<open>
  Addresses and the network interface as the transport protocols use them: the dual-stack address macros of lwIP's
  \<^verbatim>\<open>ip_addr.h\<close>, \<^verbatim>\<open>ip4_addr.h\<close> and \<^verbatim>\<open>ip6_addr.h\<close> (one interface, hence no IPv6 zones), the broadcast and netmask tests of
  \<^verbatim>\<open>ipv4/ip4_addr.c\<close>, the address fields of \<^verbatim>\<open>struct netif\<close> and the globals \<^verbatim>\<open>ip_data\<close> that describe the packet being processed. The
  words of an address are in network byte order, read by the little-endian host.
\<close>

section \<open>Addresses\<close>

definition IPADDR_TYPE_V4 :: u8 where
  "IPADDR_TYPE_V4 = 0"

definition IPADDR_TYPE_ANY :: u8 where
  "IPADDR_TYPE_ANY = 46"

definition IPADDR_BROADCAST :: u32 where
  "IPADDR_BROADCAST = 0xffffffff"

definition ip_addr_eq :: "ip_addr_t \<Rightarrow> ip_addr_t \<Rightarrow> bool" where
  "ip_addr_eq x y \<longleftrightarrow> addr_type x = addr_type y \<and>
     (if addr_type x = IPADDR_TYPE_V6 then ip_2_ip6 x = ip_2_ip6 y else ip_2_ip4 x = ip_2_ip4 y)"

definition ip_addr_isany :: "ip_addr_t \<Rightarrow> bool" where
  "ip_addr_isany x \<longleftrightarrow> (if addr_type x = IPADDR_TYPE_V6 then ip_2_ip6 x = [0, 0, 0, 0] else ip_2_ip4 x = 0)"

definition ip_addr_set :: "ip_addr_t \<Rightarrow> ip_addr_t" where
  "ip_addr_set src = (if addr_type src = IPADDR_TYPE_V6 then src else src\<lparr>u_addr := [ip_2_ip4 src, 0, 0, 0]\<rparr>)"

definition ip_addr_set_any :: "bool \<Rightarrow> ip_addr_t" where
  "ip_addr_set_any is_ipv6 = \<lparr>u_addr = [0, 0, 0, 0], addr_type = if is_ipv6 then IPADDR_TYPE_V6 else IPADDR_TYPE_V4\<rparr>"

definition IP_ANY_TYPE :: ip_addr_t where
  "IP_ANY_TYPE = \<lparr>u_addr = [0, 0, 0, 0], addr_type = IPADDR_TYPE_ANY\<rparr>"

definition ip4_addr_ismulticast :: "u32 \<Rightarrow> bool" where
  "ip4_addr_ismulticast a \<longleftrightarrow> a AND 0x000000f0 = 0x000000e0"

definition ip6_addr_ismulticast :: "u32 list \<Rightarrow> bool" where
  "ip6_addr_ismulticast a \<longleftrightarrow> a ! 0 AND 0x000000ff = 0x000000ff"

definition ip_addr_ismulticast :: "ip_addr_t \<Rightarrow> bool" where
  "ip_addr_ismulticast x \<longleftrightarrow> (if IP_IS_V6 x then ip6_addr_ismulticast (ip_2_ip6 x) else ip4_addr_ismulticast (ip_2_ip4 x))"

section \<open>The interface\<close>

text \<open>The two output functions are either lwIP's null functions or the driver's, hence one truth value.\<close>

record netif =
  ni_ip_addr :: u32
  ni_netmask :: u32
  ni_ip6_addr :: "u32 list list"
  ni_ip6_addr_state :: "u8 list"
  ni_flags :: u8
  ni_num :: u8
  ni_gw :: u32
  ni_mtu :: u16
  ni_driver :: bool
  ni_rs_count :: u8

definition NETIF_FLAG_BROADCAST :: u8 where
  "NETIF_FLAG_BROADCAST = 0x02"

definition netif_get_index :: "netif \<Rightarrow> u8" where
  "netif_get_index n = ni_num n + 1"

text \<open>The index of the first slot in use that holds the address; the code returns -1 for \<open>None\<close>.\<close>

fun addr_match_from :: "nat \<Rightarrow> (u32 list \<times> u8) list \<Rightarrow> u32 list \<Rightarrow> nat option" where
  "addr_match_from i [] a = None"
| "addr_match_from i ((x, s) # xs) a = (if s \<noteq> 0 \<and> x = a then Some i else addr_match_from (Suc i) xs a)"

definition netif_get_ip6_addr_match :: "netif \<Rightarrow> u32 list \<Rightarrow> nat option" where
  "netif_get_ip6_addr_match n a = addr_match_from 0 (zip (ni_ip6_addr n) (ni_ip6_addr_state n)) a"

definition ip4_addr_net_eq :: "u32 \<Rightarrow> u32 \<Rightarrow> u32 \<Rightarrow> bool" where
  "ip4_addr_net_eq a b m \<longleftrightarrow> a AND m = b AND m"

definition ip4_addr_isbroadcast_u32 :: "u32 \<Rightarrow> netif \<Rightarrow> bool" where
  "ip4_addr_isbroadcast_u32 addr n =
    (if NOT addr = 0 \<or> addr = 0 then True
     else if ni_flags n AND NETIF_FLAG_BROADCAST = 0 then False
     else if addr = ni_ip_addr n then False
     else if ip4_addr_net_eq addr (ni_ip_addr n) (ni_netmask n) \<and>
             addr AND NOT (ni_netmask n) = IPADDR_BROADCAST AND NOT (ni_netmask n) then True
     else False)"

definition ip_addr_isbroadcast :: "ip_addr_t \<Rightarrow> netif \<Rightarrow> bool" where
  "ip_addr_isbroadcast x n = (if IP_IS_V6 x then False else ip4_addr_isbroadcast_u32 (ip_2_ip4 x) n)"

section \<open>Netmasks\<close>

text \<open>The two loops over the mask bit, from bit 31 down; the argument is the number of bits left, so the bit tested is one less.\<close>

fun first_zero :: "u32 \<Rightarrow> nat \<Rightarrow> nat" where
  "first_zero nm 0 = 0"
| "first_zero nm (Suc k) = (if nm AND push_bit k 1 = 0 then Suc k else first_zero nm k)"

fun no_ones :: "u32 \<Rightarrow> nat \<Rightarrow> bool" where
  "no_ones nm 0 = True"
| "no_ones nm (Suc k) = (if nm AND push_bit k 1 \<noteq> 0 then False else no_ones nm k)"

definition ip4_addr_netmask_valid :: "u32 \<Rightarrow> bool" where
  "ip4_addr_netmask_valid netmask = (let nm = lwip_htonl netmask in no_ones nm (first_zero nm 32))"

lemma and_bit_zero: "nm AND 2 ^ k = 0 \<longleftrightarrow> \<not> bit (nm :: u32) k" if "k < 32"
proof -
  have "nm AND 2 ^ k = (if bit nm k then 2 ^ k else 0)"
    by (auto intro!: bit_word_eqI simp: bit_simps)
  moreover have "bit (2 ^ k :: u32) k" using that by (simp add: bit_simps)
  then have "2 ^ k \<noteq> (0 :: u32)" by (metis bit_0_eq bot_apply bot_bool_def)
  ultimately show ?thesis by simp
qed

lemma first_zero_spec:
  "k \<le> 32 \<Longrightarrow> first_zero nm k \<le> k \<and> (\<forall>i. first_zero nm k \<le> i \<longrightarrow> i < k \<longrightarrow> bit nm i) \<and>
    (first_zero nm k \<noteq> 0 \<longrightarrow> \<not> bit nm (first_zero nm k - 1))"
proof (induction k)
  case (Suc k)
  then show ?case using and_bit_zero [of k nm] by (auto simp: less_Suc_eq)
qed simp

lemma no_ones_spec: "k \<le> 32 \<Longrightarrow> no_ones nm k \<longleftrightarrow> (\<forall>i<k. \<not> bit nm i)"
  by (induction k) (auto simp: less_Suc_eq and_bit_zero)

text \<open>A valid netmask is a run of ones from the top, then zeros.\<close>

lemma netmask_valid_iff: "ip4_addr_netmask_valid netmask \<longleftrightarrow> (\<exists>k\<le>32. \<forall>i<32. bit (lwip_htonl netmask) i \<longleftrightarrow> k \<le> i)"
proof -
  let ?nm = "lwip_htonl netmask" and ?z = "first_zero (lwip_htonl netmask) 32"
  have z: "?z \<le> 32" "\<And>i. ?z \<le> i \<Longrightarrow> i < 32 \<Longrightarrow> bit ?nm i" "?z \<noteq> 0 \<Longrightarrow> \<not> bit ?nm (?z - 1)"
    using first_zero_spec [of 32 ?nm] by auto
  have v: "ip4_addr_netmask_valid netmask \<longleftrightarrow> (\<forall>i<?z. \<not> bit ?nm i)"
    using z(1) by (simp add: ip4_addr_netmask_valid_def no_ones_spec Let_def)
  show ?thesis
  proof
    assume "ip4_addr_netmask_valid netmask"
    then show "\<exists>k\<le>32. \<forall>i<32. bit ?nm i \<longleftrightarrow> k \<le> i" using v z by (intro exI [of _ ?z]) (meson not_le)
  next
    assume "\<exists>k\<le>32. \<forall>i<32. bit ?nm i \<longleftrightarrow> k \<le> i"
    then obtain k where k: "k \<le> 32" "\<And>i. i < 32 \<Longrightarrow> bit ?nm i \<longleftrightarrow> k \<le> i" by blast
    show "ip4_addr_netmask_valid netmask" unfolding v
    proof (intro allI impI)
      fix i assume i: "i < ?z"
      then have "\<not> bit ?nm (?z - 1)" "?z - 1 < 32" using z(1,3) by auto
      then have "\<not> k \<le> ?z - 1" using k(2) by blast
      then show "\<not> bit ?nm i" using k(2) [of i] i z(1) by auto
    qed
  qed
qed

section \<open>The packet being processed\<close>

record ip_globals =
  current_netif :: netif
  current_input_netif :: netif
  current_is_v6 :: bool
  current_ip_header_tot_len :: u16
  current_iphdr_src :: ip_addr_t
  current_iphdr_dest :: ip_addr_t

end
