(* ===== verification/Pbuf_Ops.thy ===== *)
theory Pbuf_Ops
  imports Pbuf_Chain "HOL-Library.Sublist"
begin

text \<open>
  The operations that change packet buffers, against the packet a chain represents: reference counting and freeing,
  concatenation, shrinking, and the header moves. Each keeps the packet invariant.
\<close>

section \<open>Memory updates\<close>

lemma upd_simps [simp]:
  "pbufs (upd a f m) = (pbufs m)(a := map_option f (pbufs m a))" "bytes (upd a f m) = bytes m"
  "tabs (upd a f m) = tabs m" "heap (upd a f m) = heap m"
  by (simp_all add: upd_def)

lemma chain_upd [simp]: "a \<notin> set as \<Longrightarrow> chain (upd a f m) p as = chain m p as"
  by (rule chain_cong) auto

lemma lens_upd [simp]: "a \<notin> set as \<Longrightarrow> lens (upd a f m) as = lens m as"
  by (rule lens_cong) auto

lemma totals_upd [simp]: "a \<notin> set as \<Longrightarrow> totals (upd a f m) as = totals m as"
  by (rule totals_cong) auto

lemma packet_upd [simp]: "a \<notin> set as \<Longrightarrow> packet (upd a f m) p as = packet m p as"
  by (simp add: packet_def)

lemma contents_upd [simp]: "a \<notin> set as \<Longrightarrow> contents (upd a f m) as = contents m as"
  by (rule contents_cong) auto

lemma wr_simps [simp]: "pbufs (wr a bs m) = pbufs m" "tabs (wr a bs m) = tabs m" "heap (wr a bs m) = heap m"
  by (simp_all add: wr_def)

lemma align_self: "LWIP_MEM_ALIGN a = a \<longleftrightarrow> a mod 8 = 0"
  unfolding LWIP_MEM_ALIGN_def MEM_ALIGNMENT_def by presburger

section \<open>Freeing\<close>

text \<open>A pbuf that can be given back to where it was allocated.\<close>

definition owned :: "pmem \<Rightarrow> nat \<Rightarrow> bool" where
  "owned m a \<longleftrightarrow> (case pbufs m a of
     None \<Rightarrow> False
   | Some pb \<Rightarrow> a \<noteq> 0 \<and> a mod 8 = 0 \<and> pref pb > 0 \<and>
      (pbuf_get_allocsrc pb = 1 \<or> pbuf_get_allocsrc pb = 2 \<or> pbuf_get_allocsrc pb = 0 \<and> a \<in> dom (heap m)))"

lemma owned_cong: "pbufs m x = pbufs m' x \<Longrightarrow> heap m x = heap m' x \<Longrightarrow> owned m x = owned m' x"
  by (cases "pbufs m' x") (simp_all add: owned_def domIff)

definition ref_of :: "pmem \<Rightarrow> nat \<Rightarrow> u8" where
  "ref_of m a = (case pbufs m a of None \<Rightarrow> 0 | Some pb \<Rightarrow> pref pb)"

text \<open>The pbufs at the head of the chain whose only reference is the one given up.\<close>

definition dying :: "pmem \<Rightarrow> nat list \<Rightarrow> nat list" where
  "dying m as = takeWhile (\<lambda>a. ref_of m a = 1) as"

definition survivors :: "pmem \<Rightarrow> nat list \<Rightarrow> nat list" where
  "survivors m as = dropWhile (\<lambda>a. ref_of m a = 1) as"

definition freed :: "pmem \<Rightarrow> nat list \<Rightarrow> pmem \<Rightarrow> bool" where
  "freed m as m' \<longleftrightarrow> bytes m' = bytes m \<and>
     pbufs m' = (\<lambda>x. if x \<in> set (dying m as) then None
       else if survivors m as \<noteq> [] \<and> x = hd (survivors m as) then map_option (\<lambda>b. b\<lparr>pref := pref b - 1\<rparr>) (pbufs m x)
       else pbufs m x) \<and>
     heap m' = (\<lambda>x. if x \<in> set (dying m as) \<and> (\<exists>pb. pbufs m x = Some pb \<and> pbuf_get_allocsrc pb = 0) then None else heap m x) \<and>
     (\<forall>t. set (tabs m' t) = set (tabs m t) \<union> {x \<in> set (dying m as). \<exists>pb. pbufs m x = Some pb \<and>
        (pbuf_get_allocsrc pb = 1 \<and> t = MEMP_PBUF \<or> pbuf_get_allocsrc pb = 2 \<and> t = MEMP_PBUF_POOL)})"

lemma dealloc_owned:
  assumes "owned m a" "pbufs m a = Some pb"
  shows "\<exists>m'. pbuf_dealloc a pb (upd a (\<lambda>b. b\<lparr>pref := r\<rparr>) m) = Some m' \<and> pbufs m' = (pbufs m)(a := None) \<and> bytes m' = bytes m \<and>
    heap m' = (if pbuf_get_allocsrc pb = 0 then (heap m)(a := None) else heap m) \<and>
    tabs m' = (if pbuf_get_allocsrc pb = 1 then (tabs m)(MEMP_PBUF := a # tabs m MEMP_PBUF)
      else if pbuf_get_allocsrc pb = 2 then (tabs m)(MEMP_PBUF_POOL := a # tabs m MEMP_PBUF_POOL) else tabs m)"
proof -
  have a: "a \<noteq> 0" "a mod 8 = 0" and src: "pbuf_get_allocsrc pb = 1 \<or> pbuf_get_allocsrc pb = 2 \<or> pbuf_get_allocsrc pb = 0 \<and> a \<in> dom (heap m)"
    using assms by (simp_all add: owned_def)
  from src show ?thesis
    by (elim disjE) (simp_all add: pbuf_dealloc_def memp_free_def do_memp_free_pool_def mem_free_def MEM_ALIGNMENT_def a align_self Let_def)
qed

lemma free_loop_spec:
  "chain m p as \<Longrightarrow> (\<And>a. a \<in> set as \<Longrightarrow> owned m a) \<Longrightarrow>
   \<exists>m'. pbuf_free_loop p cnt m = Some (cnt + of_nat (length (dying m as)), m') \<and> freed m as m'"
proof (induction as arbitrary: p m cnt)
  case Nil
  then show ?case by (subst pbuf_free_loop.simps) (simp add: freed_def dying_def survivors_def)
next
  case (Cons a as)
  from Cons.prems(1) obtain pb where p: "p = Some a" "pbufs m a = Some pb" "chain m (pnext pb) as" by (rule chain_ConsE)
  have o: "owned m a" using Cons.prems(2) by simp
  then have ref: "pref pb > 0" by (simp add: owned_def p)
  have d: "distinct (a # as)" using Cons.prems(1) by (rule chain_distinct)
  define m1 where "m1 = upd a (\<lambda>b. b\<lparr>pref := pref pb - 1\<rparr>) m"
  show ?case
  proof (cases "pref pb = 1")
    case False
    then have ne: "pref pb - 1 \<noteq> 0" by simp
    have "pbuf_free_loop p cnt m = Some (cnt, m1)"
      using ref ne by (subst pbuf_free_loop.simps) (simp add: p assert_that_def m1_def)
    moreover have "dying m (a # as) = []" "survivors m (a # as) = a # as" using False by (simp_all add: dying_def survivors_def ref_of_def p)
    ultimately show ?thesis by (auto simp: freed_def m1_def p fun_eq_iff)
  next
    case one: True
    obtain m2 where m2: "pbuf_dealloc a pb m1 = Some m2" "pbufs m2 = (pbufs m)(a := None)" "bytes m2 = bytes m"
      "heap m2 = (if pbuf_get_allocsrc pb = 0 then (heap m)(a := None) else heap m)"
      "tabs m2 = (if pbuf_get_allocsrc pb = 1 then (tabs m)(MEMP_PBUF := a # tabs m MEMP_PBUF)
        else if pbuf_get_allocsrc pb = 2 then (tabs m)(MEMP_PBUF_POOL := a # tabs m MEMP_PBUF_POOL) else tabs m)"
      using dealloc_owned [OF o p(2), of "pref pb - 1"] unfolding m1_def by blast
    have step: "pbuf_free_loop p cnt m = pbuf_free_loop (pnext pb) (cnt + 1) m2"
      using ref one m2(1) by (subst pbuf_free_loop.simps) (simp add: p assert_that_def m1_def)
    have same: "pbufs m2 x = pbufs m x" if "x \<in> set as" for x using that d by (auto simp: m2)
    have c2: "chain m2 (pnext pb) as" using p(3) chain_cong [of as m m2] same by simp
    have o2: "owned m2 x" if "x \<in> set as" for x
    proof -
      have "x \<noteq> a" using that d by auto
      then show ?thesis using Cons.prems(2) [of x] that same [OF that] by (simp add: owned_def m2(4) split: option.splits)
    qed
    have refs: "ref_of m2 x = ref_of m x" if "x \<in> set as" for x using same [OF that] by (simp add: ref_of_def)
    have dy: "dying m2 as = dying m as" "survivors m2 as = survivors m as"
      unfolding dying_def survivors_def using refs by (auto intro: takeWhile_cong dropWhile_cong)
    have dy': "dying m (a # as) = a # dying m as" "survivors m (a # as) = survivors m as"
      using one by (simp_all add: dying_def survivors_def ref_of_def p)
    obtain m3 where ih: "pbuf_free_loop (pnext pb) (cnt + 1) m2 = Some (cnt + 1 + of_nat (length (dying m as)), m3)" "freed m2 as m3"
      using Cons.IH [OF c2 o2, of "cnt + 1"] dy by auto
    have sub: "set (dying m as) \<subseteq> set as" "set (survivors m as) \<subseteq> set as"
      by (auto simp: dying_def survivors_def dest: set_takeWhileD set_dropWhileD)
    have nin: "a \<notin> set (dying m as)" "survivors m as \<noteq> [] \<Longrightarrow> hd (survivors m as) \<noteq> a"
      using sub d hd_in_set [of "survivors m as"] by fastforce+
    have f3: "bytes m3 = bytes m2" "pbufs m3 = (\<lambda>x. if x \<in> set (dying m as) then None
        else if survivors m as \<noteq> [] \<and> x = hd (survivors m as) then map_option (\<lambda>b. b\<lparr>pref := pref b - 1\<rparr>) (pbufs m2 x)
        else pbufs m2 x)"
      "heap m3 = (\<lambda>x. if x \<in> set (dying m as) \<and> (\<exists>pb. pbufs m2 x = Some pb \<and> pbuf_get_allocsrc pb = 0) then None else heap m2 x)"
      "\<And>t. set (tabs m3 t) = set (tabs m2 t) \<union> {x \<in> set (dying m as). \<exists>pb. pbufs m2 x = Some pb \<and>
        (pbuf_get_allocsrc pb = 1 \<and> t = MEMP_PBUF \<or> pbuf_get_allocsrc pb = 2 \<and> t = MEMP_PBUF_POOL)}"
      using ih(2) unfolding freed_def dy by blast+
    have "freed m (a # as) m3"
      unfolding freed_def dy'
    proof (intro conjI allI)
      show "bytes m3 = bytes m" using f3(1) m2(3) by simp
      show "pbufs m3 = (\<lambda>x. if x \<in> set (a # dying m as) then None
          else if survivors m as \<noteq> [] \<and> x = hd (survivors m as) then map_option (\<lambda>b. b\<lparr>pref := pref b - 1\<rparr>) (pbufs m x)
          else pbufs m x)"
        using nin unfolding f3(2) m2(2) by (intro ext) auto
      show "heap m3 = (\<lambda>x. if x \<in> set (a # dying m as) \<and> (\<exists>pb. pbufs m x = Some pb \<and> pbuf_get_allocsrc pb = 0) then None else heap m x)"
        using nin p(2) unfolding f3(3) m2(2,4) by (intro ext) auto
      show "set (tabs m3 t) = set (tabs m t) \<union> {x \<in> set (a # dying m as). \<exists>pb. pbufs m x = Some pb \<and>
          (pbuf_get_allocsrc pb = 1 \<and> t = MEMP_PBUF \<or> pbuf_get_allocsrc pb = 2 \<and> t = MEMP_PBUF_POOL)}" for t
        using nin p(2) unfolding f3(4) m2(2,5) by (auto split: if_splits)
    qed
    then show ?thesis using step ih(1) dy' by (auto simp: add.assoc)
  qed
qed

lemma free_spec:
  assumes "chain m (Some p) as" "\<And>a. a \<in> set as \<Longrightarrow> owned m a"
  shows "\<exists>m'. pbuf_free (Some p) m = Some (of_nat (length (dying m as)), m') \<and> freed m as m'"
  using free_loop_spec [OF assms, of 0] by (simp add: pbuf_free_def assert_that_def)

section \<open>Concatenation\<close>

lemma cat_loop_spec:
  assumes "pbufs m t = Some tb"
  shows "chain m (Some p) as \<Longrightarrow> t \<notin> set as \<Longrightarrow>
    \<exists>m'. cat_loop p t m = Some (last as, m') \<and> bytes m' = bytes m \<and> heap m' = heap m \<and> tabs m' = tabs m \<and>
      pbufs m' = (\<lambda>x. if x \<in> set (butlast as) then map_option (\<lambda>b. b\<lparr>tot_len := tot_len b + tot_len tb\<rparr>) (pbufs m x) else pbufs m x)"
  using assms
proof (induction as arbitrary: p m)
  case (Cons a as)
  from Cons.prems(1) obtain pb where p: "Some p = Some a" "pbufs m a = Some pb" "chain m (pnext pb) as" by (rule chain_ConsE)
  show ?case
  proof (cases as)
    case Nil
    then have "pnext pb = None" using p(3) by simp
    then have "cat_loop p t m = Some (a, m)" using p Cons.prems(3) by (subst cat_loop.simps) simp
    then show ?thesis by (simp add: Nil)
  next
    case (Cons b bs)
    then have n: "pnext pb = Some b" using p(3) by simp
    have d: "a \<notin> set as" using chain_distinct [OF Cons.prems(1)] by simp
    define m1 where "m1 = upd a (\<lambda>b. b\<lparr>tot_len := tot_len b + tot_len tb\<rparr>) m"
    have "chain m1 (Some b) as" using p(3) n d by (simp add: m1_def)
    moreover have "t \<notin> set as" "pbufs m1 t = Some tb" using Cons.prems(2,3) by (auto simp: m1_def)
    ultimately obtain m' where m': "cat_loop b t m1 = Some (last as, m')" "bytes m' = bytes m1" "heap m' = heap m1" "tabs m' = tabs m1"
      "pbufs m' = (\<lambda>x. if x \<in> set (butlast as) then map_option (\<lambda>b. b\<lparr>tot_len := tot_len b + tot_len tb\<rparr>) (pbufs m1 x) else pbufs m1 x)"
      using Cons.IH by blast
    have "cat_loop p t m = cat_loop b t m1" using p Cons.prems(3) n by (subst cat_loop.simps) (simp add: m1_def)
    moreover have "pbufs m' = (\<lambda>x. if x \<in> set (butlast (a # as)) then map_option (\<lambda>b. b\<lparr>tot_len := tot_len b + tot_len tb\<rparr>) (pbufs m x) else pbufs m x)"
    proof -
      have "a \<notin> set (butlast as)" using d by (meson in_set_butlastD)
      then show ?thesis unfolding m'(5) by (auto simp: m1_def Cons fun_eq_iff)
    qed
    ultimately show ?thesis using m' by (simp add: Cons m1_def)
  qed
qed simp

text \<open>The pbufs of the first chain with the second chain attached behind its last.\<close>

definition attached :: "pmem \<Rightarrow> nat list \<Rightarrow> nat \<Rightarrow> u16 \<Rightarrow> nat \<Rightarrow> pbuf option" where
  "attached m hs t T x =
    (if x \<in> set hs then map_option (\<lambda>b. b\<lparr>tot_len := tot_len b + T, pnext := if x = last hs then Some t else pnext b\<rparr>) (pbufs m x)
     else pbufs m x)"

lemma attached_packet:
  assumes "packet m (Some t) ts" "unat T = lens m ts" "set hs \<inter> set ts = {}" "pbufs m' = attached m hs t T"
  shows "packet m p as \<Longrightarrow> as \<noteq> [] \<Longrightarrow> set as \<subseteq> set hs \<Longrightarrow> last as = last hs \<Longrightarrow> distinct as \<Longrightarrow> lens m as + lens m ts < 2 ^ 16 \<Longrightarrow>
    packet m' p (as @ ts)"
proof (induction as arbitrary: p)
  case (Cons a as)
  from Cons.prems(1) obtain pb where p: "p = Some a" "pbufs m a = Some pb" "packet m (pnext pb) as"
    "unat (tot_len pb) = unat (plen pb) + lens m as" "seg m a = rd m (payload pb) (unat (plen pb))" "seg_len m a = unat (plen pb)"
    by (rule packet_ConsE)
  have ah: "a \<in> set hs" using Cons.prems(3) by simp
  have len': "lens m' xs = lens m xs" for xs
    by (rule lens_cong) (auto simp: assms(4) attached_def option.map_comp comp_def)
  have "pbufs m x = pbufs m' x" if "x \<in> set ts" for x using that assms(3) by (auto simp: assms(4) attached_def)
  then have ts': "packet m' (Some t) ts" using assms(1) packet_cong [of ts m m' "Some t"] by simp
  have tot: "unat (tot_len pb + T) = unat (plen pb) + lens m (as @ ts)"
    using p(4,6) assms(2) Cons.prems(6) by (subst unat_add_fits) simp_all
  have a': "pbufs m' a = Some (pb\<lparr>tot_len := tot_len pb + T, pnext := if a = last hs then Some t else pnext pb\<rparr>)"
    using ah p(2) by (simp add: assms(4) attached_def)
  have rest: "packet m' (if a = last hs then Some t else pnext pb) (as @ ts)"
  proof (cases "as = []")
    case True
    then show ?thesis using Cons.prems(4) ts' by simp
  next
    case False
    then have "a \<noteq> last hs" using Cons.prems(4,5) last_in_set [of as] by auto
    then show ?thesis using Cons False p(3) by simp
  qed
  have "seg_len m' a = unat (plen pb)" by (simp add: seg_len_def a')
  then show ?case using rest tot unfolding packet_def by (simp add: a' p(1) len')
qed simp

lemma attached_contents:
  assumes "pbufs m' = attached m hs t T" "bytes m' = bytes m"
  shows "contents m' as = contents m as"
proof -
  have "seg m' a = seg m a" for a
    using assms rd_cong [OF assms(2)] by (cases "pbufs m a") (simp_all add: seg_def attached_def)
  then have "seg m' = seg m" by (rule ext)
  then show ?thesis by (simp add: contents_def)
qed

lemma packet_totE:
  assumes "packet m (Some t) ts"
  obtains tb where "pbufs m t = Some tb" "unat (tot_len tb) = lens m ts"
  using assms by (cases ts) (auto simp: packet_def split: option.splits)

lemma packet_last_tot:
  assumes "packet m p as" "as \<noteq> []"
  obtains lb where "pbufs m (last as) = Some lb" "tot_len lb = plen lb"
  using assms
proof (induction as arbitrary: p)
  case (Cons a as)
  from Cons.prems(2) obtain pb where p: "p = Some a" "pbufs m a = Some pb" "packet m (pnext pb) as"
    "unat (tot_len pb) = unat (plen pb) + lens m as" "seg m a = rd m (payload pb) (unat (plen pb))" "seg_len m a = unat (plen pb)"
    by (rule packet_ConsE)
  show ?case
  proof (cases "as = []")
    case True
    then show ?thesis using p Cons.prems(1) by (simp add: word_unat_eq_iff)
  next
    case False
    then show ?thesis using Cons.IH [OF _ p(3)] Cons.prems(1) by simp
  qed
qed simp

lemma cat_spec:
  assumes "packet m (Some h) hs" "packet m (Some t) ts" "set hs \<inter> set ts = {}" "lens m hs + lens m ts < 2 ^ 16"
  shows "\<exists>m'. pbuf_cat (Some h) (Some t) m = Some m' \<and> packet m' (Some h) (hs @ ts) \<and>
    contents m' (hs @ ts) = contents m hs @ contents m ts \<and>
    bytes m' = bytes m \<and> heap m' = heap m \<and> tabs m' = tabs m \<and> (\<exists>T. pbufs m' = attached m hs t T)"
proof -
  have c: "chain m (Some h) hs" and ne: "hs \<noteq> []" using assms(1) by (auto simp: packet_def)
  obtain tb where tb: "pbufs m t = Some tb" "unat (tot_len tb) = lens m ts" using assms(2) by (rule packet_totE)
  have "ts \<noteq> []" "hd ts = t" using assms(2) by (cases ts; simp add: packet_def)+
  then have t: "t \<in> set ts" "t \<notin> set hs" using assms(3) by (metis hd_in_set, metis disjoint_iff hd_in_set)
  obtain m1 where m1: "cat_loop h t m = Some (last hs, m1)" "bytes m1 = bytes m" "heap m1 = heap m" "tabs m1 = tabs m"
    "pbufs m1 = (\<lambda>x. if x \<in> set (butlast hs) then map_option (\<lambda>b. b\<lparr>tot_len := tot_len b + tot_len tb\<rparr>) (pbufs m x) else pbufs m x)"
    using cat_loop_spec [OF tb(1) c t(2)] by blast
  obtain lb where lb: "pbufs m (last hs) = Some lb" "tot_len lb = plen lb" using assms(1) ne by (rule packet_last_tot)
  have d: "distinct hs" using chain_distinct [OF c] .
  have nl: "last hs \<notin> set (butlast hs)" using d ne by (metis append_butlast_last_id distinct_butlast not_distinct_conv_prefix)
  have l1: "pbufs m1 (last hs) = Some lb" "pbufs m1 t = Some tb"
    using nl lb tb t(2) in_set_butlastD [of t hs] by (auto simp: m1(5))
  define m' where "m' = upd (last hs) (\<lambda>b. b\<lparr>tot_len := tot_len b + tot_len tb, pnext := Some t\<rparr>) m1"
  have r: "pbuf_cat (Some h) (Some t) m = Some m'" using m1(1) l1 lb(2) by (simp add: pbuf_cat_def assert_that_def m'_def)
  have hs: "x \<in> set hs \<longleftrightarrow> x \<in> set (butlast hs) \<or> x = last hs" for x
    using ne by (metis append_butlast_last_id in_set_conv_decomp_last rotate1.simps(2) set_ConsD set_append set_rotate1 Un_iff list.set_intros(1))
  have pm: "pbufs m' = attached m hs t (tot_len tb)"
    using nl unfolding m'_def upd_simps m1(5) attached_def hs by (intro ext) (auto simp: option.map_comp comp_def)
  have "packet m' (Some h) (hs @ ts)" by (rule attached_packet [OF assms(2) tb(2) assms(3) pm assms(1) ne]) (use d assms(4) in auto)
  moreover have "contents m' (hs @ ts) = contents m hs @ contents m ts"
    using attached_contents [OF pm] m1(2) by (simp add: m'_def)
  ultimately show ?thesis using r pm m1 by (auto simp: m'_def)
qed

section \<open>Shrinking\<close>

lemma realloc_loop_spec:
  "packet m (Some q) as \<Longrightarrow> unat r0 \<le> lens m as \<Longrightarrow>
   \<exists>us a vs r m'. realloc_loop q r0 s m = Some (a, r, m') \<and> as = us @ a # vs \<and> unat r0 = lens m us + unat r \<and> unat r \<le> seg_len m a \<and>
     bytes m' = bytes m \<and> heap m' = heap m \<and> tabs m' = tabs m \<and>
     pbufs m' = (\<lambda>x. if x \<in> set us then map_option (\<lambda>b. b\<lparr>tot_len := tot_len b - s\<rparr>) (pbufs m x) else pbufs m x)"
proof (induction as arbitrary: q r0 m)
  case (Cons a as)
  from Cons.prems(1) obtain pb where p: "Some q = Some a" "pbufs m a = Some pb" "packet m (pnext pb) as"
    "unat (tot_len pb) = unat (plen pb) + lens m as" "seg m a = rd m (payload pb) (unat (plen pb))" "seg_len m a = unat (plen pb)"
    by (rule packet_ConsE)
  have d: "a \<notin> set as" using chain_distinct [of m "Some q" "a # as"] Cons.prems(1) by (simp add: packet_def)
  show ?case
  proof (cases "r0 > plen pb")
    case False
    then have "realloc_loop q r0 s m = Some (a, r0, m)" using p by (subst realloc_loop.simps) simp
    moreover have "a # as = [] @ a # as \<and> unat r0 = lens m [] + unat r0 \<and> unat r0 \<le> seg_len m a"
      using False p(6) by (simp add: word_less_nat_alt)
    ultimately show ?thesis by (intro exI [of _ "[]"] exI [of _ a] exI [of _ as] exI [of _ r0] exI [of _ m]) simp
  next
    case True
    have u: "unat (r0 - plen pb) = unat r0 - unat (plen pb)" "unat (plen pb) < unat r0"
      using True unat_sub_le [OF less_imp_le [OF True]] by (simp_all add: word_less_nat_alt)
    have ne: "as \<noteq> []" using u Cons.prems(2) p(6) by auto
    then obtain b bs where as: "as = b # bs" by (cases as) auto
    have n: "pnext pb = Some b" using p(3) as by (simp add: packet_def)
    define m1 where "m1 = upd a (\<lambda>b. b\<lparr>tot_len := tot_len b - s\<rparr>) m"
    have step: "realloc_loop q r0 s m = realloc_loop b (r0 - plen pb) s m1"
      using p True n by (subst realloc_loop.simps) (simp add: m1_def)
    have "packet m1 (Some b) as" using p(3) n d by (simp add: m1_def)
    moreover have l1: "lens m1 xs = lens m xs" for xs
      by (rule lens_cong) (auto simp: m1_def option.map_comp comp_def)
    then have "unat (r0 - plen pb) \<le> lens m1 as" using u Cons.prems(2) p(6) by simp
    ultimately obtain us c vs r m' where ih: "realloc_loop b (r0 - plen pb) s m1 = Some (c, r, m')" "as = us @ c # vs"
      "unat (r0 - plen pb) = lens m1 us + unat r" "unat r \<le> seg_len m1 c" "bytes m' = bytes m1" "heap m' = heap m1" "tabs m' = tabs m1"
      "pbufs m' = (\<lambda>x. if x \<in> set us then map_option (\<lambda>b. b\<lparr>tot_len := tot_len b - s\<rparr>) (pbufs m1 x) else pbufs m1 x)"
      using Cons.IH by blast
    have "seg_len m1 c = seg_len m c" using l1 [of "[c]"] by simp
    moreover have "pbufs m' = (\<lambda>x. if x \<in> set (a # us) then map_option (\<lambda>b. b\<lparr>tot_len := tot_len b - s\<rparr>) (pbufs m x) else pbufs m x)"
      using d unfolding ih(2,8) by (auto simp: m1_def fun_eq_iff)
    moreover have "unat r0 = lens m (a # us) + unat r" using ih(3) u p(6) l1 by simp
    ultimately show ?thesis using step ih
      by (intro exI [of _ "a # us"] exI [of _ c] exI [of _ vs] exI [of _ r] exI [of _ m']) (simp add: m1_def)
  qed
qed simp

text \<open>A chain cut in the middle of one of its pbufs.\<close>

lemma cut_packet:
  assumes "unat r \<le> seg_len m a" "bytes m' = bytes m"
    "pbufs m' a = map_option (\<lambda>b. b\<lparr>plen := r, tot_len := r, pnext := None\<rparr>) (pbufs m a)"
  shows "packet m p (us @ a # vs) \<Longrightarrow> unat s = seg_len m a - unat r + lens m vs \<Longrightarrow> a \<notin> set us \<Longrightarrow>
    (\<And>x. x \<in> set us \<Longrightarrow> pbufs m' x = map_option (\<lambda>b. b\<lparr>tot_len := tot_len b - s\<rparr>) (pbufs m x)) \<Longrightarrow>
    packet m' p (us @ [a]) \<and> contents m' (us @ [a]) = take (lens m us + unat r) (contents m (us @ a # vs))"
proof (induction us arbitrary: p)
  case Nil
  then have "packet m p (a # vs)" by simp
  then obtain pb where p: "p = Some a" "pbufs m a = Some pb" "packet m (pnext pb) vs"
    "unat (tot_len pb) = unat (plen pb) + lens m vs" "seg m a = rd m (payload pb) (unat (plen pb))" "seg_len m a = unat (plen pb)"
    by (rule packet_ConsE)
  have "packet m' p [a]" using p assms(3) by (simp add: packet_def seg_len_def)
  moreover have "contents m' [a] = take (unat r) (contents m (a # vs))"
    using p(2,5,6) assms take_rd [of "unat r" "unat (plen pb)" m "payload pb"] rd_cong [OF assms(2)] by (simp add: seg_def)
  ultimately show ?case by simp
next
  case (Cons u us)
  from Cons.prems(1) have "packet m p (u # us @ a # vs)" by simp
  then obtain pb where p: "p = Some u" "pbufs m u = Some pb" "packet m (pnext pb) (us @ a # vs)"
    "unat (tot_len pb) = unat (plen pb) + lens m (us @ a # vs)" "seg m u = rd m (payload pb) (unat (plen pb))" "seg_len m u = unat (plen pb)"
    by (rule packet_ConsE)
  have ih: "packet m' (pnext pb) (us @ [a])" "contents m' (us @ [a]) = take (lens m us + unat r) (contents m (us @ a # vs))"
    using Cons.IH [OF p(3) Cons.prems(2)] Cons.prems(3,4) by simp_all
  have u': "pbufs m' u = Some (pb\<lparr>tot_len := tot_len pb - s\<rparr>)" using Cons.prems(4) [of u] p(2) by simp
  have lr: "lens m' (us @ [a]) = lens m us + unat r"
    using arg_cong [OF ih(2), of length] assms(1) by simp
  have le: "unat s \<le> unat (tot_len pb)" using Cons.prems(2) p(4) by simp
  then have "unat (tot_len pb - s) = unat (tot_len pb) - unat s" by (simp add: unat_sub_le word_le_nat_alt)
  also have "\<dots> = unat (plen pb) + lens m' (us @ [a])" using p(4) Cons.prems(2) assms(1) unfolding lr by simp
  finally have tot: "unat (tot_len pb - s) = unat (plen pb) + lens m' (us @ [a])" .
  have su: "seg_len m' u = unat (plen pb)" "seg m' u = seg m u"
    using u' p(5) rd_cong [OF assms(2)] by (simp_all add: seg_len_def seg_def)
  have "packet m' p ((u # us) @ [a])"
    using ih(1) tot su(1) u' p(1) unfolding packet_def by simp
  moreover have "contents m' ((u # us) @ [a]) = take (lens m (u # us) + unat r) (contents m ((u # us) @ a # vs))"
    using ih(2) su(2) p(6) by simp
  ultimately show ?case by blast
qed

lemma realloc_spec:
  assumes "packet m (Some p) as" "\<And>a. a \<in> set as \<Longrightarrow> owned m a"
  shows "\<exists>m' bs. pbuf_realloc (Some p) n m = Some m' \<and> packet m' (Some p) bs \<and> prefix bs as \<and> bs \<noteq> [] \<and>
    contents m' bs = take (unat n) (contents m as)"
proof -
  obtain pb where pb: "pbufs m p = Some pb" "unat (tot_len pb) = lens m as" using assms(1) by (rule packet_totE)
  have ne: "as \<noteq> []" using assms(1) by auto
  show ?thesis
  proof (cases "n \<ge> tot_len pb")
    case True
    then have "pbuf_realloc (Some p) n m = Some m" using pb by (simp add: pbuf_realloc_def)
    moreover have "lens m as \<le> unat n" using True pb(2) by (simp add: word_le_nat_alt)
    ultimately show ?thesis using assms(1) ne by (intro exI [of _ m] exI [of _ as]) simp
  next
    case False
    then have n: "unat n < lens m as" using pb(2) by (simp add: word_le_nat_alt not_le)
    define s where "s = tot_len pb - n"
    have us: "unat s = lens m as - unat n" using False pb(2) by (simp add: s_def unat_sub_le)
    obtain us a vs r m1 where l: "realloc_loop p n s m = Some (a, r, m1)" "as = us @ a # vs" "unat n = lens m us + unat r"
      "unat r \<le> seg_len m a" "bytes m1 = bytes m" "heap m1 = heap m" "tabs m1 = tabs m"
      "pbufs m1 = (\<lambda>x. if x \<in> set us then map_option (\<lambda>b. b\<lparr>tot_len := tot_len b - s\<rparr>) (pbufs m x) else pbufs m x)"
      using realloc_loop_spec [OF assms(1), of n s] n by auto
    have d: "distinct (us @ a # vs)" using assms(1) chain_distinct [of m "Some p" as] l(2) by (simp add: packet_def)
    have ch: "chain m (Some a) (a # vs)" using assms(1) chain_append l(2) by (auto simp: packet_def)
    then obtain ab where ab: "pbufs m a = Some ab" "chain m (pnext ab) vs" by (rule chain_ConsE) blast
    define m2 where "m2 = upd a (\<lambda>b. b\<lparr>plen := r, tot_len := r\<rparr>) m1"
    have a2: "pbufs m2 a = Some (ab\<lparr>plen := r, tot_len := r\<rparr>)" using ab(1) d by (simp add: m2_def l(8))
    have same: "pbufs m2 x = pbufs m x" if "x \<in> set vs" for x using that d by (auto simp: m2_def l(8))
    have "\<exists>m3. (case pnext ab of None \<Rightarrow> Some m2 | Some n \<Rightarrow> map_option snd (pbuf_free (Some n) m2)) = Some m3 \<and>
        bytes m3 = bytes m2 \<and> (\<forall>x. x \<notin> set vs \<longrightarrow> pbufs m3 x = pbufs m2 x)"
    proof (cases vs)
      case Nil
      then show ?thesis using ab(2) by simp
    next
      case (Cons v vs')
      then have nx: "pnext ab = Some v" using ab(2) by simp
      have "chain m2 (Some v) vs" using ab(2) nx chain_cong [of vs m m2] same by simp
      moreover have "owned m2 x" if "x \<in> set vs" for x
        using assms(2) [of x] that owned_cong [OF same [OF that]] l(2,6) by (simp add: m2_def)
      ultimately obtain m3 k where m3: "pbuf_free (Some v) m2 = Some (k, m3)" "freed m2 vs m3" using free_spec by blast
      have "set (dying m2 vs) \<subseteq> set vs" "survivors m2 vs \<noteq> [] \<Longrightarrow> hd (survivors m2 vs) \<in> set vs"
        by (auto simp: dying_def survivors_def dest: set_takeWhileD set_dropWhileD intro: set_dropWhileD [OF hd_in_set])
      then show ?thesis using m3 nx by (auto simp: freed_def)
    qed
    then obtain m3 where m3: "(case pnext ab of None \<Rightarrow> Some m2 | Some n \<Rightarrow> map_option snd (pbuf_free (Some n) m2)) = Some m3"
      "bytes m3 = bytes m2" "\<And>x. x \<notin> set vs \<Longrightarrow> pbufs m3 x = pbufs m2 x" by blast
    define m' where "m' = upd a (\<lambda>b. b\<lparr>pnext := None\<rparr>) m3"
    have r: "pbuf_realloc (Some p) n m = Some m'"
    proof -
      have "pbufs m1 a = Some ab" using ab(1) d by (simp add: l(8))
      then show ?thesis using pb(1) False l(1) m3(1) by (simp add: pbuf_realloc_def s_def m2_def [symmetric] m'_def)
    qed
    have "a \<notin> set us" "a \<notin> set vs" "\<And>x. x \<in> set us \<Longrightarrow> x \<notin> set vs \<and> x \<noteq> a" using d by auto
    note dd = this
    have "packet m' (Some p) (us @ [a]) \<and> contents m' (us @ [a]) = take (lens m us + unat r) (contents m (us @ a # vs))"
    proof (rule cut_packet [OF l(4), where s = s])
      show "bytes m' = bytes m" using m3(2) l(5) by (simp add: m'_def m2_def)
      show "pbufs m' a = map_option (\<lambda>b. b\<lparr>plen := r, tot_len := r, pnext := None\<rparr>) (pbufs m a)"
        using dd m3(3) [of a] a2 ab(1) by (simp add: m'_def)
      show "packet m (Some p) (us @ a # vs)" using assms(1) l(2) by simp
      show "unat s = seg_len m a - unat r + lens m vs" using us l(2,3,4) by simp
      show "pbufs m' x = map_option (\<lambda>b. b\<lparr>tot_len := tot_len b - s\<rparr>) (pbufs m x)" if "x \<in> set us" for x
        using dd(3) [OF that] m3(3) [of x] that by (simp add: m'_def m2_def l(8))
    qed (use dd in simp)
    then show ?thesis using r l(2,3) by (intro exI [of _ m'] exI [of _ "us @ [a]"]) (simp add: prefix_def)
  qed
qed

section \<open>Headers\<close>

lemma head_update:
  assumes "packet m (Some a) (a # as)" "pbufs m a = Some pb" "pnext pb' = pnext pb"
    "unat (tot_len pb') = unat (plen pb') + lens m as" "pbufs m' = (pbufs m)(a \<mapsto> pb')" "bytes m' = bytes m"
  shows "packet m' (Some a) (a # as)" "contents m' (a # as) = rd m (payload pb') (unat (plen pb')) @ contents m as"
proof -
  have d: "a \<notin> set as" using chain_distinct [of m "Some a" "a # as"] assms(1) by (simp add: packet_def)
  have same: "pbufs m x = pbufs m' x" if "x \<in> set as" for x using that d by (auto simp: assms(5))
  have "packet m (pnext pb) as" using assms(1,2) by (simp add: packet_def)
  then have r: "packet m' (pnext pb') as" using packet_cong [OF same] assms(3) by simp
  have l: "lens m' as = lens m as" using same by (intro lens_cong) simp
  have c: "contents m' as = contents m as" by (rule contents_cong [symmetric]) (use same assms(6) in auto)
  show "packet m' (Some a) (a # as)" using r l assms(4,5) by (simp add: packet_def seg_len_def)
  show "contents m' (a # as) = rd m (payload pb') (unat (plen pb')) @ contents m as"
    using c rd_cong [OF assms(6)] by (simp add: seg_def assms(5))
qed

lemma remove_header_spec:
  assumes "packet m (Some a) (a # as)" "n \<le> seg_len m a"
  shows "\<exists>m'. pbuf_remove_header (Some a) n m = Some (0, m') \<and> packet m' (Some a) (a # as) \<and>
    contents m' (a # as) = drop n (contents m (a # as)) \<and> bytes m' = bytes m \<and> heap m' = heap m \<and> tabs m' = tabs m \<and>
    (\<forall>x. x \<noteq> a \<longrightarrow> pbufs m' x = pbufs m x)"
proof -
  obtain pb where p: "Some a = Some a" "pbufs m a = Some pb" "packet m (pnext pb) as"
    "unat (tot_len pb) = unat (plen pb) + lens m as" "seg m a = rd m (payload pb) (unat (plen pb))" "seg_len m a = unat (plen pb)"
    using assms(1) by (rule packet_ConsE)
  have n16: "n < 2 ^ 16" using assms(2) p(6) unsigned_less [of "plen pb", where ?'a = nat] by simp
  show ?thesis
  proof (cases "n = 0")
    case True
    then show ?thesis using p(2) assms(1) by (intro exI [of _ m]) (simp add: pbuf_remove_header_def)
  next
    case False
    define mag where "mag = (of_nat n :: u16)"
    have un: "unat mag = n" using n16 by (simp only: mag_def unat_of_nat_fits)
    have le: "mag \<le> plen pb" "mag \<le> tot_len pb" using un assms(2) p(4,6) by (simp_all add: word_le_nat_alt)
    define pb' where "pb' = pb\<lparr>payload := payload pb + n, plen := plen pb - mag, tot_len := tot_len pb - mag\<rparr>"
    define m' where "m' = upd a (\<lambda>b. b\<lparr>payload := payload b + n, plen := plen b - mag, tot_len := tot_len b - mag\<rparr>) m"
    have r: "pbuf_remove_header (Some a) n m = Some (0, m')"
      using p(2) False n16 le(1) by (simp add: pbuf_remove_header_def mag_def [symmetric] m'_def)
    have m': "pbufs m' = (pbufs m)(a \<mapsto> pb')" "bytes m' = bytes m" using p(2) by (simp_all add: m'_def pb'_def)
    have "unat (tot_len pb') = unat (plen pb') + lens m as"
      using un le p(4,6) assms(2) by (simp add: pb'_def unat_sub_le)
    note h = head_update [OF assms(1) p(2) _ this m']
    have "rd m (payload pb') (unat (plen pb')) = drop n (seg m a)"
      using un le p(5,6) assms(2) by (simp add: pb'_def unat_sub_le drop_rd)
    then show ?thesis using r h assms(2) m' by (auto simp: pb'_def m'_def)
  qed
qed

lemma wrap_sub: "k \<le> x \<Longrightarrow> x < N \<Longrightarrow> (x + N - k) mod N = x - (k::nat)"
  by (metis Nat.add_diff_assoc2 less_imp_diff_less mod_add_self2 mod_less)

lemma add_header_spec:
  assumes "packet m (Some a) (a # as)" "pbufs m a = Some pb" "0 < n" "lens m (a # as) + n < 2 ^ 16" "n \<le> payload pb" "payload pb < 2 ^ 64"
  shows "pbuf_add_header_impl (Some a) n force m =
    (if (if type_internal pb AND 0x80 \<noteq> 0 then payload pb - n \<ge> a + SIZEOF_STRUCT_PBUF else force)
     then Some (0, upd a (\<lambda>b. b\<lparr>payload := payload pb - n, plen := plen b + of_nat n, tot_len := tot_len b + of_nat n\<rparr>) m)
     else Some (1, m))"
    and "packet (upd a (\<lambda>b. b\<lparr>payload := payload pb - n, plen := plen b + of_nat n, tot_len := tot_len b + of_nat n\<rparr>) m) (Some a) (a # as)"
    and "contents (upd a (\<lambda>b. b\<lparr>payload := payload pb - n, plen := plen b + of_nat n, tot_len := tot_len b + of_nat n\<rparr>) m) (a # as) =
      rd m (payload pb - n) n @ contents m (a # as)"
proof -
  let ?f = "\<lambda>b. b\<lparr>payload := payload pb - n, plen := plen b + of_nat n, tot_len := tot_len b + of_nat n\<rparr>"
  have p: "unat (tot_len pb) = unat (plen pb) + lens m as" "seg m a = rd m (payload pb) (unat (plen pb))" "seg_len m a = unat (plen pb)"
    using assms(1,2) by (auto elim: packet_ConsE)
  have un: "unat (of_nat n :: u16) = n" using assms(4) by (intro unat_of_nat_fits) simp
  have fits: "unat (plen pb + of_nat n) = unat (plen pb) + n" "unat (tot_len pb + of_nat n) = unat (tot_len pb) + n"
    using unat_add_fits [of "plen pb" "of_nat n"] unat_add_fits [of "tot_len pb" "of_nat n"] un assms(4) p by simp_all
  have nowrap: "\<not> of_nat n + tot_len pb < (of_nat n :: u16)" using fits(2) un by (simp add: word_less_nat_alt add.commute)
  have sub: "(payload pb + 2 ^ 64 - n) mod 2 ^ 64 = payload pb - n"
    by (rule wrap_sub [OF assms(5,6)])
  show "pbuf_add_header_impl (Some a) n force m =
    (if (if type_internal pb AND 0x80 \<noteq> 0 then payload pb - n \<ge> a + SIZEOF_STRUCT_PBUF else force)
     then Some (0, upd a ?f m) else Some (1, m))"
  proof -
    have c: "(0xFFFF < n) = False" "(n = 0) = False" "(of_nat n + tot_len pb < (of_nat n :: u16)) = False"
      using assms(3,4) nowrap by auto
    show ?thesis unfolding pbuf_add_header_impl_def
      by (simp only: bind.bind_lunit assms(2) c if_False Let_def sub) (simp add: not_le)
  qed
  have u: "pbufs (upd a ?f m) = (pbufs m)(a \<mapsto> ?f pb)" "bytes (upd a ?f m) = bytes m" using assms(2) by simp_all
  have "unat (tot_len (?f pb)) = unat (plen (?f pb)) + lens m as" using fits p by simp
  note h = head_update [OF assms(1,2) _ this u]
  show "packet (upd a ?f m) (Some a) (a # as)" using h(1) by simp
  have "rd m (payload pb - n) (unat (plen pb) + n) = rd m (payload pb - n) n @ rd m (payload pb) (unat (plen pb))"
    using assms(5) take_rd [of n "unat (plen pb) + n" m "payload pb - n"] drop_rd [of n "unat (plen pb) + n" m "payload pb - n"]
    by (metis add_diff_cancel_right' append_take_drop_id le_add2 le_add_diff_inverse2)
  then show "contents (upd a ?f m) (a # as) = rd m (payload pb - n) n @ contents m (a # as)"
    using h(2) fits p by simp
qed

lemma free_header_spec:
  "packet m p as \<Longrightarrow> (\<And>a. a \<in> set as \<Longrightarrow> owned m a) \<Longrightarrow>
   \<exists>p' bs m'. pbuf_free_header p n m = Some (p', m') \<and> packet m' p' bs \<and> suffix bs as \<and> contents m' bs = drop (unat n) (contents m as)"
proof (induction as arbitrary: p m n)
  case Nil
  then show ?case by (subst pbuf_free_header.simps) simp
next
  case (Cons a as)
  from Cons.prems(1) obtain pb where p: "p = Some a" "pbufs m a = Some pb" "packet m (pnext pb) as"
    "unat (tot_len pb) = unat (plen pb) + lens m as" "seg m a = rd m (payload pb) (unat (plen pb))" "seg_len m a = unat (plen pb)"
    by (rule packet_ConsE)
  have d: "a \<notin> set as" using chain_distinct [of m p "a # as"] Cons.prems(1) by (simp add: packet_def)
  consider "n = 0" | "n \<noteq> 0" "n \<ge> plen pb" | "n \<noteq> 0" "\<not> n \<ge> plen pb" by blast
  then show ?case
  proof cases
    case 1
    then have "pbuf_free_header p n m = Some (p, m)" by (subst pbuf_free_header.simps) simp
    then show ?thesis using 1 Cons.prems(1) by (metis drop0 suffix_order.order_refl unsigned_0)
  next
    case 2
    define m1 where "m1 = upd a (\<lambda>b. b\<lparr>pnext := None\<rparr>) m"
    have "chain m1 (Some a) [a]" "owned m1 a"
      using p(2) Cons.prems(2) [of a] by (simp_all add: m1_def owned_def pbuf_get_allocsrc_def)
    then obtain m2 k where m2: "pbuf_free (Some a) m1 = Some (k, m2)" "freed m1 [a] m2" using free_spec [of m1 a "[a]"] by auto
    have sub: "x \<noteq> a \<Longrightarrow> x \<notin> set (dying m1 [a])" "x \<noteq> a \<Longrightarrow> survivors m1 [a] \<noteq> [] \<Longrightarrow> x \<noteq> hd (survivors m1 [a])" for x
      by (auto simp: dying_def survivors_def split: if_splits)
    have out: "pbufs m2 x = pbufs m x" "heap m2 x = heap m x" if "x \<noteq> a" for x
      using m2(2) that sub [OF that] unfolding freed_def by (auto simp: m1_def)
    have b2: "bytes m2 = bytes m" using m2(2) by (simp add: freed_def m1_def)
    have same: "pbufs m2 x = pbufs m x" if "x \<in> set as" for x using that d out(1) [of x] by auto
    have "packet m2 (pnext pb) as" using packet_cong [OF same] p(3) by simp
    moreover have "owned m2 x" if "x \<in> set as" for x
      using Cons.prems(2) [of x] that owned_cong [OF out [of x]] d by auto
    ultimately obtain p' bs m' where ih: "pbuf_free_header (pnext pb) (n - plen pb) m2 = Some (p', m')" "packet m' p' bs" "suffix bs as"
      "contents m' bs = drop (unat (n - plen pb)) (contents m2 as)"
      using Cons.IH [of m2 "pnext pb" "n - plen pb"] by blast
    have "pbuf_free_header p n m = pbuf_free_header (pnext pb) (n - plen pb) m2"
      using 2 p(1,2) m2(1) by (subst pbuf_free_header.simps) (simp add: m1_def)
    moreover have "contents m2 as = contents m as" using same b2 by (intro contents_cong) auto
    moreover have "drop (unat (n - plen pb)) (contents m as) = drop (unat n) (contents m (a # as))"
      using 2(2) p(6) by (simp add: unat_sub_le word_le_nat_alt)
    ultimately show ?thesis using ih by (metis suffix_ConsI)
  next
    case 3
    then have le: "unat n \<le> seg_len m a" using p(6) by (simp add: word_le_nat_alt)
    obtain m' where m': "pbuf_remove_header (Some a) (unat n) m = Some (0, m')" "packet m' (Some a) (a # as)"
      "contents m' (a # as) = drop (unat n) (contents m (a # as))"
      using remove_header_spec [of m a as "unat n"] Cons.prems(1) le p(1) by blast
    have "pbuf_free_header p n m = Some (Some a, m')"
      using 3 p(1,2) m'(1) by (subst pbuf_free_header.simps) simp
    then show ?thesis using m' by (metis suffix_order.order_refl)
  qed
qed

section \<open>Properties\<close>

lemma sample_owned: "a \<in> set [0x1000, 0x2000] \<Longrightarrow> owned sample_mem a"
  by (auto simp: owned_def sample_mem_def pbuf_get_allocsrc_def)

lemma sample_tail: "packet sample_mem (Some 0x2000) [0x2000]"
  by (simp add: packet_def sample_mem_def seg_len_def)

text \<open>
  C16. The buffer operations keep the packet invariant of \<^verbatim>\<open>pbuf.h\<close> (every \<^verbatim>\<open>tot_len\<close> is the sum of the lengths from there on)
  and have the intended effect on the bytes: shrinking keeps a prefix of the content, dropping a header removes that many
  bytes from the front and releases the buffers it empties, and concatenation joins the contents. They always return, on
  chains of any length whose buffers can be given back.\<close>

theorem pbuf_ops_invariant:
  assumes "packet m (Some h) hs" "packet m (Some t) ts" "set hs \<inter> set ts = {}" "lens m hs + lens m ts < 2 ^ 16"
    "\<forall>a \<in> set hs. owned m a"
  shows "(\<exists>m' bs. pbuf_realloc (Some h) n m = Some m' \<and> packet m' (Some h) bs \<and> prefix bs hs \<and> bs \<noteq> [] \<and>
      contents m' bs = take (unat n) (contents m hs)) \<and>
    (\<exists>p' bs m'. pbuf_free_header (Some h) n m = Some (p', m') \<and> packet m' p' bs \<and> suffix bs hs \<and>
      contents m' bs = drop (unat n) (contents m hs)) \<and>
    (\<exists>m'. pbuf_cat (Some h) (Some t) m = Some m' \<and> packet m' (Some h) (hs @ ts) \<and>
      contents m' (hs @ ts) = contents m hs @ contents m ts)"
  using realloc_spec [OF assms(1), of n] free_header_spec [OF assms(1), of n] cat_spec [OF assms(1-4)] assms(5) by blast

definition sample_mem2 :: pmem where
  "sample_mem2 = sample_mem\<lparr>pbufs := (pbufs sample_mem)(0x3000 \<mapsto> \<lparr>pnext = None, payload = 0x3007, tot_len = 1, plen = 1,
     type_internal = 0x01, pflags = 0, pref = 1, if_idx = 0\<rparr>)\<rparr>"

lemma sample2_packets:
  "packet sample_mem2 (Some 0x1000) [0x1000, 0x2000]" "packet sample_mem2 (Some 0x3000) [0x3000]"
  "lens sample_mem2 [0x1000, 0x2000] = 5" "lens sample_mem2 [0x3000] = 1" "\<forall>a \<in> set [0x1000, 0x2000]. owned sample_mem2 a"
  "contents sample_mem2 [0x1000, 0x2000] = [0, 1, 2, 1, 2]" "contents sample_mem2 [0x3000] = [7]"
  by (simp_all add: packet_def sample_mem2_def sample_mem_def seg_len_def owned_def pbuf_get_allocsrc_def seg_def rd_def upt_rec)

theorem pbuf_ops_invariant_witness:
  "(\<exists>m' bs. pbuf_realloc (Some 0x1000) 2 sample_mem2 = Some m' \<and> packet m' (Some 0x1000) bs \<and> contents m' bs = [0, 1]) \<and>
   (\<exists>p' bs m'. pbuf_free_header (Some 0x1000) 2 sample_mem2 = Some (p', m') \<and> packet m' p' bs \<and> contents m' bs = [2, 1, 2]) \<and>
   (\<exists>m'. pbuf_cat (Some 0x1000) (Some 0x3000) sample_mem2 = Some m' \<and> packet m' (Some 0x1000) [0x1000, 0x2000, 0x3000] \<and>
     contents m' [0x1000, 0x2000, 0x3000] = [0, 1, 2, 1, 2, 7])"
proof -
  have h: "set [0x1000, 0x2000 :: nat] \<inter> set [0x3000] = {}" "lens sample_mem2 [0x1000, 0x2000] + lens sample_mem2 [0x3000] < 2 ^ 16"
    by (simp_all add: sample2_packets del: lens_simps)
  note inst = pbuf_ops_invariant [OF sample2_packets(1,2) h sample2_packets(5), of 2]
  show ?thesis using inst by (auto simp: sample2_packets simp del: contents_simps)
qed

text \<open>
  C40. Reading a chain reads its content as one byte sequence, whatever the segmentation: \<^verbatim>\<open>pbuf_copy_partial\<close> copies exactly
  the requested window (cut at the end of the packet) to the start of the destination and nothing else, \<^verbatim>\<open>pbuf_get_at\<close> returns the
  byte at an offset and 0 beyond the end, and \<^verbatim>\<open>pbuf_memfind\<close> returns the first occurrence at or after the start offset, or
  0xFFFF. None of them reads outside a payload or fails to return.\<close>

theorem pbuf_read_correct:
  assumes "packet m (Some p) as" "length (window m as (unat off) (unat len)) \<le> length dst" "length s2 < 2 ^ 16"
  shows "pbuf_copy_partial m (Some p) (Some dst) len off =
      Some (of_nat (length (window m as (unat off) (unat len))), Some (blit dst 0 (window m as (unat off) (unat len)))) \<and>
    pbuf_get_at m (Some p) off = Some (if unat off < lens m as then contents m as ! unat off else 0) \<and>
    pbuf_memfind m p s2 (of_nat (length s2)) off = Some
      (if \<exists>j\<ge>unat off. occurs_at m as s2 j then of_nat (LEAST j. unat off \<le> j \<and> occurs_at m as s2 j) else 0xFFFF)"
  using assms by (simp add: copy_partial_spec get_at_spec memfind_spec packet_def)

theorem pbuf_read_correct_witness:
  "pbuf_copy_partial sample_mem (Some 0x1000) (Some [9, 9, 9, 9]) 3 2 = Some (3, Some [2, 1, 2, 9]) \<and>
   pbuf_get_at sample_mem (Some 0x1000) 2 = Some 2"
proof -
  have w: "window sample_mem [0x1000, 0x2000] (unat (2::u16)) (unat (3::u16)) = [2, 1, 2]"
    by (simp add: window_def sample_contents del: contents_simps)
  have l: "lens sample_mem [0x1000, 0x2000] = 5" by (simp add: seg_len_def sample_mem_def)
  show ?thesis
    using pbuf_read_correct [OF sample_packet, of 2 3 "[9, 9, 9, 9]" "[]", unfolded w l sample_contents] by (simp add: blit_def)
qed

text \<open>
  C17. Releasing a chain deallocates exactly the buffers at its front whose only reference was the one given up, each into the
  pool or the heap it came from, takes one reference off the first buffer that others still use and leaves it and everything
  behind it allocated; no byte is changed, and the number of buffers freed is returned modulo 256.\<close>

theorem pbuf_free_correct:
  assumes "chain m (Some p) as" "\<forall>a \<in> set as. owned m a"
  shows "\<exists>m'. pbuf_free (Some p) m = Some (of_nat (length (dying m as)), m') \<and> freed m as m'"
  using free_spec [OF assms(1)] assms(2) by blast

theorem pbuf_free_correct_witness:
  "\<exists>m'. pbuf_free (Some 0x1000) sample_mem = Some (2, m') \<and> freed sample_mem [0x1000, 0x2000] m' \<and>
     dying sample_mem [0x1000, 0x2000] = [0x1000, 0x2000]"
proof -
  have c: "chain sample_mem (Some 0x1000) [0x1000, 0x2000]" using sample_packet by (simp only: packet_def)
  have o: "\<forall>a \<in> set [0x1000, 0x2000]. owned sample_mem a" using sample_owned by blast
  have d: "dying sample_mem [0x1000, 0x2000] = [0x1000, 0x2000]" by (simp add: dying_def ref_of_def sample_mem_def)
  show ?thesis using pbuf_free_correct [OF c o] unfolding d by simp
qed

end
