(* ===== verification/Udp_Pcb.thy ===== *)
theory Udp_Pcb
  imports Ip_Addr Pbuf_Ops
begin

text \<open>
  UDP, from lwIP's \<^verbatim>\<open>core/udp.c\<close> as configured (no UDP-Lite, no address reuse, no multicast options, no checksum test on input)
  and as patched for this program: a datagram that matches no pcb goes to the pcb bound to port 0. The state holds the pcbs by
  address, the list \<^verbatim>\<open>udp_pcbs\<close>, the last ephemeral port and the log of ICMP errors requested. A receive callback is a function
  argument of \<^verbatim>\<open>udp_input\<close> and the IP output one of the sending functions; both act on the packet memory, the UDP state and an
  arbitrary environment.
\<close>

section \<open>Data\<close>

record udp_pcb =
  u_local_ip :: ip_addr_t
  u_remote_ip :: ip_addr_t
  u_netif_idx :: u8
  u_so_options :: u8
  u_tos :: u8
  u_ttl :: u8
  u_flags :: u8
  u_local_port :: u16
  u_remote_port :: u16
  u_recv :: bool
  u_recv_arg :: nat

datatype icmp_call = Icmp_port_unreach bool nat | Icmp_dest_unreach_proto nat | Icmp6_param_problem nat u8 nat

record udps =
  upcbs :: "nat \<rightharpoonup> udp_pcb"
  udp_pcbs :: "nat list"
  udp_port :: u16
  icmps :: "icmp_call list"

definition UDP_FLAGS_NOCHKSUM :: u8 where
  "UDP_FLAGS_NOCHKSUM = 0x01"

definition UDP_FLAGS_CONNECTED :: u8 where
  "UDP_FLAGS_CONNECTED = 0x04"

definition UDP_HLEN :: nat where
  "UDP_HLEN = 8"

definition UDP_LOCAL_PORT_RANGE_START :: u16 where
  "UDP_LOCAL_PORT_RANGE_START = 0xc000"

definition UDP_LOCAL_PORT_RANGE_END :: u16 where
  "UDP_LOCAL_PORT_RANGE_END = 0xffff"

definition UDP_ENSURE_LOCAL_PORT_RANGE :: "u16 \<Rightarrow> u16" where
  "UDP_ENSURE_LOCAL_PORT_RANGE port = (port AND NOT UDP_LOCAL_PORT_RANGE_START) + UDP_LOCAL_PORT_RANGE_START"

definition upd_upcb :: "nat \<Rightarrow> (udp_pcb \<Rightarrow> udp_pcb) \<Rightarrow> udps \<Rightarrow> udps" where
  "upd_upcb a f u = u\<lparr>upcbs := (upcbs u)(a := map_option f (upcbs u a))\<rparr>"

section \<open>Ports\<close>

text \<open>\<^verbatim>\<open>rand\<close> is the value of \<^verbatim>\<open>LWIP_RAND()\<close>.\<close>

definition udp_init :: "u32 \<Rightarrow> udps \<Rightarrow> udps" where
  "udp_init rand u = u\<lparr>udp_port := UDP_ENSURE_LOCAL_PORT_RANGE (ucast rand)\<rparr>"

fun port_used :: "(nat \<rightharpoonup> udp_pcb) \<Rightarrow> nat list \<Rightarrow> u16 \<Rightarrow> bool option" where
  "port_used t [] port = Some False"
| "port_used t (a # as) port = do { pcb \<leftarrow> t a; if u_local_port pcb = port then Some True else port_used t as port }"

definition next_port :: "u16 \<Rightarrow> u16" where
  "next_port port = (if port = UDP_LOCAL_PORT_RANGE_END then UDP_LOCAL_PORT_RANGE_START else port + 1)"

text \<open>The jumps back to \<^verbatim>\<open>again\<close>; the counter is compared before it can wrap around.\<close>

partial_function (option) new_port_again :: "(nat \<rightharpoonup> udp_pcb) \<Rightarrow> nat list \<Rightarrow> u16 \<Rightarrow> u16 \<Rightarrow> (u16 \<times> u16) option" where
  "new_port_again t l n port = do {
     let port = next_port port;
     used \<leftarrow> port_used t l port;
     if used then
       (let n = n + 1 in
        if n > UDP_LOCAL_PORT_RANGE_END - UDP_LOCAL_PORT_RANGE_START then Some (0, port) else new_port_again t l n port)
     else Some (port, port)
   }"

definition udp_new_port :: "udps \<Rightarrow> (u16 \<times> udps) option" where
  "udp_new_port u = do {
     (r, port) \<leftarrow> new_port_again (upcbs u) (udp_pcbs u) 0 (udp_port u);
     Some (r, u\<lparr>udp_port := port\<rparr>)
   }"

section \<open>Life cycle\<close>

definition udp_new :: "pmem \<times> udps \<Rightarrow> (nat option \<times> pmem \<times> udps) option" where
  "udp_new = (\<lambda>(m, u). do {
     (p, t) \<leftarrow> memp_malloc MEMP_UDP_PCB (tabs m);
     let m = m\<lparr>tabs := t\<rparr>;
     case p of
       None \<Rightarrow> Some (None, m, u)
     | Some a \<Rightarrow> Some (Some a, m, u\<lparr>upcbs := (upcbs u)(a \<mapsto>
         \<lparr>u_local_ip = ip_addr_set_any False, u_remote_ip = ip_addr_set_any False, u_netif_idx = 0, u_so_options = 0, u_tos = 0,
          u_ttl = 255, u_flags = 0, u_local_port = 0, u_remote_port = 0, u_recv = False, u_recv_arg = 0\<rparr>)\<rparr>)
   })"

definition udp_new_ip_type :: "u8 \<Rightarrow> pmem \<times> udps \<Rightarrow> (nat option \<times> pmem \<times> udps) option" where
  "udp_new_ip_type ty s = do {
     (p, m, u) \<leftarrow> udp_new s;
     case p of
       None \<Rightarrow> Some (None, m, u)
     | Some a \<Rightarrow> Some (Some a, m, upd_upcb a (\<lambda>b. b\<lparr>u_local_ip := (u_local_ip b)\<lparr>addr_type := ty\<rparr>,
         u_remote_ip := (u_remote_ip b)\<lparr>addr_type := ty\<rparr>\<rparr>) u)
   }"

text \<open>Another pcb claims the port for an overlapping address.\<close>

definition binding_clash :: "udp_pcb \<Rightarrow> ip_addr_t \<Rightarrow> u16 \<Rightarrow> bool" where
  "binding_clash ipcb ip port \<longleftrightarrow> u_local_port ipcb = port \<and>
     (addr_type (u_local_ip ipcb) = addr_type ip \<and>
        (ip_addr_eq (u_local_ip ipcb) ip \<or> ip_addr_isany ip \<or> ip_addr_isany (u_local_ip ipcb)) \<or>
      addr_type (u_local_ip ipcb) = IPADDR_TYPE_ANY \<or> addr_type ip = IPADDR_TYPE_ANY)"

fun clash_scan :: "(nat \<rightharpoonup> udp_pcb) \<Rightarrow> nat list \<Rightarrow> nat \<Rightarrow> ip_addr_t \<Rightarrow> u16 \<Rightarrow> bool option" where
  "clash_scan t [] pcb ip port = Some False"
| "clash_scan t (a # as) pcb ip port = do {
     b \<leftarrow> t a;
     if a \<noteq> pcb \<and> binding_clash b ip port then Some True else clash_scan t as pcb ip port
   }"

definition udp_bind :: "nat \<Rightarrow> ip_addr_t \<Rightarrow> u16 \<Rightarrow> udps \<Rightarrow> (err_t \<times> udps) option" where
  "udp_bind pcb ip port u = do {
     _ \<leftarrow> upcbs u pcb;
     let rebind = (pcb \<in> set (udp_pcbs u));
     (err, port, u) \<leftarrow>
       (if port = 0 then do {
          (port, u) \<leftarrow> udp_new_port u;
          Some (if port = 0 then ERR_USE else ERR_OK, port, u)
        } else do {
          clash \<leftarrow> clash_scan (upcbs u) (udp_pcbs u) pcb ip port;
          Some (if clash then ERR_USE else ERR_OK, port, u)
        });
     if err \<noteq> ERR_OK then Some (err, u)
     else (let u = upd_upcb pcb (\<lambda>b. b\<lparr>u_local_ip := ip_addr_set ip, u_local_port := port\<rparr>) u
           in Some (ERR_OK, if rebind then u else u\<lparr>udp_pcbs := pcb # udp_pcbs u\<rparr>))
   }"

definition udp_bind_netif :: "nat \<Rightarrow> netif option \<Rightarrow> udps \<Rightarrow> udps" where
  "udp_bind_netif pcb n u = upd_upcb pcb (\<lambda>b. b\<lparr>u_netif_idx := (case n of None \<Rightarrow> 0 | Some n \<Rightarrow> netif_get_index n)\<rparr>) u"

definition udp_connect :: "nat \<Rightarrow> ip_addr_t \<Rightarrow> u16 \<Rightarrow> udps \<Rightarrow> (err_t \<times> udps) option" where
  "udp_connect pcb ip port u = do {
     b \<leftarrow> upcbs u pcb;
     (err, u) \<leftarrow> (if u_local_port b = 0 then udp_bind pcb (u_local_ip b) (u_local_port b) u else Some (ERR_OK, u));
     if err \<noteq> ERR_OK then Some (err, u)
     else (let u = upd_upcb pcb (\<lambda>b. b\<lparr>u_remote_ip := ip_addr_set ip, u_remote_port := port,
                 u_flags := u_flags b OR UDP_FLAGS_CONNECTED\<rparr>) u
           in Some (ERR_OK, if pcb \<in> set (udp_pcbs u) then u else u\<lparr>udp_pcbs := pcb # udp_pcbs u\<rparr>))
   }"

definition udp_disconnect :: "nat \<Rightarrow> udps \<Rightarrow> udps" where
  "udp_disconnect pcb u = upd_upcb pcb (\<lambda>b. b\<lparr>
     u_remote_ip := (if addr_type (u_local_ip b) = IPADDR_TYPE_ANY then ip_addr_set IP_ANY_TYPE
                     else ip_addr_set_any (addr_type (u_remote_ip b) = IPADDR_TYPE_V6)),
     u_remote_port := 0, u_netif_idx := 0, u_flags := u_flags b AND NOT UDP_FLAGS_CONNECTED\<rparr>) u"

definition udp_recv :: "nat \<Rightarrow> bool \<Rightarrow> nat \<Rightarrow> udps \<Rightarrow> udps" where
  "udp_recv pcb recv arg u = upd_upcb pcb (\<lambda>b. b\<lparr>u_recv := recv, u_recv_arg := arg\<rparr>) u"

definition udp_remove :: "nat \<Rightarrow> pmem \<times> udps \<Rightarrow> (pmem \<times> udps) option" where
  "udp_remove pcb = (\<lambda>(m, u). do {
     t \<leftarrow> memp_free MEMP_UDP_PCB (Some pcb) (tabs m);
     Some (m\<lparr>tabs := t\<rparr>, u\<lparr>udp_pcbs := remove1 pcb (udp_pcbs u), upcbs := (upcbs u)(pcb := None)\<rparr>)
   })"

definition udp_netif_ip_addr_changed :: "ip_addr_t \<Rightarrow> ip_addr_t \<Rightarrow> udps \<Rightarrow> udps" where
  "udp_netif_ip_addr_changed old new u =
    (if \<not> ip_addr_isany old \<and> \<not> ip_addr_isany new then
       u\<lparr>upcbs := (\<lambda>a. if a \<in> set (udp_pcbs u) then
           map_option (\<lambda>b. if ip_addr_eq (u_local_ip b) old then b\<lparr>u_local_ip := ip_addr_set new\<rparr> else b) (upcbs u a)
         else upcbs u a)\<rparr>
     else u)"

section \<open>Input\<close>

definition udp_input_local_match :: "udp_pcb \<Rightarrow> ip_globals \<Rightarrow> netif \<Rightarrow> bool \<Rightarrow> bool" where
  "udp_input_local_match pcb ip inp broadcast =
    (if u_netif_idx pcb \<noteq> 0 \<and> u_netif_idx pcb \<noteq> netif_get_index (current_input_netif ip) then False
     else if addr_type (u_local_ip pcb) = IPADDR_TYPE_ANY then True
     else if addr_type (u_local_ip pcb) = addr_type (current_iphdr_dest ip) then
       (if broadcast then
          ip_2_ip4 (u_local_ip pcb) = 0 \<or> ip_2_ip4 (current_iphdr_dest ip) = IPADDR_BROADCAST \<or>
          ip4_addr_net_eq (ip_2_ip4 (u_local_ip pcb)) (ip_2_ip4 (current_iphdr_dest ip)) (ni_netmask inp)
        else ip_addr_isany (u_local_ip pcb) \<or> ip_addr_eq (u_local_ip pcb) (current_iphdr_dest ip))
     else False)"

text \<open>The scan for a connected match, remembering the first unconnected one.\<close>

definition better_uncon :: "(nat \<rightharpoonup> udp_pcb) \<Rightarrow> ip_globals \<Rightarrow> netif \<Rightarrow> bool \<Rightarrow> nat \<Rightarrow> udp_pcb \<Rightarrow> nat option \<Rightarrow> nat option option" where
  "better_uncon t ip inp broadcast a pcb uncon =
    (case uncon of
       None \<Rightarrow> Some (Some a)
     | Some b \<Rightarrow>
         if broadcast \<and> ip_2_ip4 (current_iphdr_dest ip) = IPADDR_BROADCAST then do {
           ub \<leftarrow> t b;
           Some (if (addr_type (u_local_ip ub) \<noteq> IPADDR_TYPE_V4 \<or> ip_2_ip4 (u_local_ip ub) \<noteq> ni_ip_addr inp) \<and>
                    addr_type (u_local_ip pcb) = IPADDR_TYPE_V4 \<and> ip_2_ip4 (u_local_ip pcb) = ni_ip_addr inp
                 then Some a else Some b)
         } else Some (Some b))"

fun udp_scan :: "(nat \<rightharpoonup> udp_pcb) \<Rightarrow> ip_globals \<Rightarrow> netif \<Rightarrow> bool \<Rightarrow> u16 \<Rightarrow> u16 \<Rightarrow> nat option \<Rightarrow> nat list \<Rightarrow> (nat option \<times> nat option) option" where
  "udp_scan t ip inp broadcast src dest uncon [] = Some (None, uncon)"
| "udp_scan t ip inp broadcast src dest uncon (a # as) = do {
     pcb \<leftarrow> t a;
     if u_local_port pcb = dest \<and> udp_input_local_match pcb ip inp broadcast then do {
       uncon \<leftarrow> (if u_flags pcb AND UDP_FLAGS_CONNECTED = 0 then better_uncon t ip inp broadcast a pcb uncon else Some uncon);
       if u_remote_port pcb = src \<and> (ip_addr_isany (u_remote_ip pcb) \<or> ip_addr_eq (u_remote_ip pcb) (current_iphdr_src ip))
       then Some (Some a, uncon)
       else udp_scan t ip inp broadcast src dest uncon as
     } else udp_scan t ip inp broadcast src dest uncon as
   }"

fun wildcard_scan :: "(nat \<rightharpoonup> udp_pcb) \<Rightarrow> ip_globals \<Rightarrow> nat list \<Rightarrow> nat option option" where
  "wildcard_scan t ip [] = Some None"
| "wildcard_scan t ip (a # as) = do {
     pcb \<leftarrow> t a;
     if u_local_port pcb = 0 \<and> addr_type (u_local_ip pcb) = addr_type (current_iphdr_dest ip) then Some (Some a)
     else wildcard_scan t ip as
   }"

text \<open>The pcb that gets the datagram: a full match (moved to the front of the list), the unconnected one, or the wildcard.\<close>

definition udp_demux :: "ip_globals \<Rightarrow> netif \<Rightarrow> bool \<Rightarrow> u16 \<Rightarrow> u16 \<Rightarrow> udps \<Rightarrow> (nat option \<times> udps) option" where
  "udp_demux ip inp broadcast src dest u = do {
     (full, uncon) \<leftarrow> udp_scan (upcbs u) ip inp broadcast src dest None (udp_pcbs u);
     case full of
       Some a \<Rightarrow> Some (Some a, u\<lparr>udp_pcbs := a # remove1 a (udp_pcbs u)\<rparr>)
     | None \<Rightarrow> (case uncon of
         Some a \<Rightarrow> Some (Some a, u)
       | None \<Rightarrow> do { w \<leftarrow> wildcard_scan (upcbs u) ip (udp_pcbs u); Some (w, u) })
   }"

text \<open>A 16-bit field in network byte order.\<close>

definition get_be16 :: "pmem \<Rightarrow> nat \<Rightarrow> u16" where
  "get_be16 m a = lwip_htons (le_or (rd m a 2) 0)"

definition udp_input :: "(nat \<Rightarrow> nat \<Rightarrow> nat \<Rightarrow> ip_addr_t \<Rightarrow> u16 \<Rightarrow> pmem \<times> udps \<times> 'e \<Rightarrow> (pmem \<times> udps \<times> 'e) option) \<Rightarrow>
    nat \<Rightarrow> ip_globals \<Rightarrow> netif \<Rightarrow> pmem \<times> udps \<times> 'e \<Rightarrow> (pmem \<times> udps \<times> 'e) option" where
  "udp_input recv p ip inp = (\<lambda>(m, u, e). do {
     pb \<leftarrow> pbufs m p;
     if unat (plen pb) < UDP_HLEN then do { (_, m) \<leftarrow> pbuf_free (Some p) m; Some (m, u, e) }
     else do {
       let broadcast = ip_addr_isbroadcast (current_iphdr_dest ip) (current_netif ip);
       let src = get_be16 m (payload pb);
       let dest = get_be16 m (payload pb + 2);
       (pcb, u) \<leftarrow> udp_demux ip inp broadcast src dest u;
       let for_us = (case pcb of Some _ \<Rightarrow> True
         | None \<Rightarrow> if current_is_v6 ip then netif_get_ip6_addr_match inp (ip_2_ip6 (current_iphdr_dest ip)) \<noteq> None
                   else ni_ip_addr inp = ip_2_ip4 (current_iphdr_dest ip));
       if for_us then do {
         (r, m) \<leftarrow> pbuf_remove_header (Some p) UDP_HLEN m;
         _ \<leftarrow> assert_that (r = 0);
         case pcb of
           Some a \<Rightarrow> do {
             b \<leftarrow> upcbs u a;
             if u_recv b then recv (u_recv_arg b) a p (current_iphdr_src ip) src (m, u, e)
             else do { (_, m) \<leftarrow> pbuf_free (Some p) m; Some (m, u, e) }
           }
         | None \<Rightarrow> do {
             (m, u) \<leftarrow>
               (if \<not> broadcast \<and> \<not> ip_addr_ismulticast (current_iphdr_dest ip) then do {
                  (_, m) \<leftarrow> pbuf_header_force (Some p) (current_ip_header_tot_len ip + of_nat UDP_HLEN) m;
                  Some (m, u\<lparr>icmps := icmps u @ [Icmp_port_unreach (current_is_v6 ip) p]\<rparr>)
                } else Some (m, u));
             (_, m) \<leftarrow> pbuf_free (Some p) m;
             Some (m, u, e)
           }
       } else do { (_, m) \<leftarrow> pbuf_free (Some p) m; Some (m, u, e) }
     }
   })"

section \<open>Output\<close>

definition put_be16 :: "nat \<Rightarrow> u16 \<Rightarrow> pmem \<Rightarrow> pmem" where
  "put_be16 a v m = wr a (le_bytes 2 (lwip_htons v)) m"

text \<open>Room for the header in the packet itself, or in a new buffer in front of it.\<close>

definition udp_prepend :: "mallocf \<Rightarrow> nat \<Rightarrow> pmem \<Rightarrow> (nat option \<times> pmem) option" where
  "udp_prepend malloc p m = do {
     (r, m) \<leftarrow> pbuf_add_header (Some p) UDP_HLEN m;
     if r = 0 then Some (Some p, m)
     else do {
       (q, m) \<leftarrow> pbuf_alloc malloc PBUF_IP (of_nat UDP_HLEN) PBUF_RAM m;
       case q of
         None \<Rightarrow> Some (None, m)
       | Some qa \<Rightarrow> do {
           pb \<leftarrow> pbufs m p;
           m \<leftarrow> (if tot_len pb \<noteq> 0 then pbuf_chain (Some qa) (Some p) m else Some m);
           Some (Some qa, m)
         }
     }
   }"

text \<open>Ports, length and checksum; the checksum is omitted for IPv4 pcbs that ask for it.\<close>

definition udp_fill_header :: "nat \<Rightarrow> udp_pcb \<Rightarrow> bool \<Rightarrow> u16 \<Rightarrow> ip_addr_t \<Rightarrow> u16 \<Rightarrow> ip_addr_t \<Rightarrow> pmem \<Rightarrow> pmem option" where
  "udp_fill_header q b have_chksum chksum dst_ip dst_port src_ip m = do {
     qb \<leftarrow> pbufs m q;
     _ \<leftarrow> assert_that (unat (plen qb) \<ge> UDP_HLEN);
     let h = payload qb;
     let m = put_be16 h (u_local_port b) m;
     let m = put_be16 (h + 2) dst_port m;
     let m = wr (h + 6) [0, 0] m;
     let m = put_be16 (h + 4) (tot_len qb) m;
     if IP_IS_V6 dst_ip \<or> u_flags b AND UDP_FLAGS_NOCHKSUM = 0 then do {
       ck \<leftarrow> (if have_chksum then do {
                c \<leftarrow> ip_chksum_pseudo_partial m (Some q) 17 (tot_len qb) (of_nat UDP_HLEN) src_ip dst_ip;
                let acc = (ucast c :: u32) + ucast (NOT chksum);
                Some (ucast (FOLD_U32T acc))
              } else ip_chksum_pseudo m (Some q) 17 (tot_len qb) src_ip dst_ip);
       Some (wr (h + 6) (le_bytes 2 (if ck = 0 then 0xffff else ck)) m)
     } else Some m
   }"

definition udp_sendto_if_src_chksum :: "mallocf \<Rightarrow>
    (nat \<Rightarrow> ip_addr_t \<Rightarrow> ip_addr_t \<Rightarrow> u8 \<Rightarrow> u8 \<Rightarrow> u8 \<Rightarrow> pmem \<times> udps \<times> 'e \<Rightarrow> (err_t \<times> pmem \<times> udps \<times> 'e) option) \<Rightarrow>
    nat \<Rightarrow> nat \<Rightarrow> ip_addr_t \<Rightarrow> u16 \<Rightarrow> bool \<Rightarrow> u16 \<Rightarrow> ip_addr_t \<Rightarrow> pmem \<times> udps \<times> 'e \<Rightarrow> (err_t \<times> pmem \<times> udps \<times> 'e) option" where
  "udp_sendto_if_src_chksum malloc ip_output_if_src pcb p dst_ip dst_port have_chksum chksum src_ip = (\<lambda>(m, u, e). do {
     b \<leftarrow> upcbs u pcb;
     let matches = (\<lambda>x. addr_type (u_local_ip b) = IPADDR_TYPE_ANY \<or> addr_type (u_local_ip b) = addr_type x);
     if \<not> matches src_ip \<or> \<not> matches dst_ip then Some (ERR_VAL, m, u, e)
     else do {
       (err, u) \<leftarrow> (if u_local_port b = 0 then udp_bind pcb (u_local_ip b) (u_local_port b) u else Some (ERR_OK, u));
       if err \<noteq> ERR_OK then Some (err, m, u, e)
       else do {
         b \<leftarrow> upcbs u pcb;
         pb \<leftarrow> pbufs m p;
         if tot_len pb + of_nat UDP_HLEN < tot_len pb then Some (ERR_MEM, m, u, e)
         else do {
           (q, m) \<leftarrow> udp_prepend malloc p m;
           case q of
             None \<Rightarrow> Some (ERR_MEM, m, u, e)
           | Some qa \<Rightarrow> do {
               m \<leftarrow> udp_fill_header qa b have_chksum chksum dst_ip dst_port src_ip m;
               (err, m, u, e) \<leftarrow> ip_output_if_src qa src_ip dst_ip (u_ttl b) (u_tos b) 17 (m, u, e);
               m \<leftarrow> (if qa \<noteq> p then map_option snd (pbuf_free (Some qa) m) else Some m);
               Some (err, m, u, e)
             }
         }
       }
     }
   })"

definition udp_sendto_if_src :: "mallocf \<Rightarrow>
    (nat \<Rightarrow> ip_addr_t \<Rightarrow> ip_addr_t \<Rightarrow> u8 \<Rightarrow> u8 \<Rightarrow> u8 \<Rightarrow> pmem \<times> udps \<times> 'e \<Rightarrow> (err_t \<times> pmem \<times> udps \<times> 'e) option) \<Rightarrow>
    nat \<Rightarrow> nat \<Rightarrow> ip_addr_t \<Rightarrow> u16 \<Rightarrow> ip_addr_t \<Rightarrow> pmem \<times> udps \<times> 'e \<Rightarrow> (err_t \<times> pmem \<times> udps \<times> 'e) option" where
  "udp_sendto_if_src malloc ip_output_if_src pcb p dst_ip dst_port src_ip s =
     udp_sendto_if_src_chksum malloc ip_output_if_src pcb p dst_ip dst_port False 0 src_ip s"

section \<open>Ephemeral ports\<close>

definition wf_udp :: "udps \<Rightarrow> bool" where
  "wf_udp u \<longleftrightarrow> distinct (udp_pcbs u) \<and> (\<forall>a \<in> set (udp_pcbs u). \<exists>b. upcbs u a = Some b)"

definition used_ports :: "(nat \<rightharpoonup> udp_pcb) \<Rightarrow> nat list \<Rightarrow> u16 set" where
  "used_ports t l = (\<lambda>a. u_local_port (the (t a))) ` set l"

lemma port_used_spec: "(\<And>a. a \<in> set l \<Longrightarrow> \<exists>b. t a = Some b) \<Longrightarrow> port_used t l port = Some (port \<in> used_ports t l)"
proof (induction l)
  case (Cons a l)
  then obtain b where b: "t a = Some b" by (meson list.set_intros(1))
  show ?case using Cons b by (auto simp: used_ports_def)
qed (simp add: used_ports_def)

definition eph :: "nat \<Rightarrow> u16" where
  "eph i = of_nat (0xc000 + i mod 0x4000)"

lemma unat_eph: "unat (eph i) = 0xc000 + i mod 0x4000"
  unfolding eph_def by (rule unat_of_nat_fits) (use mod_less_divisor [of "0x4000" i] in simp)

lemma eph_range: "0xc000 \<le> eph i"
  by (simp add: word_le_nat_alt unat_eph)

lemma eph_ex: "0xc000 \<le> p \<Longrightarrow> \<exists>i<0x4000. p = eph i"
proof -
  assume "0xc000 \<le> p"
  then have "0xc000 \<le> unat p" by (simp add: word_le_nat_alt)
  moreover have "unat p < 0x10000" using unsigned_less [of p, where ?'a = nat] by simp
  ultimately have "unat p - 0xc000 < 0x4000" "unat p = unat (eph (unat p - 0xc000))" by (simp_all add: unat_eph)
  then show ?thesis by (metis word_unat_eq_iff)
qed

lemma eph_inj: "eph i = eph j \<longleftrightarrow> i mod 0x4000 = j mod 0x4000"
  by (simp add: word_unat_eq_iff unat_eph)

lemma next_eph: "next_port (eph i) = eph (Suc i)"
proof (cases "i mod 0x4000 = 0x3fff")
  case True
  then have "eph i = 0xffff" by (simp add: eph_def)
  moreover have "Suc i mod 0x4000 = 0" using True by (simp add: mod_Suc)
  ultimately show ?thesis by (simp add: next_port_def UDP_LOCAL_PORT_RANGE_END_def UDP_LOCAL_PORT_RANGE_START_def eph_def)
next
  case False
  then have s: "Suc i mod 0x4000 = Suc (i mod 0x4000)" by (simp add: mod_Suc)
  have "eph i \<noteq> 0xffff" using False unat_eph [of i] by (auto simp: word_unat_eq_iff)
  then show ?thesis by (simp add: next_port_def UDP_LOCAL_PORT_RANGE_END_def eph_def s algebra_simps)
qed

lemma new_port_again_spec:
  assumes "\<And>a. a \<in> set l \<Longrightarrow> \<exists>b. t a = Some b" "k \<le> 0x3fff"
  shows "\<exists>r p. new_port_again t l (of_nat k) (eph i) = Some (r, p) \<and> 0xc000 \<le> p \<and>
    (r = p \<and> r \<notin> used_ports t l \<or> r = 0 \<and> (\<forall>j. 1 \<le> j \<longrightarrow> j \<le> 0x4000 - k \<longrightarrow> eph (i + j) \<in> used_ports t l))"
  using assms(2)
proof (induction "0x3fff - k" arbitrary: k i)
  case 0
  then have k: "k = 0x3fff" by simp
  show ?case
    by (subst new_port_again.simps)
      (auto simp: k next_eph port_used_spec [OF assms(1)] eph_range UDP_LOCAL_PORT_RANGE_END_def UDP_LOCAL_PORT_RANGE_START_def
        le_Suc_eq Let_def)
next
  case (Suc d)
  then have k: "Suc k \<le> 0x3fff" "d = 0x3fff - Suc k" by simp_all
  have lt: "\<not> of_nat k + 1 > (0x3fff :: u16)"
  proof -
    have "unat (of_nat k + 1 :: u16) = Suc k" using k(1) unat_of_nat_fits [of "Suc k"] by (simp add: add.commute)
    moreover have "unat (0x3fff :: u16) = 0x3fff" by simp
    ultimately show ?thesis using k(1) unfolding word_less_nat_alt by linarith
  qed
  show ?case
  proof (cases "eph (Suc i) \<in> used_ports t l")
    case True
    obtain r p where rp: "new_port_again t l (of_nat (Suc k)) (eph (Suc i)) = Some (r, p)" "0xc000 \<le> p"
      "r = p \<and> r \<notin> used_ports t l \<or> r = 0 \<and> (\<forall>j. 1 \<le> j \<longrightarrow> j \<le> 0x4000 - Suc k \<longrightarrow> eph (Suc i + j) \<in> used_ports t l)"
      using Suc.hyps(1) [OF k(2) k(1)] by blast
    have "eph (i + j) \<in> used_ports t l"
      if all: "\<forall>j. 1 \<le> j \<longrightarrow> j \<le> 0x4000 - Suc k \<longrightarrow> eph (Suc i + j) \<in> used_ports t l" and j: "1 \<le> j" "j \<le> 0x4000 - k" for j
    proof (cases "j = 1")
      case False
      then have "1 \<le> j - 1" "j - 1 \<le> 0x4000 - Suc k" using j by auto
      then have "eph (Suc i + (j - 1)) \<in> used_ports t l" using all by blast
      then show ?thesis using j by simp
    qed (use True in simp)
    moreover have "new_port_again t l (of_nat k) (eph i) = Some (r, p)"
      using rp(1) lt True
      by (subst new_port_again.simps)
        (simp add: next_eph port_used_spec [OF assms(1)] UDP_LOCAL_PORT_RANGE_END_def UDP_LOCAL_PORT_RANGE_START_def add.commute)
    ultimately show ?thesis using rp(2,3) by auto
  next
    case False
    then show ?thesis
      by (subst new_port_again.simps) (simp add: next_eph port_used_spec [OF assms(1)] eph_range Let_def)
  qed
qed

lemma mod_add_cong_cancel: "(i + x) mod n = (i + y) mod n \<Longrightarrow> x mod n = y mod (n::nat)"
  unfolding nat_mod_eq_iff by (metis add.assoc add_left_cancel)

lemma new_port_spec:
  assumes "wf_udp u" "0xc000 \<le> udp_port u" "length (udp_pcbs u) < 0x4000"
  shows "\<exists>r. udp_new_port u = Some (r, u\<lparr>udp_port := r\<rparr>) \<and> 0xc000 \<le> r \<and> r \<notin> used_ports (upcbs u) (udp_pcbs u)"
proof -
  let ?U = "used_ports (upcbs u) (udp_pcbs u)"
  obtain i where i: "udp_port u = eph i" using eph_ex [OF assms(2)] by blast
  obtain r p where rp: "new_port_again (upcbs u) (udp_pcbs u) 0 (eph i) = Some (r, p)" "0xc000 \<le> p"
    "r = p \<and> r \<notin> ?U \<or> r = 0 \<and> (\<forall>j. 1 \<le> j \<longrightarrow> j \<le> 0x4000 \<longrightarrow> eph (i + j) \<in> ?U)"
    using new_port_again_spec [of "udp_pcbs u" "upcbs u" 0 i] assms(1) unfolding wf_udp_def by auto
  have False if all: "\<forall>j. 1 \<le> j \<longrightarrow> j \<le> 0x4000 \<longrightarrow> eph (i + j) \<in> ?U"
  proof -
    have "(\<lambda>j. eph (i + j)) ` {1..0x4000} \<subseteq> ?U" using all by auto
    moreover have "inj_on (\<lambda>j. eph (i + j)) {1..0x4000}"
    proof (rule inj_onI)
      fix x y :: nat assume xy: "x \<in> {1..0x4000}" "y \<in> {1..0x4000}" "eph (i + x) = eph (i + y)"
      then have "(i + x) mod 0x4000 = (i + y) mod 0x4000" by (simp add: eph_inj)
      then have "x mod 0x4000 = y mod 0x4000" by (metis mod_add_cong_cancel)
      then show "x = y" using xy(1,2) by (auto simp: le_less)
    qed
    moreover have "finite ?U" "card ?U \<le> length (udp_pcbs u)"
      unfolding used_ports_def using card_image_le [OF finite_set] card_length le_trans by blast+
    ultimately have "card {1..0x4000::nat} \<le> length (udp_pcbs u)" by (metis card_image card_mono le_trans)
    then show False using assms(3) by simp
  qed
  then have "r = p" "r \<notin> ?U" using rp(3) by auto
  then show ?thesis using rp(1,2) by (auto simp: udp_new_port_def i)
qed

section \<open>Binding\<close>

text \<open>No two pcbs of the list claim one port for overlapping addresses.\<close>

definition exclusive :: "udps \<Rightarrow> bool" where
  "exclusive u \<longleftrightarrow> (\<forall>a \<in> set (udp_pcbs u). \<forall>b \<in> set (udp_pcbs u). a \<noteq> b \<longrightarrow>
     \<not> binding_clash (the (upcbs u a)) (u_local_ip (the (upcbs u b))) (u_local_port (the (upcbs u b))))"

lemma ip_addr_set_same [simp]:
  "addr_type (ip_addr_set x) = addr_type x" "ip_addr_isany (ip_addr_set x) = ip_addr_isany x"
  "ip_addr_eq y (ip_addr_set x) = ip_addr_eq y x" "ip_addr_eq (ip_addr_set x) y = ip_addr_eq x y"
  by (auto simp: ip_addr_set_def ip_addr_isany_def ip_addr_eq_def ip_2_ip4_def ip_2_ip6_def)

lemma ip_addr_eq_sym: "ip_addr_eq x y = ip_addr_eq y x"
  by (auto simp: ip_addr_eq_def)

lemma binding_clash_sym:
  "binding_clash b (ip_addr_set ip) port = binding_clash b ip port"
  "u_local_ip b' = ip_addr_set ip \<Longrightarrow> u_local_port b' = port \<Longrightarrow>
    binding_clash b' (u_local_ip b) (u_local_port b) = binding_clash b ip port"
  using ip_addr_eq_sym by (auto simp: binding_clash_def)

lemma clash_scan_spec:
  "(\<And>a. a \<in> set l \<Longrightarrow> \<exists>b. t a = Some b) \<Longrightarrow>
   clash_scan t l pcb ip port = Some (\<exists>a \<in> set l. a \<noteq> pcb \<and> binding_clash (the (t a)) ip port)"
proof (induction l)
  case (Cons a l)
  then obtain b where b: "t a = Some b" by (meson list.set_intros(1))
  show ?case using Cons b by auto
qed simp

lemma bound_exclusive:
  assumes "exclusive u" "upcbs u pcb = Some b" "u_local_ip b' = ip_addr_set ip" "u_local_port b' = port"
    "\<And>a. a \<in> set (udp_pcbs u) \<Longrightarrow> a \<noteq> pcb \<Longrightarrow> \<not> binding_clash (the (upcbs u a)) ip port"
    "upcbs u' = (upcbs u)(pcb \<mapsto> b')" "set (udp_pcbs u') = insert pcb (set (udp_pcbs u))"
  shows "exclusive u'"
  unfolding exclusive_def
proof (intro ballI impI)
  fix x y assume xy: "x \<in> set (udp_pcbs u')" "y \<in> set (udp_pcbs u')" "x \<noteq> y"
  consider "x = pcb" "y \<noteq> pcb" | "y = pcb" "x \<noteq> pcb" | "x \<noteq> pcb" "y \<noteq> pcb" using xy(3) by blast
  then show "\<not> binding_clash (the (upcbs u' x)) (u_local_ip (the (upcbs u' y))) (u_local_port (the (upcbs u' y)))"
  proof cases
    case 1
    then show ?thesis using xy assms(5) [of y] binding_clash_sym(2) [OF assms(3,4)] by (simp add: assms(6,7))
  next
    case 2
    then show ?thesis using xy assms(5) [of x] by (simp add: assms(3,4,6,7) binding_clash_sym(1))
  next
    case 3
    then show ?thesis using xy assms(1) by (simp add: assms(6,7) exclusive_def)
  qed
qed

lemma upd_upcb_simps [simp]:
  "upcbs (upd_upcb a f u) = (upcbs u)(a := map_option f (upcbs u a))" "udp_pcbs (upd_upcb a f u) = udp_pcbs u"
  "udp_port (upd_upcb a f u) = udp_port u" "icmps (upd_upcb a f u) = icmps u"
  by (simp_all add: upd_upcb_def)

text \<open>The state once a pcb is bound.\<close>

definition bound :: "nat \<Rightarrow> ip_addr_t \<Rightarrow> u16 \<Rightarrow> udps \<Rightarrow> udps" where
  "bound pcb ip r u = (let v = upd_upcb pcb (\<lambda>b. b\<lparr>u_local_ip := ip_addr_set ip, u_local_port := r\<rparr>) u
     in if pcb \<in> set (udp_pcbs u) then v else v\<lparr>udp_pcbs := pcb # udp_pcbs v\<rparr>)"

lemma bound_good:
  assumes "wf_udp u" "exclusive u" "upcbs u pcb = Some b"
    "\<And>a. a \<in> set (udp_pcbs u) \<Longrightarrow> a \<noteq> pcb \<Longrightarrow> \<not> binding_clash (the (upcbs u a)) ip r"
  shows "wf_udp (bound pcb ip r (u\<lparr>udp_port := q\<rparr>)) \<and> exclusive (bound pcb ip r (u\<lparr>udp_port := q\<rparr>)) \<and>
    set (udp_pcbs (bound pcb ip r (u\<lparr>udp_port := q\<rparr>))) = insert pcb (set (udp_pcbs u)) \<and>
    (\<exists>b'. upcbs (bound pcb ip r (u\<lparr>udp_port := q\<rparr>)) = (upcbs u)(pcb \<mapsto> b') \<and> u_local_ip b' = ip_addr_set ip \<and> u_local_port b' = r)"
proof -
  let ?v = "bound pcb ip r (u\<lparr>udp_port := q\<rparr>)" and ?b = "b\<lparr>u_local_ip := ip_addr_set ip, u_local_port := r\<rparr>"
  have v: "set (udp_pcbs ?v) = insert pcb (set (udp_pcbs u))" "upcbs ?v = (upcbs u)(pcb \<mapsto> ?b)" "distinct (udp_pcbs ?v)"
    using assms(1,3) by (auto simp: bound_def Let_def wf_udp_def)
  have "exclusive ?v" by (rule bound_exclusive [OF assms(2,3) _ _ assms(4) v(2,1)]) simp_all
  moreover have "wf_udp ?v" unfolding wf_udp_def using v assms(1) by (auto simp: wf_udp_def)
  moreover have "u_local_ip ?b = ip_addr_set ip" "u_local_port ?b = r" by simp_all
  ultimately show ?thesis using v(1,2) by blast
qed

text \<open>
  C21. Ephemeral ports: as long as fewer than 16384 pcbs exist (the pool has 64) the search for a free local port ends, finds one
  in the range 0xc000 to 0xffff that no pcb uses, and remembers it as the starting point of the next search.\<close>

theorem udp_new_port_live:
  assumes "wf_udp u" "0xc000 \<le> udp_port u" "length (udp_pcbs u) < 0x4000"
  shows "\<exists>r. udp_new_port u = Some (r, u\<lparr>udp_port := r\<rparr>) \<and> 0xc000 \<le> r \<and>
    (\<forall>a \<in> set (udp_pcbs u). u_local_port (the (upcbs u a)) \<noteq> r)"
  using new_port_spec [OF assms] unfolding used_ports_def by auto

definition sample_upcb :: "u8 \<Rightarrow> u16 \<Rightarrow> udp_pcb" where
  "sample_upcb ty port = \<lparr>u_local_ip = \<lparr>u_addr = [0, 0, 0, 0], addr_type = ty\<rparr>, u_remote_ip = \<lparr>u_addr = [0, 0, 0, 0], addr_type = ty\<rparr>,
     u_netif_idx = 0, u_so_options = 0, u_tos = 0, u_ttl = 255, u_flags = 0, u_local_port = port, u_remote_port = 0, u_recv = True,
     u_recv_arg = 0\<rparr>"

definition sample_udp :: udps where
  "sample_udp = \<lparr>upcbs = [0x40 \<mapsto> sample_upcb 0 0, 0x80 \<mapsto> sample_upcb 6 0xc000, 0xc0 \<mapsto> sample_upcb 0 0], udp_pcbs = [0x40, 0x80],
     udp_port = 0xffff, icmps = []\<rparr>"

lemma sample_udp_wf: "wf_udp sample_udp" "0xc000 \<le> udp_port sample_udp" "length (udp_pcbs sample_udp) < 0x4000" "exclusive sample_udp"
  by (auto simp: wf_udp_def sample_udp_def exclusive_def binding_clash_def sample_upcb_def)

theorem udp_new_port_live_witness:
  "\<exists>r. udp_new_port sample_udp = Some (r, sample_udp\<lparr>udp_port := r\<rparr>) \<and> 0xc000 \<le> r \<and> r \<noteq> 0xc000"
  using udp_new_port_live [OF sample_udp_wf(1-3)] by (auto simp: sample_udp_def sample_upcb_def)



section \<open>Delivery\<close>

lemma better_uncon_total:
  assumes "\<And>b. uncon = Some b \<Longrightarrow> t b \<noteq> None"
  shows "\<exists>uc. better_uncon t ip inp bc a pcb uncon = Some uc \<and> (uc = uncon \<or> uc = Some a)"
proof (cases uncon)
  case (Some b)
  then obtain ub where "t b = Some ub" using assms by blast
  then show ?thesis using Some by (simp add: better_uncon_def)
qed (simp add: better_uncon_def)

lemma udp_scan_spec:
  assumes "\<And>a. a \<in> set l \<Longrightarrow> \<exists>b. t a = Some b" "\<And>b. uncon = Some b \<Longrightarrow> t b \<noteq> None"
  shows "\<exists>full unc. udp_scan t ip inp bc src dest uncon l = Some (full, unc) \<and> (\<forall>a. full = Some a \<longrightarrow> a \<in> set l \<and> u_local_port (the (t a)) = dest) \<and>
    (\<forall>a. unc = Some a \<longrightarrow> uncon = Some a \<or> a \<in> set l \<and> u_local_port (the (t a)) = dest)"
  using assms
proof (induction l arbitrary: uncon)
  case (Cons a l)
  obtain b where b: "t a = Some b" using Cons.prems(1) by (meson list.set_intros(1))
  have rest: "\<exists>full unc. udp_scan t ip inp bc src dest uc l = Some (full, unc) \<and> (\<forall>a. full = Some a \<longrightarrow> a \<in> set l \<and> u_local_port (the (t a)) = dest) \<and>
      (\<forall>a. unc = Some a \<longrightarrow> uc = Some a \<or> a \<in> set l \<and> u_local_port (the (t a)) = dest)"
    if "\<And>b. uc = Some b \<Longrightarrow> t b \<noteq> None" for uc
    using Cons.IH [of uc] Cons.prems(1) that by (meson list.set_intros(2))
  show ?case
  proof (cases "u_local_port b = dest \<and> udp_input_local_match b ip inp bc")
    case True
    obtain uc where uc: "(if u_flags b AND UDP_FLAGS_CONNECTED = 0 then better_uncon t ip inp bc a b uncon else Some uncon) = Some uc"
      "uc = uncon \<or> uc = Some a"
      using better_uncon_total [of uncon t ip inp bc a b] Cons.prems(2) by (cases "u_flags b AND UDP_FLAGS_CONNECTED = 0") (force, simp)
    have ok: "\<And>b. uc = Some b \<Longrightarrow> t b \<noteq> None" using uc(2) Cons.prems(2) b by auto
    obtain full unc where "udp_scan t ip inp bc src dest uc l = Some (full, unc)"
      "\<forall>a. full = Some a \<longrightarrow> a \<in> set l \<and> u_local_port (the (t a)) = dest"
      "\<forall>a. unc = Some a \<longrightarrow> uc = Some a \<or> a \<in> set l \<and> u_local_port (the (t a)) = dest" using rest [of uc] ok by blast
    then show ?thesis using True uc by (auto simp: b)
  next
    case False
    moreover obtain full unc where "udp_scan t ip inp bc src dest uncon l = Some (full, unc)"
      "\<forall>a. full = Some a \<longrightarrow> a \<in> set l \<and> u_local_port (the (t a)) = dest"
      "\<forall>a. unc = Some a \<longrightarrow> uncon = Some a \<or> a \<in> set l \<and> u_local_port (the (t a)) = dest"
      using rest [of uncon] Cons.prems(2) by blast
    ultimately show ?thesis by (auto simp: b)
  qed
qed simp

lemma wildcard_scan_spec:
  assumes "\<And>a. a \<in> set l \<Longrightarrow> \<exists>b. t a = Some b"
  shows "\<exists>r. wildcard_scan t ip l = Some r \<and>
    (\<forall>a. r = Some a \<longrightarrow> a \<in> set l \<and> u_local_port (the (t a)) = 0 \<and> addr_type (u_local_ip (the (t a))) = addr_type (current_iphdr_dest ip)) \<and>
    (r = None \<longrightarrow> (\<forall>a \<in> set l. u_local_port (the (t a)) \<noteq> 0 \<or> addr_type (u_local_ip (the (t a))) \<noteq> addr_type (current_iphdr_dest ip)))"
  using assms
proof (induction l)
  case (Cons a l)
  obtain b where b: "t a = Some b" using Cons.prems by (meson list.set_intros(1))
  obtain r where "wildcard_scan t ip l = Some r"
    "\<forall>a. r = Some a \<longrightarrow> a \<in> set l \<and> u_local_port (the (t a)) = 0 \<and> addr_type (u_local_ip (the (t a))) = addr_type (current_iphdr_dest ip)"
    "r = None \<longrightarrow> (\<forall>a \<in> set l. u_local_port (the (t a)) \<noteq> 0 \<or> addr_type (u_local_ip (the (t a))) \<noteq> addr_type (current_iphdr_dest ip))"
    using Cons.IH Cons.prems by (meson list.set_intros(2))
  then show ?case using b by auto
qed simp

lemma udp_demux_spec:
  assumes "wf_udp u" "w \<in> set (udp_pcbs u)" "u_local_port (the (upcbs u w)) = 0"
    "addr_type (u_local_ip (the (upcbs u w))) = addr_type (current_iphdr_dest ip)"
  shows "\<exists>a u'. udp_demux ip inp bc src dest u = Some (Some a, u') \<and> a \<in> set (udp_pcbs u) \<and>
    set (udp_pcbs u') = set (udp_pcbs u) \<and> upcbs u' = upcbs u \<and>
    (u_local_port (the (upcbs u a)) = dest \<or>
     u_local_port (the (upcbs u a)) = 0 \<and> addr_type (u_local_ip (the (upcbs u a))) = addr_type (current_iphdr_dest ip))"
proof -
  have wf: "\<And>a. a \<in> set (udp_pcbs u) \<Longrightarrow> \<exists>b. upcbs u a = Some b" using assms(1) by (simp add: wf_udp_def)
  obtain full unc where s: "udp_scan (upcbs u) ip inp bc src dest None (udp_pcbs u) = Some (full, unc)"
    "\<forall>a. full = Some a \<longrightarrow> a \<in> set (udp_pcbs u) \<and> u_local_port (the (upcbs u a)) = dest"
    "\<forall>a. unc = Some a \<longrightarrow> a \<in> set (udp_pcbs u) \<and> u_local_port (the (upcbs u a)) = dest"
    using udp_scan_spec [where uncon = None and t = "upcbs u" and l = "udp_pcbs u" and ip = ip and inp = inp and bc = bc and src = src and
        dest = dest] wf by auto
  obtain r where r: "wildcard_scan (upcbs u) ip (udp_pcbs u) = Some r"
    "\<forall>a. r = Some a \<longrightarrow> a \<in> set (udp_pcbs u) \<and> u_local_port (the (upcbs u a)) = 0 \<and>
       addr_type (u_local_ip (the (upcbs u a))) = addr_type (current_iphdr_dest ip)" "r \<noteq> None"
    using wildcard_scan_spec [where t = "upcbs u" and l = "udp_pcbs u" and ip = ip] wf assms(2-4) by blast
  show ?thesis
  proof (cases full)
    case (Some a)
    then have "a \<in> set (udp_pcbs u)" using s(2) by blast
    then have "set (a # remove1 a (udp_pcbs u)) = set (udp_pcbs u)" using assms(1) by (auto simp: wf_udp_def)
    then show ?thesis using Some s by (auto simp: udp_demux_def)
  next
    case None
    then show ?thesis using s r by (cases unc) (auto simp: udp_demux_def)
  qed
qed

text \<open>A 16-bit big-endian value.\<close>

definition be16 :: "u8 \<Rightarrow> u8 \<Rightarrow> u16" where
  "be16 hi lo = word_of_int (256 * uint hi + uint lo)"

lemma get_be16_eq: "get_be16 m a = be16 (bytes m a) (bytes m (a + 1))"
proof -
  have r: "rd m a 2 = [bytes m a, bytes m (a + 1)]" by (simp add: rd_def upt_rec)
  have v: "uint (le_or (rd m a 2) 0 :: u16) = uint (bytes m a) + 256 * uint (bytes m (a + 1))"
    unfolding r using uint_le_or [of 0 "[bytes m a, bytes m (a + 1)]", where ?'a = 16] by (simp del: le_or.simps)
  have "le_bytes 2 (le_or (rd m a 2) 0 :: u16) = rd m a 2"
  proof (rule le_val_inject)
    show "le_val (le_bytes 2 (le_or (rd m a 2) 0 :: u16)) = le_val (rd m a 2)" using v by (simp add: le_val_le_bytes_all r del: le_or.simps)
  qed simp
  then have "uint (get_be16 m a) = uint (bytes m (a + 1)) + 256 * uint (bytes m a)"
    by (simp add: get_be16_def uint_htons r)
  then have "word_of_int (uint (get_be16 m a)) = be16 (bytes m a) (bytes m (a + 1))"
    by (simp only: be16_def add.commute)
  then show ?thesis by (simp only: word_of_int_uint)
qed

text \<open>With the wildcard pcb installed the callback of some matching pcb gets the packet without its 8 header bytes.\<close>

lemma udp_input_raw:
  assumes "wf_udp u" "w \<in> set (udp_pcbs u)" "u_local_port (the (upcbs u w)) = 0"
    "addr_type (u_local_ip (the (upcbs u w))) = addr_type (current_iphdr_dest ip)" "\<forall>a \<in> set (udp_pcbs u). u_recv (the (upcbs u a))"
    "pbufs m p = Some pb" "8 \<le> unat (plen pb)" "pbuf_remove_header (Some p) 8 m = Some (0, m')"
  shows "\<exists>a u'. udp_input recv p ip inp (m, u, e) =
      recv (u_recv_arg (the (upcbs u a))) a p (current_iphdr_src ip) (get_be16 m (payload pb)) (m', u', e) \<and>
    a \<in> set (udp_pcbs u) \<and> set (udp_pcbs u') = set (udp_pcbs u) \<and> upcbs u' = upcbs u \<and>
    (u_local_port (the (upcbs u a)) = get_be16 m (payload pb + 2) \<or>
     u_local_port (the (upcbs u a)) = 0 \<and> addr_type (u_local_ip (the (upcbs u a))) = addr_type (current_iphdr_dest ip))"
proof -
  let ?bc = "ip_addr_isbroadcast (current_iphdr_dest ip) (current_netif ip)"
  let ?src = "get_be16 m (payload pb)" and ?dest = "get_be16 m (payload pb + 2)"
  obtain a u' where d: "udp_demux ip inp ?bc ?src ?dest u = Some (Some a, u')" "a \<in> set (udp_pcbs u)"
    "set (udp_pcbs u') = set (udp_pcbs u)" "upcbs u' = upcbs u"
    "u_local_port (the (upcbs u a)) = ?dest \<or>
     u_local_port (the (upcbs u a)) = 0 \<and> addr_type (u_local_ip (the (upcbs u a))) = addr_type (current_iphdr_dest ip)"
    using udp_demux_spec [OF assms(1-4)] by blast
  obtain b where b: "upcbs u a = Some b" using assms(1) d(2) by (auto simp: wf_udp_def)
  have "u_recv b" using assms(5) d(2) b by fastforce
  then have "udp_input recv p ip inp (m, u, e) = recv (u_recv_arg b) a p (current_iphdr_src ip) ?src (m', u', e)"
    using assms(7) by (simp add: udp_input_def assms(6,8) UDP_HLEN_def d(1,4) assert_that_def b not_less Let_def
        del: add_2_eq_Suc add_2_eq_Suc')
  then show ?thesis using d(2-5) b by (intro exI [of _ a] exI [of _ u']) simp
qed

text \<open>
  C12. UDP delivery: with the program's wildcard pcb (port 0) of the packet's IP version in the list, every datagram whose first
  buffer holds a full UDP header is handed to a receive callback, with the source address of the packet, the source port of
  the header and the buffer chain stripped of exactly the 8 header bytes; the callback belongs to a pcb bound to the
  destination port if there is a matching one, and otherwise to a wildcard pcb of the same IP version. No pcb is lost. A
  shorter first buffer is dropped and released.\<close>

theorem udp_input_delivers:
  assumes "packet m (Some p) as" "wf_udp u" "w \<in> set (udp_pcbs u)" "u_local_port (the (upcbs u w)) = 0"
    "addr_type (u_local_ip (the (upcbs u w))) = addr_type (current_iphdr_dest ip)"
    "\<forall>a \<in> set (udp_pcbs u). u_recv (the (upcbs u a))"
  shows "(8 \<le> seg_len m p \<longrightarrow> (\<exists>a m' u'. udp_input recv p ip inp (m, u, e) =
      recv (u_recv_arg (the (upcbs u a))) a p (current_iphdr_src ip) (be16 (contents m as ! 0) (contents m as ! 1)) (m', u', e) \<and>
      a \<in> set (udp_pcbs u) \<and> set (udp_pcbs u') = set (udp_pcbs u) \<and> upcbs u' = upcbs u \<and>
      (u_local_port (the (upcbs u a)) = be16 (contents m as ! 2) (contents m as ! 3) \<or>
       u_local_port (the (upcbs u a)) = 0 \<and> addr_type (u_local_ip (the (upcbs u a))) = addr_type (current_iphdr_dest ip)) \<and>
      packet m' (Some p) as \<and> contents m' as = drop 8 (contents m as))) \<and>
    (seg_len m p < 8 \<longrightarrow> udp_input recv p ip inp (m, u, e) = map_option (\<lambda>(_, m'). (m', u, e)) (pbuf_free (Some p) m))"
proof -
  obtain bs where as: "as = p # bs" using assms(1) by (cases as) (auto simp: packet_def split: option.splits)
  obtain pb :: pbuf where pb: "Some p = Some p" "pbufs m p = Some pb" "packet m (pnext pb) bs"
    "unat (tot_len pb) = unat (plen pb) + lens m bs" "seg m p = rd m (payload pb) (unat (plen pb))" "seg_len m p = unat (plen pb)"
    using assms(1) unfolding as by (rule packet_ConsE)
  have del: "\<exists>a m' u'. udp_input recv p ip inp (m, u, e) =
      recv (u_recv_arg (the (upcbs u a))) a p (current_iphdr_src ip) (be16 (contents m as ! 0) (contents m as ! 1)) (m', u', e) \<and>
      a \<in> set (udp_pcbs u) \<and> set (udp_pcbs u') = set (udp_pcbs u) \<and> upcbs u' = upcbs u \<and>
      (u_local_port (the (upcbs u a)) = be16 (contents m as ! 2) (contents m as ! 3) \<or>
       u_local_port (the (upcbs u a)) = 0 \<and> addr_type (u_local_ip (the (upcbs u a))) = addr_type (current_iphdr_dest ip)) \<and>
      packet m' (Some p) as \<and> contents m' as = drop 8 (contents m as)" if 8: "8 \<le> seg_len m p"
  proof -
    obtain m' where m': "pbuf_remove_header (Some p) 8 m = Some (0, m')" "packet m' (Some p) as" "contents m' as = drop 8 (contents m as)"
      using remove_header_spec [of m p bs 8] assms(1) 8 unfolding as by blast
    have c: "contents m as ! k = bytes m (payload pb + k)" if "k < 8" for k
      using 8 that by (simp add: as nth_append pb(5,6) nth_rd)
    have "get_be16 m (payload pb) = be16 (contents m as ! 0) (contents m as ! 1)"
      "get_be16 m (payload pb + 2) = be16 (contents m as ! 2) (contents m as ! 3)"
      using c [of 0] c [of 1] c [of 2] c [of 3] by (simp_all add: get_be16_eq numeral_3_eq_3)
    then show ?thesis using udp_input_raw [OF assms(2-6) pb(2) _ m'(1), of recv inp e] 8 m'(2,3) by (metis pb(6))
  qed
  have short: "udp_input recv p ip inp (m, u, e) = map_option (\<lambda>(_, m'). (m', u, e)) (pbuf_free (Some p) m)" if "seg_len m p < 8"
    using that by (cases "pbuf_free (Some p) m") (auto simp: udp_input_def pb(2,6) UDP_HLEN_def)
  show ?thesis using del short by blast
qed

definition sample_ip :: ip_globals where
  "sample_ip = (let n = \<lparr>ni_ip_addr = 0, ni_netmask = 0, ni_ip6_addr = [], ni_ip6_addr_state = [], ni_flags = 1, ni_num = 0, ni_gw = 0, ni_mtu = 1500, ni_driver = True, ni_rs_count = 0\<rparr>
     in \<lparr>current_netif = n, current_input_netif = n, current_is_v6 = False, current_ip_header_tot_len = 20,
         current_iphdr_src = \<lparr>u_addr = [9, 0, 0, 0], addr_type = 0\<rparr>, current_iphdr_dest = \<lparr>u_addr = [8, 0, 0, 0], addr_type = 0\<rparr>\<rparr>)"

definition sample_dgram :: pmem where
  "sample_dgram = sample_mem\<lparr>pbufs := [0x1000 \<mapsto> \<lparr>pnext = None, payload = 0x1100, tot_len = 10, plen = 10, type_internal = 0x41, pflags = 0,
     pref = 1, if_idx = 0\<rparr>]\<rparr>"

lemma sample_dgram_facts:
  "packet sample_dgram (Some 0x1000) [0x1000]" "seg_len sample_dgram 0x1000 = 10"
  "contents sample_dgram [0x1000] = [0, 1, 2, 3, 4, 5, 6, 7, 8, 9]"
  by (simp_all add: packet_def sample_dgram_def sample_mem_def seg_len_def seg_def rd_def upt_rec)

theorem udp_input_delivers_witness:
  "\<exists>a m' u'. udp_input (\<lambda>arg pcb p addr port (m, u, e). Some (m, u, e @ [(pcb, addr, port)])) 0x1000 sample_ip (current_netif sample_ip)
     (sample_dgram, sample_udp, []) = Some (m', u', [(a, \<lparr>u_addr = [9, 0, 0, 0], addr_type = 0\<rparr>, 1)]) \<and>
     contents m' [0x1000] = [8, 9]"
proof -
  have h: "0x40 \<in> set (udp_pcbs sample_udp)" "u_local_port (the (upcbs sample_udp 0x40)) = 0"
    "addr_type (u_local_ip (the (upcbs sample_udp 0x40))) = addr_type (current_iphdr_dest sample_ip)"
    "\<forall>a \<in> set (udp_pcbs sample_udp). u_recv (the (upcbs sample_udp a))"
    by (simp_all add: sample_udp_def sample_upcb_def sample_ip_def Let_def)
  have "be16 0 1 = 1" by (simp add: be16_def)
  then show ?thesis
    using udp_input_delivers [OF sample_dgram_facts(1) sample_udp_wf(1) h, of "\<lambda>arg pcb p addr port (m, u, e). Some (m, u, e @ [(pcb, addr, port)])"
        "current_netif sample_ip" "[]"]
    unfolding sample_dgram_facts by (auto simp: sample_ip_def Let_def)
qed

end
