(* ===== verification/Udp_Out.thy ===== *)
theory Udp_Out
  imports Udp_Pcb
begin

text \<open>
  What \<^verbatim>\<open>udp_sendto_if_src\<close> puts on the wire: the eight header bytes in front of the payload, with a checksum that the receiver's
  computation over pseudo header, header and payload accepts.
\<close>

section \<open>Writing into a payload\<close>

lemma rd_wr:
  assumes "x \<le> a" "a + length bs \<le> x + n"
  shows "rd (wr a bs m) x n = blit (rd m x n) (a - x) bs"
proof (rule nth_equalityI)
  show "length (rd (wr a bs m) x n) = length (blit (rd m x n) (a - x) bs)" using assms by simp
  fix i assume "i < length (rd (wr a bs m) x n)"
  then have i: "i < n" by simp
  consider "x + i < a" | "a \<le> x + i" "x + i < a + length bs" | "a + length bs \<le> x + i" by linarith
  then show "rd (wr a bs m) x n ! i = blit (rd m x n) (a - x) bs ! i"
    using assms i by cases (auto simp: rd_def wr_def blit_def nth_append add.commute)
qed

lemma wr_frame [simp]: "pbufs (wr a bs m) = pbufs m" "heap (wr a bs m) = heap m" "tabs (wr a bs m) = tabs m"
  by (simp_all add: wr_def)

lemma single_packet:
  assumes "pbufs m p = Some pb" "pnext pb = None" "tot_len pb = plen pb"
  shows "packet m (Some p) [p]" "contents m [p] = rd m (payload pb) (unat (plen pb))" "lens m [p] = unat (plen pb)"
  using assms by (simp_all add: packet_def seg_def seg_len_def)

section \<open>Storing a checksum\<close>

lemma stored_chksum_verifies:
  assumes "even (length xs)"
  shows "chksum_of (wsum (xs @ le_bytes 2 (let c = chksum_of (wsum (xs @ [0, 0] @ ys)) in if c = 0 then 0xffff else c) @ ys)) = 0"
proof -
  define s where "s = wsum xs + wsum ys"
  define ck :: u16 where "ck = (let c = chksum_of (wsum (xs @ [0, 0] @ ys)) in if c = 0 then 0xffff else c)"
  have s0: "0 \<le> s" by (simp add: s_def)
  have f: "0 \<le> fold16 s" "fold16 s \<le> 65535" "(s - fold16 s) mod 65535 = 0"
    using fold16_range fold16_mod [of s] by (simp_all add: mod_eq_dvd_iff dvd_diff_commute flip: mod_eq_0_iff_dvd) (metis mod_eq_dvd_iff mod_eq_0_iff_dvd fold16_mod)
  have "wsum (xs @ [0, 0] @ ys) = s" using assms by (simp add: wsum_append_even s_def)
  moreover have "uint (chksum_of s) = 65535 - fold16 s" unfolding chksum_of_def
    using f by (intro word_of_int_inverse [OF refl]) simp_all
  ultimately have c: "ck = (if chksum_of s = 0 then 0xffff else chksum_of s)" "uint (chksum_of s) = 65535 - fold16 s"
    by (simp_all only: ck_def Let_def)
  have ck: "0 < uint ck \<and> uint ck mod 65535 = (65535 - fold16 s) mod 65535"
  proof (cases "chksum_of s = 0")
    case True
    then have "65535 - fold16 s = 0" using c(2) by simp
    moreover have "ck = 0xffff" using c(1) by (rule trans) (simp add: True)
    ultimately show ?thesis by simp
  next
    case False
    then have "ck = chksum_of s" using c(1) by (simp only: if_False)
    moreover have "uint (chksum_of s) \<noteq> 0" using False by (simp add: unsigned_eq_0_iff)
    ultimately show ?thesis using c(2) uint_ge_0 [of "chksum_of s"] by simp
  qed
  have w2: "wsum (le_bytes 2 ck) = uint ck" using le_val_le_bytes_all [of 2 ck] by (simp add: le_bytes_def numeral_2_eq_2)
  have tot: "wsum (xs @ le_bytes 2 ck @ ys) = s + uint ck" using assms w2 by (simp add: wsum_append_even s_def)
  have "fold16 (s + uint ck) = fold16 65535"
  proof (rule fold16_eqI)
    have "(s + uint ck) mod 65535 = (s + (65535 - fold16 s)) mod 65535" using ck by (intro mod_add_cong) simp_all
    also have "\<dots> = ((s - fold16 s) + 65535) mod 65535" by (simp add: algebra_simps)
    also have "\<dots> = 0" using f(3) by simp
    finally show "(s + uint ck) mod 65535 = 65535 mod 65535" by simp
  qed (use s0 ck in auto)
  then show ?thesis unfolding tot ck_def [symmetric] by (simp add: chksum_of_def fold16_id)
qed

lemma even_pseudo: "ip_wf src \<Longrightarrow> ip_wf dest \<Longrightarrow> even (length (pseudo src dest proto l))"
  by (cases "u_addr src"; cases "u_addr dest")
    (auto simp: pseudo_def pseudo4_def pseudo6_def be_bytes16_def ip_wf_def ip_2_ip6_def length_concat sum_list_triv comp_def)

section \<open>The datagram\<close>

definition udp_bytes :: "u16 \<Rightarrow> u16 \<Rightarrow> u16 \<Rightarrow> u16 \<Rightarrow> u8 list \<Rightarrow> u8 list" where
  "udp_bytes sport dport l ck data = be_bytes16 sport @ be_bytes16 dport @ be_bytes16 l @ le_bytes 2 ck @ data"

lemma put_be16_eq: "put_be16 a v m = wr a (be_bytes16 v) m"
  by (simp add: put_be16_def be_bytes16_def le_bytes_htons)

lemma blit4:
  assumes "length c = 8"
  shows "blit (blit (blit (blit (c @ r) 0 [x0, x1]) 2 [y0, y1]) 6 [w0, w1]) 4 [z0, z1] = [x0, x1, y0, y1, z0, z1, w0, w1] @ r"
proof -
  obtain c0 c1 c2 c3 c4 c5 c6 c7 where "c = [c0, c1, c2, c3, c4, c5, c6, c7]"
    using assms by (auto simp: numeral_eq_Suc length_Suc_conv)
  then show ?thesis by (simp add: blit_def)
qed

lemma header_bytes:
  assumes "8 \<le> n"
  shows "rd (wr (h + 4) (be_bytes16 l) (wr (h + 6) [0, 0] (wr (h + 2) (be_bytes16 d) (wr h (be_bytes16 sp) m)))) h n =
    udp_bytes sp d l 0 (rd m (h + 8) (n - 8))"
proof -
  obtain x0 x1 y0 y1 z0 z1 where b: "be_bytes16 sp = [x0, x1]" "be_bytes16 d = [y0, y1]" "be_bytes16 l = [z0, z1]"
    by (simp add: be_bytes16_def le_bytes_def numeral_2_eq_2)
  have z: "le_bytes 2 (0 :: u16) = [0, 0]" by (simp add: le_bytes_def numeral_2_eq_2)
  have e: "rd m h n = rd m h 8 @ rd m (h + 8) (n - 8)"
    using assms take_rd [of 8 n m h] drop_rd [of 8 n m h] by (metis append_take_drop_id)
  have "rd (wr (h + 4) (be_bytes16 l) (wr (h + 6) [0, 0] (wr (h + 2) (be_bytes16 d) (wr h (be_bytes16 sp) m)))) h n =
      blit (blit (blit (blit (rd m h n) 0 [x0, x1]) 2 [y0, y1]) 6 [0, 0]) 4 [z0, z1]"
    using assms by (simp add: b rd_wr del: add_2_eq_Suc add_2_eq_Suc')
  also have "\<dots> = [x0, x1, y0, y1, z0, z1, 0, 0] @ rd m (h + 8) (n - 8)"
    unfolding e by (rule blit4) simp
  finally show ?thesis by (simp add: udp_bytes_def b z)
qed

lemma fill_header_spec:
  assumes "pbufs m q = Some qb" "pnext qb = None" "tot_len qb = plen qb" "8 \<le> unat (plen qb)" "ip_wf src" "ip_wf dst"
    "u_flags b AND UDP_FLAGS_NOCHKSUM = 0"
  shows "\<exists>m' ck. udp_fill_header q b False 0 dst dport src m = Some m' \<and> pbufs m' = pbufs m \<and> heap m' = heap m \<and> tabs m' = tabs m \<and>
    contents m' [q] = udp_bytes (u_local_port b) dport (tot_len qb) ck (drop 8 (contents m [q])) \<and> ck \<noteq> 0 \<and>
    ip_chksum_pseudo m' (Some q) 17 (tot_len qb) src dst = Some 0"
proof -
  let ?h = "payload qb" and ?n = "unat (plen qb)" and ?l = "tot_len qb" and ?data = "drop 8 (contents m [q])"
  define m1 where "m1 = wr (?h + 4) (be_bytes16 ?l) (wr (?h + 6) [0, 0] (wr (?h + 2) (be_bytes16 dport) (wr ?h (be_bytes16 (u_local_port b)) m)))"
  define xs where "xs = pseudo src dst 17 ?l @ be_bytes16 (u_local_port b) @ be_bytes16 dport @ be_bytes16 ?l"
  define ck where "ck = (let c = chksum_of (wsum (xs @ [0, 0] @ ?data)) in if c = 0 then 0xffff else c)"
  define m' where "m' = wr (?h + 6) (le_bytes 2 ck) m1"
  have pb1: "pbufs m1 = pbufs m" "heap m1 = heap m" "tabs m1 = tabs m" by (simp_all add: m1_def)
  have pb': "pbufs m' = pbufs m" "heap m' = heap m" "tabs m' = tabs m" by (simp_all add: m'_def pb1)
  have one: "packet M (Some q) [q]" "contents M [q] = rd M ?h ?n" if "pbufs M = pbufs m" for M
    using single_packet [of M q qb] assms(1-3) that by (simp_all del: contents_simps)
  have sum: "ip_chksum_pseudo M (Some q) 17 ?l src dst = Some (chksum_of (wsum (pseudo src dst 17 ?l @ contents M [q])))"
    if "pbufs M = pbufs m" for M
    using ip_chksum_pseudo_spec [OF _ assms(5,6), of M "Some q" "[q]" 0 17 ?l] one(1) [OF that] unfolding packet_def by simp
  have z: "le_bytes 2 (0 :: u16) = [0, 0]" by (simp add: le_bytes_def numeral_2_eq_2)
  have data: "?data = rd m (?h + 8) (?n - 8)" using one(2) [of m] drop_rd [OF assms(4)] by (simp del: contents_simps)
  have c1: "contents m1 [q] = udp_bytes (u_local_port b) dport ?l 0 ?data"
    unfolding data using one(2) [OF pb1(1)] header_bytes [OF assms(4)] unfolding m1_def by metis
  have s1: "ip_chksum_pseudo m1 (Some q) 17 ?l src dst = Some (chksum_of (wsum (xs @ [0, 0] @ ?data)))"
    unfolding sum [OF pb1(1)] c1 udp_bytes_def z xs_def append_assoc by (rule refl)
  have fill: "udp_fill_header q b False 0 dst dport src m = Some m'"
    using assms(1,4,7) s1 unfolding udp_fill_header_def put_be16_eq Let_def
    by (simp add: assert_that_def UDP_HLEN_def m1_def [symmetric] m'_def ck_def Let_def del: add_2_eq_Suc add_2_eq_Suc' contents_simps)
  have c2: "contents m' [q] = udp_bytes (u_local_port b) dport ?l ck ?data"
  proof -
    have "contents m' [q] = blit (contents m1 [q]) 6 (le_bytes 2 ck)"
      unfolding one(2) [OF pb'(1)] one(2) [OF pb1(1)] using assms(4) by (simp add: m'_def rd_wr)
    then show ?thesis unfolding c1 udp_bytes_def z by (simp add: blit_def be_bytes16_def del: contents_simps)
  qed
  have e: "even (length xs)" using even_pseudo [OF assms(5,6)] by (simp add: be_bytes16_def xs_def)
  have "ip_chksum_pseudo m' (Some q) 17 ?l src dst = Some (chksum_of (wsum (xs @ le_bytes 2 ck @ ?data)))"
    unfolding sum [OF pb'(1)] c2 udp_bytes_def xs_def append_assoc by (rule refl)
  then have "ip_chksum_pseudo m' (Some q) 17 ?l src dst = Some 0"
    using stored_chksum_verifies [OF e, of ?data] unfolding ck_def by simp
  moreover have "ck \<noteq> 0" unfolding ck_def by (simp add: Let_def)
  ultimately show ?thesis using fill pb' c2 by blast
qed

text \<open>The buffer with the header in front: only that buffer's descriptor and the bytes change.\<close>

definition grown :: "pmem \<Rightarrow> nat \<Rightarrow> pbuf \<Rightarrow> nat \<Rightarrow> pmem \<Rightarrow> bool" where
  "grown m p pb n m' \<longleftrightarrow> pbufs m' = (pbufs m)(p \<mapsto> pb\<lparr>payload := payload pb - n, plen := plen pb + of_nat n, tot_len := plen pb + of_nat n\<rparr>) \<and>
     heap m' = heap m \<and> tabs m' = tabs m"

lemma sendto_spec:
  assumes "upcbs u pcb = Some b" "u_local_port b \<noteq> 0" "addr_type (u_local_ip b) = addr_type src" "addr_type dst = addr_type src"
    "u_flags b AND UDP_FLAGS_NOCHKSUM = 0" "ip_wf src" "ip_wf dst"
    "pbufs m p = Some pb" "pnext pb = None" "tot_len pb = plen pb" "unat (plen pb) + 8 < 2 ^ 16"
    "type_internal pb AND 0x80 \<noteq> 0" "p + SIZEOF_STRUCT_PBUF + 8 \<le> payload pb" "payload pb < 2 ^ 64"
  shows "\<exists>m' ck. udp_sendto_if_src malloc out pcb p dst dport src (m, u, e) = out p src dst (u_ttl b) (u_tos b) 17 (m', u, e) \<and>
    grown m p pb 8 m' \<and> ck \<noteq> 0 \<and>
    contents m' [p] = udp_bytes (u_local_port b) dport (plen pb + 8) ck (contents m [p]) \<and>
    ip_chksum_pseudo m' (Some p) 17 (plen pb + 8) src dst = Some 0"
proof -
  let ?f = "\<lambda>b. b\<lparr>payload := payload pb - 8, plen := plen b + of_nat 8, tot_len := tot_len b + of_nat 8\<rparr>"
  have pk: "packet m (Some p) [p]" "lens m [p] = unat (plen pb)" using single_packet [OF assms(8-10)] by simp_all
  have h: "8 \<le> payload pb" "p + SIZEOF_STRUCT_PBUF \<le> payload pb - 8" "lens m [p] + 8 < 2 ^ 16"
    using assms(11,13) pk(2) by (simp_all del: lens_simps)
  note add = add_header_spec [OF pk(1) assms(8) _ h(3,1) assms(14), simplified]
  have pre: "udp_prepend malloc p m = Some (Some p, upd p ?f m)"
    using add(1) [of False] assms(12) h(2) by (simp add: udp_prepend_def pbuf_add_header_def UDP_HLEN_def)
  let ?m1 = "upd p ?f m" and ?qb = "?f pb"
  have un: "unat (plen pb + 8) = unat (plen pb) + 8" using assms(11) unat_add_fits [of "plen pb" 8] by simp
  have q: "pbufs ?m1 p = Some ?qb" "pnext ?qb = None" "tot_len ?qb = plen ?qb" "8 \<le> unat (plen ?qb)" using assms(8-10) un by simp_all
  have c1: "drop 8 (contents ?m1 [p]) = contents m [p]" using add(3) by simp
  obtain m' ck where m': "udp_fill_header p b False 0 dst dport src ?m1 = Some m'" "pbufs m' = pbufs ?m1" "heap m' = heap ?m1" "tabs m' = tabs ?m1"
    "contents m' [p] = udp_bytes (u_local_port b) dport (tot_len ?qb) ck (drop 8 (contents ?m1 [p]))" "ck \<noteq> 0"
    "ip_chksum_pseudo m' (Some p) 17 (tot_len ?qb) src dst = Some 0"
    using fill_header_spec [OF q assms(6,7,5)] by blast
  have fits: "\<not> plen pb + 8 < plen pb" using un by (simp add: word_less_nat_alt)
  have "udp_sendto_if_src malloc out pcb p dst dport src (m, u, e) =
      out p src dst (u_ttl b) (u_tos b) 17 (m', u, e) \<bind> (\<lambda>(err, m, u, e). Some (err, m, u, e))"
    using assms(1-4,8,10) fits pre m'(1)
    by (simp add: udp_sendto_if_src_def udp_sendto_if_src_chksum_def UDP_HLEN_def)
  also have "\<dots> = out p src dst (u_ttl b) (u_tos b) 17 (m', u, e)"
    by (cases "out p src dst (u_ttl b) (u_tos b) 17 (m', u, e)") auto
  finally have "udp_sendto_if_src malloc out pcb p dst dport src (m, u, e) = out p src dst (u_ttl b) (u_tos b) 17 (m', u, e)" .
  moreover have "grown m p pb 8 m'" using m'(2-4) assms(8,10) by (simp add: grown_def upd_def)
  moreover have "tot_len ?qb = plen pb + 8" using assms(10) by simp
  ultimately show ?thesis using m'(5-7) unfolding c1 by auto
qed


section \<open>Properties\<close>

text \<open>
  Sending over UDP: for a single buffer with room for the header in front of it (what the bridge allocates) the IP layer is
  handed, exactly once, that same buffer holding source port, destination port, length and checksum in network byte order
  followed by the unchanged payload; the checksum is never the value 0 that means none, and the receiver's computation over
  pseudo header, header and payload accepts it. The result of the IP layer is returned.\<close>

theorem udp_sendto_wire:
  assumes "upcbs u pcb = Some b" "u_local_port b \<noteq> 0" "addr_type (u_local_ip b) = addr_type src" "addr_type dst = addr_type src"
    "u_flags b AND UDP_FLAGS_NOCHKSUM = 0" "ip_wf src" "ip_wf dst"
    "pbufs m p = Some pb" "pnext pb = None" "tot_len pb = plen pb" "unat (plen pb) + 8 < 2 ^ 16"
    "type_internal pb AND 0x80 \<noteq> 0" "p + SIZEOF_STRUCT_PBUF + 8 \<le> payload pb" "payload pb < 2 ^ 64"
  shows "\<exists>m' ck. udp_sendto_if_src malloc out pcb p dst dport src (m, u, e) = out p src dst (u_ttl b) (u_tos b) 17 (m', u, e) \<and>
    packet m' (Some p) [p] \<and> ck \<noteq> 0 \<and>
    contents m' [p] = udp_bytes (u_local_port b) dport (plen pb + 8) ck (contents m [p]) \<and>
    ip_chksum_pseudo m' (Some p) 17 (plen pb + 8) src dst = Some 0"
proof -
  obtain m' ck where m': "udp_sendto_if_src malloc out pcb p dst dport src (m, u, e) = out p src dst (u_ttl b) (u_tos b) 17 (m', u, e)"
    "grown m p pb 8 m'" "ck \<noteq> 0" "contents m' [p] = udp_bytes (u_local_port b) dport (plen pb + 8) ck (contents m [p])"
    "ip_chksum_pseudo m' (Some p) 17 (plen pb + 8) src dst = Some 0"
    using sendto_spec [OF assms, where malloc = malloc and out = out and dport = dport and e = e] by (elim exE conjE) (rule that)
  have "packet m' (Some p) [p]" using single_packet(1) [of m' p] m'(2) assms(9) by (auto simp: grown_def)
  then show ?thesis using m' by blast
qed

definition sample_ram :: pmem where
  "sample_ram = sample_mem\<lparr>pbufs := [0x1000 \<mapsto> \<lparr>pnext = None, payload = 0x1058, tot_len = 3, plen = 3, type_internal = 0x80, pflags = 0,
     pref = 1, if_idx = 0\<rparr>]\<rparr>"

theorem udp_sendto_wire_witness:
  "\<exists>m' ck. udp_sendto_if_src (\<lambda>_ _. None) (\<lambda>p src dst ttl tos proto (m, u, e). Some (ERR_OK, m, u, [contents m [p]])) 0x80 0x1000
     \<lparr>u_addr = [1, 2, 3, 4], addr_type = 6\<rparr> 53 \<lparr>u_addr = [5, 6, 7, 8], addr_type = 6\<rparr> (sample_ram, sample_udp, []) =
     Some (ERR_OK, m', sample_udp, [udp_bytes 0xc000 53 11 ck [88, 89, 90]])"
proof -
  have c: "contents sample_ram [0x1000] = [88, 89, 90]"
    by (simp add: sample_ram_def sample_mem_def seg_def rd_def upt_rec)
  let ?out = "\<lambda>(p :: nat) (src :: ip_addr_t) (dst :: ip_addr_t) (ttl :: u8) (tos :: u8) (proto :: u8) (m, u :: udps, e :: u8 list list).
    Some (ERR_OK, m, u, [contents m [p]])"
  show ?thesis
    using udp_sendto_wire [where out = ?out and u = sample_udp and pcb = "0x80" and b = "sample_upcb 6 0xc000" and malloc = "\<lambda>_ _. None"
        and src = "\<lparr>u_addr = [5, 6, 7, 8], addr_type = 6\<rparr>" and dst = "\<lparr>u_addr = [1, 2, 3, 4], addr_type = 6\<rparr>" and m = sample_ram
        and p = "0x1000" and dport = 53 and e = "[]" and pb = "the (pbufs sample_ram 0x1000)", unfolded c]
    by (auto simp: sample_udp_def sample_upcb_def sample_ram_def ip_wf_def SIZEOF_STRUCT_PBUF_def UDP_FLAGS_NOCHKSUM_def
        simp del: contents_simps)
qed

end
