(* ===== verification/Tcp_Pcb.thy ===== *)
theory Tcp_Pcb
  imports Inet_Chksum Pbuf_Ops
begin

text \<open>
  The life cycle of TCP control blocks, from lwIP's \<^verbatim>\<open>core/tcp.c\<close>: the pcb lists, closing, aborting and freeing, and the callback
  setters. The state holds the pcbs by address, the four lists, the packet memory and the log of what is handed to parts that
  are not modelled here, in call order: a reset to be sent (\<^verbatim>\<open>tcp_rst\<close>), an output attempt (\<^verbatim>\<open>tcp_output\<close>) and a call of the
  error callback. Whether a FIN can be queued (\<^verbatim>\<open>tcp_send_fin\<close>) is the parameter \<open>send_fin\<close>. As in the packet buffers, \<open>None\<close> is an
  execution that aborts on an assertion or never returns.
\<close>

section \<open>Data\<close>

datatype tcp_state = CLOSED | LISTEN | SYN_SENT | SYN_RCVD | ESTABLISHED | FIN_WAIT_1 | FIN_WAIT_2 | CLOSE_WAIT | CLOSING
  | LAST_ACK | TIME_WAIT

record tcp_seg =
  seg_addr :: nat
  seg_p :: "nat option"

text \<open>
  The callback pointers are either lwIP's default or the bridge's function, hence a truth value. The listening variant of the
  structure is this one with only the common fields and the accept callback in use.
\<close>

record tcp_pcb =
  local_ip :: ip_addr_t
  remote_ip :: ip_addr_t
  netif_idx :: u8
  so_options :: u8
  tos :: u8
  ttl :: u8
  callback_arg :: nat
  st :: tcp_state
  prio :: u8
  local_port :: u16
  remote_port :: u16
  tcp_flags :: u16
  polltmr :: u8
  pollinterval :: u8
  last_timer :: u8
  tmr :: u32
  rcv_nxt :: u32
  rcv_wnd :: u32
  rcv_ann_wnd :: u32
  rcv_ann_right_edge :: u32
  rtime :: "16 word"
  mss :: u16
  sa :: "16 word"
  sv :: "16 word"
  rto :: "16 word"
  nrtx :: u8
  cwnd :: u32
  ssthresh :: u32
  snd_nxt :: u32
  snd_wnd :: u32
  snd_buf :: u32
  snd_queuelen :: u16
  unsent_oversize :: u16
  bytes_acked :: u32
  unsent :: "tcp_seg list"
  unacked :: "tcp_seg list"
  refused_data :: "nat option"
  listener :: "nat option"
  sent_cb :: bool
  recv_cb :: bool
  err_cb :: bool
  accept_cb :: bool
  keep_idle :: u32
  persist_cnt :: u8
  persist_backoff :: u8
  persist_probe :: u8
  keep_cnt_sent :: u8

text \<open>The structure with every byte zero.\<close>

definition zero_pcb :: tcp_pcb where
  "zero_pcb = \<lparr>local_ip = \<lparr>u_addr = [0, 0, 0, 0], addr_type = 0\<rparr>, remote_ip = \<lparr>u_addr = [0, 0, 0, 0], addr_type = 0\<rparr>,
     netif_idx = 0, so_options = 0, tos = 0, ttl = 0, callback_arg = 0, st = CLOSED, prio = 0, local_port = 0, remote_port = 0, tcp_flags = 0,
     polltmr = 0, pollinterval = 0, last_timer = 0, tmr = 0, rcv_nxt = 0, rcv_wnd = 0, rcv_ann_wnd = 0, rcv_ann_right_edge = 0,
     rtime = 0, mss = 0, sa = 0, sv = 0, rto = 0, nrtx = 0, cwnd = 0, ssthresh = 0, snd_nxt = 0, snd_wnd = 0, snd_buf = 0,
     snd_queuelen = 0, unsent_oversize = 0, bytes_acked = 0, unsent = [], unacked = [], refused_data = None, listener = None,
     sent_cb = False, recv_cb = False, err_cb = False, accept_cb = False, keep_idle = 0, persist_cnt = 0, persist_backoff = 0,
     persist_probe = 0, keep_cnt_sent = 0\<rparr>"

datatype tcp_call = Rst u32 u32 ip_addr_t ip_addr_t u16 u16 | Output nat | Errf nat err_t | Timer_needed

record tcpw =
  pm :: pmem
  pcbs :: "nat \<rightharpoonup> tcp_pcb"
  active_pcbs :: "nat list"
  tw_pcbs :: "nat list"
  bound_pcbs :: "nat list"
  listen_pcbs :: "nat list"
  active_changed :: bool
  input_pcb :: "nat option"
  recv_flags :: u8
  calls :: "tcp_call list"
  tcp_ticks :: u32
  tcp_timer_ctr :: u8
  tcp_timer :: u8
  tcp_port :: u16

definition TF_ACK_DELAY :: u16 where "TF_ACK_DELAY = 0x01"

definition TF_ACK_NOW :: u16 where "TF_ACK_NOW = 0x02"

definition TF_CLOSEPEND :: u16 where "TF_CLOSEPEND = 0x08"

definition TF_RXCLOSED :: u16 where "TF_RXCLOSED = 0x10"

definition TF_NODELAY :: u16 where "TF_NODELAY = 0x40"

definition TF_WND_SCALE :: u16 where "TF_WND_SCALE = 0x0100"

definition TF_CLOSED :: u8 where "TF_CLOSED = 0x10"

definition TCP_WND :: u32 where
  "TCP_WND = 1024 * 1460"

definition TCP_WND_MAX :: "tcp_pcb \<Rightarrow> u32" where
  "TCP_WND_MAX pcb = (if tcp_flags pcb AND TF_WND_SCALE \<noteq> 0 then TCP_WND else min TCP_WND 0xFFFF)"

definition upd_pcb :: "nat \<Rightarrow> (tcp_pcb \<Rightarrow> tcp_pcb) \<Rightarrow> tcpw \<Rightarrow> tcpw" where
  "upd_pcb a f w = w\<lparr>pcbs := (pcbs w)(a := map_option f (pcbs w a))\<rparr>"

definition set_flags :: "u16 \<Rightarrow> tcp_pcb \<Rightarrow> tcp_pcb" where
  "set_flags fl pcb = pcb\<lparr>tcp_flags := tcp_flags pcb OR fl\<rparr>"

definition say :: "tcp_call list \<Rightarrow> tcpw \<Rightarrow> tcpw" where
  "say cs w = w\<lparr>calls := calls w @ cs\<rparr>"

section \<open>Segments and pcbs\<close>

definition tcp_seg_free :: "tcp_seg \<Rightarrow> pmem \<Rightarrow> pmem option" where
  "tcp_seg_free sg m = do {
     m \<leftarrow> (case seg_p sg of None \<Rightarrow> Some m | Some p \<Rightarrow> map_option snd (pbuf_free (Some p) m));
     t \<leftarrow> memp_free MEMP_TCP_SEG (Some (seg_addr sg)) (tabs m);
     Some (m\<lparr>tabs := t\<rparr>)
   }"

fun tcp_segs_free :: "tcp_seg list \<Rightarrow> pmem \<Rightarrow> pmem option" where
  "tcp_segs_free [] m = Some m"
| "tcp_segs_free (sg # segs) m = do { m \<leftarrow> tcp_seg_free sg m; tcp_segs_free segs m }"

definition free_pcb :: "memp_t \<Rightarrow> nat \<Rightarrow> tcpw \<Rightarrow> tcpw option" where
  "free_pcb t a w = do {
     pcb \<leftarrow> pcbs w a;
     _ \<leftarrow> assert_that (st pcb \<noteq> LISTEN);
     tb \<leftarrow> memp_free t (Some a) (tabs (pm w));
     Some (w\<lparr>pm := (pm w)\<lparr>tabs := tb\<rparr>, pcbs := (pcbs w)(a := None)\<rparr>)
   }"

definition tcp_free :: "nat \<Rightarrow> tcpw \<Rightarrow> tcpw option" where
  "tcp_free a w = free_pcb MEMP_TCP_PCB a w"

definition tcp_free_listen :: "nat \<Rightarrow> tcpw \<Rightarrow> tcpw option" where
  "tcp_free_listen a w = free_pcb MEMP_TCP_PCB_LISTEN a w"

text \<open>Taking an element out of a list: the head, or the one some element links to.\<close>

fun TCP_RMV :: "nat list \<Rightarrow> nat \<Rightarrow> nat list" where
  "TCP_RMV [] a = []"
| "TCP_RMV (x # xs) a = (if x = a then xs else x # TCP_RMV xs a)"

definition tcp_pcb_purge :: "nat \<Rightarrow> tcpw \<Rightarrow> tcpw option" where
  "tcp_pcb_purge a w = do {
     pcb \<leftarrow> pcbs w a;
     if st pcb \<noteq> CLOSED \<and> st pcb \<noteq> TIME_WAIT \<and> st pcb \<noteq> LISTEN then do {
       m \<leftarrow> (case refused_data pcb of None \<Rightarrow> Some (pm w) | Some p \<Rightarrow> map_option snd (pbuf_free (Some p) (pm w)));
       m \<leftarrow> tcp_segs_free (unsent pcb) m;
       m \<leftarrow> tcp_segs_free (unacked pcb) m;
       Some (upd_pcb a (\<lambda>p. p\<lparr>refused_data := None, rtime := - 1, unsent := [], unacked := [], unsent_oversize := 0\<rparr>) (w\<lparr>pm := m\<rparr>))
     } else Some w
   }"

datatype pcblist = Active | Tw | Listening

fun set_list :: "pcblist \<Rightarrow> nat list \<Rightarrow> tcpw \<Rightarrow> tcpw" where
  "set_list Active xs w = w\<lparr>active_pcbs := xs\<rparr>"
| "set_list Tw xs w = w\<lparr>tw_pcbs := xs\<rparr>"
| "set_list Listening xs w = w\<lparr>listen_pcbs := xs\<rparr>"

fun get_list :: "pcblist \<Rightarrow> tcpw \<Rightarrow> nat list" where
  "get_list Active w = active_pcbs w"
| "get_list Tw w = tw_pcbs w"
| "get_list Listening w = listen_pcbs w"

definition tcp_pcb_remove :: "pcblist \<Rightarrow> nat \<Rightarrow> tcpw \<Rightarrow> tcpw option" where
  "tcp_pcb_remove l a w = do {
     let w = set_list l (TCP_RMV (get_list l w) a) w;
     w \<leftarrow> tcp_pcb_purge a w;
     pcb \<leftarrow> pcbs w a;
     let w = (if st pcb \<noteq> TIME_WAIT \<and> st pcb \<noteq> LISTEN \<and> tcp_flags pcb AND TF_ACK_DELAY \<noteq> 0
              then say [Output a] (upd_pcb a (set_flags TF_ACK_NOW) w) else w);
     _ \<leftarrow> assert_that (st pcb \<noteq> LISTEN \<longrightarrow> unsent pcb = [] \<and> unacked pcb = []);
     Some (upd_pcb a (\<lambda>p. p\<lparr>st := CLOSED, local_port := 0\<rparr>) w)
   }"

definition tcp_pcb_remove_active :: "nat \<Rightarrow> tcpw \<Rightarrow> tcpw option" where
  "tcp_pcb_remove_active a w = do { w \<leftarrow> tcp_pcb_remove Active a w; Some (w\<lparr>active_changed := True\<rparr>) }"

section \<open>Aborting\<close>

definition tcp_abandon :: "nat \<Rightarrow> bool \<Rightarrow> tcpw \<Rightarrow> tcpw option" where
  "tcp_abandon a reset w = do {
     pcb \<leftarrow> pcbs w a;
     _ \<leftarrow> assert_that (st pcb \<noteq> LISTEN);
     if st pcb = TIME_WAIT then do { w \<leftarrow> tcp_pcb_remove Tw a w; tcp_free a w }
     else do {
       (send_rst, lport, w) \<leftarrow>
         (if st pcb = CLOSED then
            Some (False, 0, if local_port pcb \<noteq> 0 then w\<lparr>bound_pcbs := TCP_RMV (bound_pcbs w) a\<rparr> else w)
          else map_option (\<lambda>w. (reset, local_port pcb, w)) (tcp_pcb_remove_active a w));
       pcb' \<leftarrow> pcbs w a;
       m \<leftarrow> tcp_segs_free (unacked pcb') (pm w);
       m \<leftarrow> tcp_segs_free (unsent pcb') m;
       let w = w\<lparr>pm := m\<rparr>;
       let w = (if send_rst then say [Rst (snd_nxt pcb) (rcv_nxt pcb) (local_ip pcb') (remote_ip pcb') lport (remote_port pcb')] w else w);
       w \<leftarrow> tcp_free a w;
       Some (if err_cb pcb then say [Errf (callback_arg pcb) ERR_ABRT] w else w)
     }
   }"

definition tcp_abort :: "nat \<Rightarrow> tcpw \<Rightarrow> tcpw option" where
  "tcp_abort a w = tcp_abandon a True w"

section \<open>Closing\<close>

definition tcp_listen_closed :: "nat \<Rightarrow> tcpw \<Rightarrow> tcpw option" where
  "tcp_listen_closed a w = do {
     pcb \<leftarrow> pcbs w a;
     _ \<leftarrow> assert_that (st pcb = LISTEN);
     Some (w\<lparr>pcbs := (\<lambda>x. if x \<in> set (bound_pcbs w) \<union> set (active_pcbs w) \<union> set (tw_pcbs w)
       then map_option (\<lambda>p. if listener p = Some a then p\<lparr>listener := None\<rparr> else p) (pcbs w x) else pcbs w x)\<rparr>)
   }"

definition tcp_close_shutdown_fin :: "(nat \<Rightarrow> tcpw \<Rightarrow> err_t \<times> tcpw) \<Rightarrow> nat \<Rightarrow> tcpw \<Rightarrow> (err_t \<times> tcpw) option" where
  "tcp_close_shutdown_fin send_fin a w = do {
     pcb \<leftarrow> pcbs w a;
     if st pcb = SYN_RCVD \<or> st pcb = ESTABLISHED \<or> st pcb = CLOSE_WAIT then
       (let (err, w) = send_fin a w;
            w = (if err = ERR_OK then upd_pcb a (\<lambda>p. p\<lparr>st := if st pcb = CLOSE_WAIT then LAST_ACK else FIN_WAIT_1\<rparr>) w else w)
        in if err = ERR_OK then Some (ERR_OK, say [Output a] w)
           else if err = ERR_MEM then Some (ERR_OK, upd_pcb a (set_flags TF_CLOSEPEND) w)
           else Some (err, w))
     else Some (ERR_OK, w)
   }"

definition tcp_close_shutdown :: "(nat \<Rightarrow> tcpw \<Rightarrow> err_t \<times> tcpw) \<Rightarrow> nat \<Rightarrow> bool \<Rightarrow> tcpw \<Rightarrow> (err_t \<times> tcpw) option" where
  "tcp_close_shutdown send_fin a rst_on_unacked_data w = do {
     pcb \<leftarrow> pcbs w a;
     if rst_on_unacked_data \<and> (st pcb = ESTABLISHED \<or> st pcb = CLOSE_WAIT) \<and>
        (refused_data pcb \<noteq> None \<or> rcv_wnd pcb \<noteq> TCP_WND_MAX pcb)
     then do {
       _ \<leftarrow> assert_that (tcp_flags pcb AND TF_RXCLOSED \<noteq> 0);
       let w = say [Rst (snd_nxt pcb) (rcv_nxt pcb) (local_ip pcb) (remote_ip pcb) (local_port pcb) (remote_port pcb)] w;
       w \<leftarrow> tcp_pcb_purge a w;
       let w = w\<lparr>active_pcbs := TCP_RMV (active_pcbs w) a, active_changed := True\<rparr>;
       if input_pcb w = Some a then Some (ERR_OK, w\<lparr>recv_flags := recv_flags w OR TF_CLOSED\<rparr>)
       else do { w \<leftarrow> tcp_free a w; Some (ERR_OK, w) }
     }
     else case st pcb of
       CLOSED \<Rightarrow> do {
         let w = (if local_port pcb \<noteq> 0 then w\<lparr>bound_pcbs := TCP_RMV (bound_pcbs w) a\<rparr> else w);
         w \<leftarrow> tcp_free a w;
         Some (ERR_OK, w)
       }
     | LISTEN \<Rightarrow> do {
         w \<leftarrow> tcp_listen_closed a w;
         w \<leftarrow> tcp_pcb_remove Listening a w;
         w \<leftarrow> tcp_free_listen a w;
         Some (ERR_OK, w)
       }
     | SYN_SENT \<Rightarrow> do { w \<leftarrow> tcp_pcb_remove_active a w; w \<leftarrow> tcp_free a w; Some (ERR_OK, w) }
     | _ \<Rightarrow> tcp_close_shutdown_fin send_fin a w
   }"

definition tcp_close :: "(nat \<Rightarrow> tcpw \<Rightarrow> err_t \<times> tcpw) \<Rightarrow> nat \<Rightarrow> tcpw \<Rightarrow> (err_t \<times> tcpw) option" where
  "tcp_close send_fin a w = do {
     pcb \<leftarrow> pcbs w a;
     let w = (if st pcb \<noteq> LISTEN then upd_pcb a (set_flags TF_RXCLOSED) w else w);
     tcp_close_shutdown send_fin a True w
   }"

definition tcp_shutdown :: "(nat \<Rightarrow> tcpw \<Rightarrow> err_t \<times> tcpw) \<Rightarrow> nat \<Rightarrow> bool \<Rightarrow> bool \<Rightarrow> tcpw \<Rightarrow> (err_t \<times> tcpw) option" where
  "tcp_shutdown send_fin a shut_rx shut_tx w = do {
     pcb \<leftarrow> pcbs w a;
     if st pcb = LISTEN then Some (ERR_CONN, w)
     else do {
       let w = (if shut_rx then upd_pcb a (set_flags TF_RXCLOSED) w else w);
       if shut_rx \<and> shut_tx then tcp_close_shutdown send_fin a True w
       else do {
         w \<leftarrow> (if shut_rx then
                 case refused_data pcb of None \<Rightarrow> Some w
                 | Some p \<Rightarrow> do { (_, m) \<leftarrow> pbuf_free (Some p) (pm w); Some (upd_pcb a (\<lambda>p. p\<lparr>refused_data := None\<rparr>) (w\<lparr>pm := m\<rparr>)) }
               else Some w);
         if shut_tx then
           (if st pcb = SYN_RCVD \<or> st pcb = ESTABLISHED \<or> st pcb = CLOSE_WAIT then tcp_close_shutdown send_fin a shut_rx w
            else Some (ERR_CONN, w))
         else Some (ERR_OK, w)
       }
     }
   }"

section \<open>The receive window\<close>

text \<open>Sequence numbers compare by the top bit of their 32-bit difference.\<close>

definition TCP_SEQ_LT :: "u32 \<Rightarrow> u32 \<Rightarrow> bool" where
  "TCP_SEQ_LT a b \<longleftrightarrow> (a - b) AND 0x80000000 \<noteq> 0"

definition TCP_SEQ_LEQ :: "u32 \<Rightarrow> u32 \<Rightarrow> bool" where
  "TCP_SEQ_LEQ a b \<longleftrightarrow> \<not> TCP_SEQ_LT b a"

definition TCP_SEQ_GT :: "u32 \<Rightarrow> u32 \<Rightarrow> bool" where
  "TCP_SEQ_GT a b \<longleftrightarrow> TCP_SEQ_LT b a"

definition TCP_SEQ_GEQ :: "u32 \<Rightarrow> u32 \<Rightarrow> bool" where
  "TCP_SEQ_GEQ a b \<longleftrightarrow> TCP_SEQ_LEQ b a"

definition TCP_WND_UPDATE_THRESHOLD :: u32 where
  "TCP_WND_UPDATE_THRESHOLD = min (TCP_WND div 4) (1460 * 8)"

definition tcp_update_rcv_ann_wnd :: "tcp_pcb \<Rightarrow> u32 \<times> tcp_pcb" where
  "tcp_update_rcv_ann_wnd pcb =
    (let new_right_edge = rcv_nxt pcb + rcv_wnd pcb in
     if TCP_SEQ_GEQ new_right_edge (rcv_ann_right_edge pcb + min (TCP_WND div 2) (ucast (mss pcb)))
     then (new_right_edge - rcv_ann_right_edge pcb, pcb\<lparr>rcv_ann_wnd := rcv_wnd pcb\<rparr>)
     else if TCP_SEQ_GT (rcv_nxt pcb) (rcv_ann_right_edge pcb) then (0, pcb\<lparr>rcv_ann_wnd := 0\<rparr>)
     else (0, pcb\<lparr>rcv_ann_wnd := rcv_ann_right_edge pcb - rcv_nxt pcb\<rparr>))"

definition tcp_recved :: "nat \<Rightarrow> u16 \<Rightarrow> tcpw \<Rightarrow> tcpw option" where
  "tcp_recved a len w = do {
     pcb \<leftarrow> pcbs w a;
     _ \<leftarrow> assert_that (st pcb \<noteq> LISTEN);
     let wnd = rcv_wnd pcb + ucast len;
     let pcb = pcb\<lparr>rcv_wnd := if wnd > TCP_WND_MAX pcb \<or> wnd < rcv_wnd pcb then TCP_WND_MAX pcb else wnd\<rparr>;
     let (wnd_inflation, pcb) = tcp_update_rcv_ann_wnd pcb;
     let w = w\<lparr>pcbs := (pcbs w)(a \<mapsto> pcb)\<rparr>;
     Some (if wnd_inflation \<ge> TCP_WND_UPDATE_THRESHOLD then say [Output a] (upd_pcb a (set_flags TF_ACK_NOW) w) else w)
   }"

section \<open>Callback setters\<close>

definition tcp_arg :: "nat \<Rightarrow> nat \<Rightarrow> tcpw \<Rightarrow> tcpw" where
  "tcp_arg a arg w = upd_pcb a (\<lambda>p. p\<lparr>callback_arg := arg\<rparr>) w"

definition tcp_recv :: "nat \<Rightarrow> bool \<Rightarrow> tcpw \<Rightarrow> tcpw option" where
  "tcp_recv a f w = do { pcb \<leftarrow> pcbs w a; _ \<leftarrow> assert_that (st pcb \<noteq> LISTEN); Some (upd_pcb a (\<lambda>p. p\<lparr>recv_cb := f\<rparr>) w) }"

definition tcp_sent :: "nat \<Rightarrow> bool \<Rightarrow> tcpw \<Rightarrow> tcpw option" where
  "tcp_sent a f w = do { pcb \<leftarrow> pcbs w a; _ \<leftarrow> assert_that (st pcb \<noteq> LISTEN); Some (upd_pcb a (\<lambda>p. p\<lparr>sent_cb := f\<rparr>) w) }"

definition tcp_err :: "nat \<Rightarrow> bool \<Rightarrow> tcpw \<Rightarrow> tcpw option" where
  "tcp_err a f w = do { pcb \<leftarrow> pcbs w a; _ \<leftarrow> assert_that (st pcb \<noteq> LISTEN); Some (upd_pcb a (\<lambda>p. p\<lparr>err_cb := f\<rparr>) w) }"

section \<open>Buffers held by connections\<close>

text \<open>A list of packets, each a chain of pbufs that can be freed, no pbuf in two of them.\<close>

definition held :: "pmem \<Rightarrow> nat list \<Rightarrow> nat list list \<Rightarrow> bool" where
  "held m ps css \<longleftrightarrow> list_all2 (\<lambda>p as. chain m (Some p) as) ps css \<and> distinct (concat css) \<and> (\<forall>a \<in> set (concat css). owned m a)"

lemma held_cong:
  assumes "\<And>a. a \<in> set (concat css) \<Longrightarrow> pbufs m a = pbufs m' a \<and> heap m a = heap m' a"
  shows "held m ps css = held m' ps css"
proof -
  have "chain m (Some p) as = chain m' (Some p) as" if "as \<in> set css" for p as
  proof (rule chain_cong)
    fix a assume "a \<in> set as"
    then have "pbufs m a = pbufs m' a" using assms [of a] that by auto
    then show "map_option pnext (pbufs m a) = map_option pnext (pbufs m' a)" by simp
  qed
  then have "list_all2 (\<lambda>p as. chain m (Some p) as) ps css = list_all2 (\<lambda>p as. chain m' (Some p) as) ps css"
    by (intro list.rel_cong refl) auto
  moreover have "owned m a = owned m' a" if "a \<in> set (concat css)" for a using assms [OF that] owned_cong by blast
  ultimately show ?thesis unfolding held_def by auto
qed

lemma freed_frame:
  assumes "freed m as m'" "x \<notin> set as"
  shows "pbufs m' x = pbufs m x" "heap m' x = heap m x"
proof -
  have "x \<notin> set (dying m as)" "survivors m as \<noteq> [] \<Longrightarrow> x \<noteq> hd (survivors m as)"
    using assms(2) unfolding dying_def survivors_def by (meson set_takeWhileD, metis hd_in_set set_dropWhileD)
  then show "pbufs m' x = pbufs m x" "heap m' x = heap m x" using assms(1) unfolding freed_def by auto
qed

lemma freed_tabs: "freed m as m' \<Longrightarrow> t \<noteq> MEMP_PBUF \<Longrightarrow> t \<noteq> MEMP_PBUF_POOL \<Longrightarrow> set (tabs m' t) = set (tabs m t)"
  by (simp add: freed_def)

text \<open>Buffers that nobody else refers to are gone.\<close>

definition gone :: "pmem \<Rightarrow> nat list \<Rightarrow> pmem \<Rightarrow> bool" where
  "gone m xs m' \<longleftrightarrow> ((\<forall>x \<in> set xs. ref_of m x \<le> 1) \<longrightarrow> (\<forall>x \<in> set xs. pbufs m' x = None))"

lemma ref_of_cong: "pbufs m x = pbufs m' x \<Longrightarrow> ref_of m x = ref_of m' x"
  by (simp add: ref_of_def)

lemma gone_trans:
  assumes "gone m xs m1" "gone m1 ys m2" "\<And>x. x \<notin> set xs \<Longrightarrow> pbufs m1 x = pbufs m x" "\<And>x. x \<notin> set ys \<Longrightarrow> pbufs m2 x = pbufs m1 x"
  shows "gone m (xs @ ys) m2"
  unfolding gone_def
proof (intro impI)
  assume r: "\<forall>x \<in> set (xs @ ys). ref_of m x \<le> 1"
  then have g: "\<And>x. x \<in> set xs \<Longrightarrow> pbufs m1 x = None" using assms(1) by (simp add: gone_def)
  have "ref_of m1 y \<le> 1" if "y \<in> set ys" for y
    using r g that ref_of_cong [OF assms(3)] by (cases "y \<in> set xs") (auto simp: ref_of_def)
  then have "\<And>y. y \<in> set ys \<Longrightarrow> pbufs m2 y = None" using assms(2) by (simp add: gone_def)
  then show "\<forall>x \<in> set (xs @ ys). pbufs m2 x = None" using g assms(4) by (metis Un_iff set_append)
qed

lemma freed_gone:
  assumes "freed m as m'" "\<And>a. a \<in> set as \<Longrightarrow> owned m a"
  shows "gone m as m'"
  unfolding gone_def
proof (intro impI)
  assume r: "\<forall>x \<in> set as. ref_of m x \<le> 1"
  have "ref_of m x = 1" if "x \<in> set as" for x
  proof -
    have "ref_of m x \<noteq> 0" using assms(2) [OF that] by (auto simp: owned_def ref_of_def word_neq_0_conv split: option.splits)
    then show ?thesis using r that by (metis (no_types, lifting) antisym linorder_not_less word_coorder.not_eq_extremum word_less_1)
  qed
  then have "dying m as = as" by (simp add: dying_def)
  then show "\<forall>x \<in> set as. pbufs m' x = None" using assms(1) by (simp add: freed_def)
qed

text \<open>Memory from which a list of held packets was released: the others are untouched.\<close>

definition released :: "pmem \<Rightarrow> nat list \<Rightarrow> pmem \<Rightarrow> bool" where
  "released m xs m' \<longleftrightarrow> gone m xs m' \<and> (\<forall>x. x \<notin> set xs \<longrightarrow> pbufs m' x = pbufs m x \<and> heap m' x = heap m x) \<and>
     (\<forall>t. t \<noteq> MEMP_PBUF \<longrightarrow> t \<noteq> MEMP_PBUF_POOL \<longrightarrow> t \<noteq> MEMP_TCP_SEG \<longrightarrow> set (tabs m' t) = set (tabs m t))"

lemma released_refl: "released m [] m"
  by (simp add: released_def gone_def)

lemma released_trans:
  assumes "released m xs m1" "released m1 ys m2"
  shows "released m (xs @ ys) m2"
proof -
  have "gone m (xs @ ys) m2" using assms by (intro gone_trans [of m xs m1]) (auto simp: released_def)
  then show ?thesis using assms unfolding released_def by auto
qed

lemma held_released:
  assumes "held m (ps @ qs) (css @ dss)" "length ps = length css" "released m (concat css) m'"
  shows "held m' qs dss"
proof -
  have "held m qs dss" using assms(1,2) by (auto simp: held_def list_all2_append)
  moreover have "x \<notin> set (concat css)" if "x \<in> set (concat dss)" for x
    using assms(1) that unfolding held_def by (auto simp: distinct_append disjoint_iff)
  ultimately show ?thesis using assms(3) held_cong [of dss m m' qs] unfolding released_def by fastforce
qed

lemma free_held:
  assumes "held m (p # ps) (as # css)"
  shows "\<exists>k m'. pbuf_free (Some p) m = Some (k, m') \<and> released m as m'"
proof -
  have "chain m (Some p) as" "\<And>a. a \<in> set as \<Longrightarrow> owned m a" using assms by (auto simp: held_def)
  then obtain m' where m': "pbuf_free (Some p) m = Some (of_nat (length (dying m as)), m')" "freed m as m'" using free_spec by blast
  have "gone m as m'" using assms by (intro freed_gone [OF m'(2)]) (simp add: held_def)
  then have "released m as m'" unfolding released_def using freed_frame [OF m'(2)] freed_tabs [OF m'(2)] by blast
  then show ?thesis using m'(1) by blast
qed

definition seg_pbufs :: "tcp_seg list \<Rightarrow> nat list" where
  "seg_pbufs segs = List.map_filter seg_p segs"

lemma seg_pbufs_simps [simp]:
  "seg_pbufs [] = []" "seg_pbufs (s # ss) = (case seg_p s of None \<Rightarrow> [] | Some p \<Rightarrow> [p]) @ seg_pbufs ss"
  by (simp_all add: seg_pbufs_def map_filter_simps split: option.splits)

lemma segs_free_held:
  "held m (seg_pbufs segs) css \<Longrightarrow> (\<And>s. s \<in> set segs \<Longrightarrow> seg_addr s mod 8 = 0) \<Longrightarrow>
   \<exists>m'. tcp_segs_free segs m = Some m' \<and> released m (concat css) m'"
proof (induction segs arbitrary: m css)
  case Nil
  then show ?case by (simp add: held_def released_refl)
next
  case (Cons s segs)
  have al: "seg_addr s mod MEM_ALIGNMENT = 0" using Cons.prems(2) by (simp add: MEM_ALIGNMENT_def)
  let ?put = "\<lambda>m. m\<lparr>tabs := (tabs m)(MEMP_TCP_SEG := seg_addr s # tabs m MEMP_TCP_SEG)\<rparr>"
  have put: "released m xs (?put m1)" if "released m xs m1" for xs m1 using that by (auto simp: released_def gone_def)
  show ?case
  proof (cases "seg_p s")
    case None
    have r: "released m [] (?put m)" by (rule put) (rule released_refl)
    have f: "tcp_seg_free s m = Some (?put m)" by (simp add: tcp_seg_free_def None memp_free_def do_memp_free_pool_def al)
    have "held (?put m) (seg_pbufs segs) css"
      using Cons.prems(1) None held_released [of m "[]" "seg_pbufs segs" "[]" css "?put m"] r by simp
    then obtain m' where "tcp_segs_free segs (?put m) = Some m'" "released (?put m) (concat css) m'"
      using Cons.IH Cons.prems(2) by (meson list.set_intros(2))
    then show ?thesis using f released_trans [OF r] by auto
  next
    case (Some p)
    obtain as dss where css: "css = as # dss" using Cons.prems(1) Some by (cases css) (auto simp: held_def)
    have h: "held m (p # seg_pbufs segs) (as # dss)" using Cons.prems(1) Some css by simp
    obtain k m1 where m1: "pbuf_free (Some p) m = Some (k, m1)" "released m as m1" using free_held [OF h] by blast
    have r: "released m as (?put m1)" by (rule put) (rule m1(2))
    have f: "tcp_seg_free s m = Some (?put m1)" by (simp add: tcp_seg_free_def Some m1(1) memp_free_def do_memp_free_pool_def al)
    have "held (?put m1) (seg_pbufs segs) dss"
      using h held_released [of m "[p]" "seg_pbufs segs" "[as]" dss "?put m1"] r by simp
    then obtain m' where "tcp_segs_free segs (?put m1) = Some m'" "released (?put m1) (concat dss) m'"
      using Cons.IH Cons.prems(2) by (meson list.set_intros(2))
    then show ?thesis using f released_trans [OF r] css by auto
  qed
qed

section \<open>Aborting a connection\<close>

definition pcb_pbufs :: "tcp_pcb \<Rightarrow> nat list" where
  "pcb_pbufs pcb = (case refused_data pcb of None \<Rightarrow> [] | Some p \<Rightarrow> [p]) @ seg_pbufs (unsent pcb) @ seg_pbufs (unacked pcb)"

definition live_conn :: "nat \<Rightarrow> tcp_pcb \<Rightarrow> bool" where
  "live_conn a pcb \<longleftrightarrow> a mod 8 = 0 \<and> st pcb \<notin> {CLOSED, LISTEN, TIME_WAIT} \<and>
     (\<forall>s \<in> set (unsent pcb) \<union> set (unacked pcb). seg_addr s mod 8 = 0)"

text \<open>What aborting a live connection hands on: a pending delayed ACK, the reset, and the error callback.\<close>

definition abort_calls :: "nat \<Rightarrow> tcp_pcb \<Rightarrow> tcp_call list" where
  "abort_calls a pcb = (if tcp_flags pcb AND TF_ACK_DELAY \<noteq> 0 then [Output a] else []) @
     [Rst (snd_nxt pcb) (rcv_nxt pcb) (local_ip pcb) (remote_ip pcb) (local_port pcb) (remote_port pcb)] @
     (if err_cb pcb then [Errf (callback_arg pcb) ERR_ABRT] else [])"

lemma upd_pcb_simps [simp]:
  "pcbs (upd_pcb a f w) = (pcbs w)(a := map_option f (pcbs w a))" "pm (upd_pcb a f w) = pm w"
  "active_pcbs (upd_pcb a f w) = active_pcbs w" "tw_pcbs (upd_pcb a f w) = tw_pcbs w" "calls (upd_pcb a f w) = calls w"
  by (simp_all add: upd_pcb_def)

lemma say_simps [simp]:
  "pcbs (say cs w) = pcbs w" "pm (say cs w) = pm w" "active_pcbs (say cs w) = active_pcbs w" "tw_pcbs (say cs w) = tw_pcbs w"
  "calls (say cs w) = calls w @ cs"
  by (simp_all add: say_def)

lemma TCP_RMV_hd [simp]: "TCP_RMV (a # xs) a = xs"
  by simp

lemma purge_spec:
  assumes "pcbs w a = Some pcb" "live_conn a pcb" "held (pm w) (pcb_pbufs pcb) css"
  shows "\<exists>m. tcp_pcb_purge a w =
      Some (upd_pcb a (\<lambda>p. p\<lparr>refused_data := None, rtime := - 1, unsent := [], unacked := [], unsent_oversize := 0\<rparr>) (w\<lparr>pm := m\<rparr>)) \<and>
    released (pm w) (concat css) m"
proof -
  let ?r = "case refused_data pcb of None \<Rightarrow> [] | Some p \<Rightarrow> [p]"
  obtain c1 c2 c3 where css: "css = c1 @ c2 @ c3" "length ?r = length c1" "length (seg_pbufs (unsent pcb)) = length c2"
      "length (seg_pbufs (unacked pcb)) = length c3"
    using assms(3) unfolding held_def pcb_pbufs_def by (fastforce simp: list_all2_append1 dest: list_all2_lengthD)
  have h: "held (pm w) (?r @ seg_pbufs (unsent pcb) @ seg_pbufs (unacked pcb)) (c1 @ c2 @ c3)"
    using assms(3) by (simp add: pcb_pbufs_def css(1))
  have "\<exists>m1. (case refused_data pcb of None \<Rightarrow> Some (pm w) | Some p \<Rightarrow> map_option snd (pbuf_free (Some p) (pm w))) = Some m1 \<and>
      released (pm w) (concat c1) m1"
  proof (cases "refused_data pcb")
    case None
    then show ?thesis using css(2) by (simp add: released_refl)
  next
    case (Some p)
    then obtain as where c1: "c1 = [as]" using css(2) by (cases c1) auto
    then have "held (pm w) (p # seg_pbufs (unsent pcb) @ seg_pbufs (unacked pcb)) (as # c2 @ c3)" using h Some by simp
    from free_held [OF this] show ?thesis using Some c1 by auto
  qed
  then obtain m1 where m1: "(case refused_data pcb of None \<Rightarrow> Some (pm w) | Some p \<Rightarrow> map_option snd (pbuf_free (Some p) (pm w))) = Some m1"
    "released (pm w) (concat c1) m1" by blast
  have h1: "held m1 (seg_pbufs (unsent pcb) @ seg_pbufs (unacked pcb)) (c2 @ c3)" using held_released [OF h css(2) m1(2)] .
  then have "held m1 (seg_pbufs (unsent pcb)) c2" using css(3) by (auto simp: held_def list_all2_append)
  then obtain m2 where m2: "tcp_segs_free (unsent pcb) m1 = Some m2" "released m1 (concat c2) m2"
    using segs_free_held assms(2) unfolding live_conn_def by blast
  have "held m2 (seg_pbufs (unacked pcb)) c3" using held_released [OF h1 css(3) m2(2)] .
  then obtain m3 where m3: "tcp_segs_free (unacked pcb) m2 = Some m3" "released m2 (concat c3) m3"
    using segs_free_held assms(2) unfolding live_conn_def by blast
  have "released (pm w) (concat css) m3" using released_trans [OF m1(2) released_trans [OF m2(2) m3(2)]] by (simp add: css(1))
  then show ?thesis using assms(1,2) m1(1) m2(1) m3(1) by (auto simp: tcp_pcb_purge_def live_conn_def)
qed

text \<open>The lists of listeners and of bound pcbs.\<close>

definition others_same :: "tcpw \<Rightarrow> tcpw \<Rightarrow> bool" where
  "others_same w w' \<longleftrightarrow> listen_pcbs w' = listen_pcbs w \<and> bound_pcbs w' = bound_pcbs w"

lemma others_same_trans: "others_same w w1 \<Longrightarrow> others_same w1 w2 \<Longrightarrow> others_same w w2"
  by (simp add: others_same_def)

lemma abort_spec:
  assumes "pcbs w a = Some pcb" "active_pcbs w = a # xs" "live_conn a pcb" "held (pm w) (pcb_pbufs pcb) css"
  shows "\<exists>w'. tcp_abort a w = Some w' \<and> pcbs w' = (pcbs w)(a := None) \<and> active_pcbs w' = xs \<and> tw_pcbs w' = tw_pcbs w \<and>
    calls w' = calls w @ abort_calls a pcb \<and> others_same w w' \<and>
    (\<exists>m. released (pm w) (concat css) m \<and> pm w' = m\<lparr>tabs := (tabs m)(MEMP_TCP_PCB := a # tabs m MEMP_TCP_PCB)\<rparr>)"
proof -
  obtain m where m: "tcp_pcb_purge a (w\<lparr>active_pcbs := xs\<rparr>) =
      Some (upd_pcb a (\<lambda>p. p\<lparr>refused_data := None, rtime := - 1, unsent := [], unacked := [], unsent_oversize := 0\<rparr>) (w\<lparr>active_pcbs := xs, pm := m\<rparr>))"
    "released (pm w) (concat css) m"
    using purge_spec [of "w\<lparr>active_pcbs := xs\<rparr>" a pcb css] assms by auto
  have live: "st pcb \<noteq> CLOSED" "st pcb \<noteq> LISTEN" "st pcb \<noteq> TIME_WAIT" "a mod MEM_ALIGNMENT = 0"
    using assms(3) by (auto simp: live_conn_def MEM_ALIGNMENT_def)
  show ?thesis
    using assms(1) live m(2)
    by (auto simp: tcp_abort_def tcp_abandon_def tcp_pcb_remove_active_def tcp_pcb_remove_def assms(2) m(1) assert_that_def
        tcp_free_def free_pcb_def memp_free_def do_memp_free_pool_def abort_calls_def set_flags_def others_same_def) (simp_all add: upd_pcb_def say_def)
qed

end
