(* ===== verification/Ip_Input.thy ===== *)
theory Ip_Input
  imports Udp_Pcb
begin

text \<open>
  The IP layer's input path, from lwIP's \<^verbatim>\<open>core/ip.c\<close>, \<^verbatim>\<open>core/ipv4/ip4.c\<close> and \<^verbatim>\<open>core/ipv6/ip6.c\<close>: header checks, trimming, the
  catch-all acceptance this program patches in, source filtering, fragments (dropped: no reassembly), IPv6 extension headers and
  the dispatch to UDP. The other transport modules (TCP, ICMP, ICMPv6) are the parameter \<open>upper\<close>, called with the protocol
  number. A read outside the first buffer of the packet is the result \<open>None\<close>.
\<close>

section \<open>Header fields\<close>

type_synonym 'e ipst = "pmem \<times> udps \<times> 'e"
type_synonym 'e upper = "u8 \<Rightarrow> nat \<Rightarrow> ip_globals \<Rightarrow> netif \<Rightarrow> 'e ipst \<Rightarrow> 'e ipst option"
type_synonym 'e recv = "nat \<Rightarrow> nat \<Rightarrow> nat \<Rightarrow> ip_addr_t \<Rightarrow> u16 \<Rightarrow> 'e ipst \<Rightarrow> 'e ipst option"

text \<open>The first \<open>n\<close> bytes of the payload may be read.\<close>

definition need :: "pbuf \<Rightarrow> nat \<Rightarrow> unit option" where
  "need pb n = assert_that (n \<le> unat (plen pb))"

definition word4 :: "pmem \<Rightarrow> nat \<Rightarrow> u32" where
  "word4 m a = le_or (rd m a 4) 0"

definition ip4_at :: "pmem \<Rightarrow> nat \<Rightarrow> ip_addr_t" where
  "ip4_at m a = \<lparr>u_addr = [word4 m a, 0, 0, 0], addr_type = IPADDR_TYPE_V4\<rparr>"

definition ip6_at :: "pmem \<Rightarrow> nat \<Rightarrow> ip_addr_t" where
  "ip6_at m a = \<lparr>u_addr = [word4 m a, word4 m (a + 4), word4 m (a + 8), word4 m (a + 12)], addr_type = IPADDR_TYPE_V6\<rparr>"

definition IP_HLEN :: nat where
  "IP_HLEN = 20"

definition IP6_HLEN :: nat where
  "IP6_HLEN = 40"

definition drop_packet :: "nat \<Rightarrow> 'e ipst \<Rightarrow> 'e ipst option" where
  "drop_packet p = (\<lambda>(m, u, e). do { (_, m) \<leftarrow> pbuf_free (Some p) m; Some (m, u, e) })"

definition netif_is_up :: "netif \<Rightarrow> bool" where
  "netif_is_up n \<longleftrightarrow> ni_flags n AND 0x01 \<noteq> 0"

section \<open>IPv4\<close>

definition ip4_input_accept :: "netif \<Rightarrow> u32 \<Rightarrow> bool" where
  "ip4_input_accept n dest =
    (if netif_is_up n \<and> ni_ip_addr n = 0 then True
     else if netif_is_up n \<and> ni_ip_addr n \<noteq> 0 then dest = ni_ip_addr n \<or> ip4_addr_isbroadcast_u32 dest n
     else False)"

text \<open>Whether the interface takes the packet: multicast needs a configured address.\<close>

definition ip4_for_us :: "netif \<Rightarrow> u32 \<Rightarrow> bool" where
  "ip4_for_us inp dest =
    (if ip4_addr_ismulticast dest then netif_is_up inp \<and> ni_ip_addr inp \<noteq> 0 else ip4_input_accept inp dest)"

definition ip4_dispatch :: "'e recv \<Rightarrow> 'e upper \<Rightarrow> u8 \<Rightarrow> nat \<Rightarrow> nat \<Rightarrow> ip_globals \<Rightarrow> netif \<Rightarrow> 'e ipst \<Rightarrow> 'e ipst option" where
  "ip4_dispatch recv upper proto hlen p ip inp = (\<lambda>(m, u, e). do {
     (_, m) \<leftarrow> pbuf_remove_header (Some p) hlen m;
     if proto = 17 then udp_input recv p ip inp (m, u, e)
     else if proto = 6 \<or> proto = 1 then upper proto p ip inp (m, u, e)
     else do {
       let dest = ip_2_ip4 (current_iphdr_dest ip);
       (m, u) \<leftarrow>
         (if \<not> ip4_addr_isbroadcast_u32 dest (current_netif ip) \<and> \<not> ip4_addr_ismulticast dest then do {
            (_, m) \<leftarrow> pbuf_header_force (Some p) (of_nat hlen) m;
            Some (m, u\<lparr>icmps := icmps u @ [Icmp_dest_unreach_proto p]\<rparr>)
          } else Some (m, u));
       drop_packet p (m, u, e)
     }
   })"

definition ip4_input :: "'e recv \<Rightarrow> 'e upper \<Rightarrow> nat \<Rightarrow> netif \<Rightarrow> 'e ipst \<Rightarrow> (err_t \<times> 'e ipst) option" where
  "ip4_input recv upper p inp = (\<lambda>(m, u, e). map_option (Pair ERR_OK) (do {
     pb \<leftarrow> pbufs m p;
     _ \<leftarrow> need pb 1;
     let h = payload pb;
     if drop_bit 4 (bytes m h) \<noteq> 4 then drop_packet p (m, u, e)
     else do {
       let hlen = unat (bytes m h AND 0x0f) * 4;
       _ \<leftarrow> need pb 4;
       let iplen = get_be16 m (h + 2);
       m \<leftarrow> (if iplen < tot_len pb then pbuf_realloc (Some p) iplen m else Some m);
       pb \<leftarrow> pbufs m p;
       if hlen > unat (plen pb) \<or> iplen > tot_len pb \<or> hlen < IP_HLEN then drop_packet p (m, u, e)
       else do {
         let dest = ip4_at m (h + 16);
         let src = ip4_at m (h + 12);
         if ip4_addr_isbroadcast_u32 (ip_2_ip4 src) inp \<or> ip4_addr_ismulticast (ip_2_ip4 src) then drop_packet p (m, u, e)
         else if \<not> ip4_for_us inp (ip_2_ip4 dest) then drop_packet p (m, u, e)
         else if get_be16 m (h + 6) AND 0x3fff \<noteq> 0 then drop_packet p (m, u, e)
         else if hlen > IP_HLEN then drop_packet p (m, u, e)
         else ip4_dispatch recv upper (bytes m (h + 9)) hlen p
           \<lparr>current_netif = inp, current_input_netif = inp, current_is_v6 = False, current_ip_header_tot_len = of_nat hlen,
            current_iphdr_src = src, current_iphdr_dest = dest\<rparr> inp (m, u, e)
       }
     }
   }))"

section \<open>IPv6 addresses\<close>

definition ip6_addr_isvalid :: "u8 \<Rightarrow> bool" where
  "ip6_addr_isvalid s \<longleftrightarrow> s AND 0x10 \<noteq> 0"

definition ip6_addr_isipv4mappedipv6 :: "u32 list \<Rightarrow> bool" where
  "ip6_addr_isipv4mappedipv6 a \<longleftrightarrow> a ! 0 = 0 \<and> a ! 1 = 0 \<and> a ! 2 = 0xffff0000"

definition ip6_addr_isallnodes_iflocal :: "u32 list \<Rightarrow> bool" where
  "ip6_addr_isallnodes_iflocal a \<longleftrightarrow> a ! 0 = 0x000001ff \<and> a ! 1 = 0 \<and> a ! 2 = 0 \<and> a ! 3 = 0x01000000"

definition ip6_addr_isallnodes_linklocal :: "u32 list \<Rightarrow> bool" where
  "ip6_addr_isallnodes_linklocal a \<longleftrightarrow> a ! 0 = 0x000002ff \<and> a ! 1 = 0 \<and> a ! 2 = 0 \<and> a ! 3 = 0x01000000"

definition ip6_addr_issolicitednode :: "u32 list \<Rightarrow> bool" where
  "ip6_addr_issolicitednode a \<longleftrightarrow> a ! 0 = 0x000002ff \<and> a ! 2 = 0x01000000 \<and> a ! 3 AND 0x000000ff = 0x000000ff"

definition ip6_addr_solicitednode_eq :: "u32 list \<Rightarrow> u32 list \<Rightarrow> bool" where
  "ip6_addr_solicitednode_eq a sn \<longleftrightarrow> a ! 0 = 0x000002ff \<and> a ! 1 = 0 \<and> a ! 2 = 0x01000000 \<and> a ! 3 = 0x000000ff OR sn ! 3"

definition ip6_slots :: "netif \<Rightarrow> (u32 list \<times> u8) list" where
  "ip6_slots n = zip (ni_ip6_addr n) (ni_ip6_addr_state n)"

definition ip6_input_accept :: "netif \<Rightarrow> u32 list \<Rightarrow> bool" where
  "ip6_input_accept n dest \<longleftrightarrow> netif_is_up n \<and>
     ((case ip6_slots n of [] \<Rightarrow> False | (a, s) # _ \<Rightarrow> ip6_addr_isvalid s \<and> a = [0, 0, 0, 0]) \<or>
      list_ex (\<lambda>(a, s). ip6_addr_isvalid s \<and> dest = a) (ip6_slots n))"

definition ip6_for_us :: "netif \<Rightarrow> u32 list \<Rightarrow> bool" where
  "ip6_for_us inp dest =
    (if ip6_addr_ismulticast dest then
       (if ip6_addr_isallnodes_iflocal dest \<or> ip6_addr_isallnodes_linklocal dest then True
        else if ip6_addr_issolicitednode dest then
          list_ex (\<lambda>(a, s). ip6_addr_isvalid s \<and> ip6_addr_solicitednode_eq dest a) (ip6_slots inp)
        else False)
     else ip6_input_accept inp dest)"

section \<open>IPv6 extension headers\<close>

text \<open>What the options of a header ask for: go on, or drop the packet, with an ICMP error about the option at an address or without.\<close>

datatype opt_verdict = Opts_ok | Opts_drop "nat option"

text \<open>
  The option loop of the hop-by-hop and the destination header at \<open>base\<close>; \<open>known\<close> are the option types that are skipped without a look
  at their action bits. The type and the length byte of an option must lie in the buffer.
\<close>

function opt_loop :: "u8 list \<Rightarrow> bool \<Rightarrow> pmem \<Rightarrow> pbuf \<Rightarrow> nat \<Rightarrow> nat \<Rightarrow> nat \<Rightarrow> opt_verdict option" where
  "opt_loop known mcast m pb base hlen off =
    (if off < hlen then do {
       _ \<leftarrow> need pb (off + 1);
       let ty = bytes m (base + off);
       let act = drop_bit 6 ty;
       if ty = 0 then opt_loop known mcast m pb base hlen (off + 1)
       else if ty \<in> set known \<or> act = 0 then do {
         _ \<leftarrow> need pb (off + 2);
         opt_loop known mcast m pb base hlen (off + 2 + unat (bytes m (base + off + 1)))
       }
       else if act = 1 then Some (Opts_drop None)
       else if act = 2 then Some (Opts_drop (Some (base + off)))
       else Some (Opts_drop (if mcast then None else Some (base + off)))
     } else Some Opts_ok)"
  by pat_completeness auto
termination by (relation "measure (\<lambda>(_, _, _, _, _, hlen, off). hlen - off)") auto

declare opt_loop.simps [simp del]

definition HBH_KNOWN :: "u8 list" where
  "HBH_KNOWN = [1, 5, 194]"

definition DEST_KNOWN :: "u8 list" where
  "DEST_KNOWN = [1, 5, 194, 201]"

text \<open>The loop over the extension headers leaves the next header type, the address it was read from and the total header length.\<close>

datatype ext_result = Ext_done u8 nat u16 | Ext_dropped

definition param_problem :: "nat \<Rightarrow> u8 \<Rightarrow> nat \<Rightarrow> udps \<Rightarrow> udps" where
  "param_problem p code ptr u = u\<lparr>icmps := icmps u @ [Icmp6_param_problem p code ptr]\<rparr>"

definition ext_drop :: "nat \<Rightarrow> 'e ipst \<Rightarrow> (ext_result \<times> 'e ipst) option" where
  "ext_drop p s = map_option (Pair Ext_dropped) (drop_packet p s)"

text \<open>One hop-by-hop or destination options header: the new total length, or the packet is dropped.\<close>

definition options_header :: "u8 list \<Rightarrow> bool \<Rightarrow> nat \<Rightarrow> u16 \<Rightarrow> 'e ipst \<Rightarrow> (u16 option \<times> 'e ipst) option" where
  "options_header known mcast p hlen_tot = (\<lambda>(m, u, e). do {
     pb \<leftarrow> pbufs m p;
     _ \<leftarrow> need pb 2;
     let h = payload pb;
     let hlen = 8 * (1 + unat (bytes m (h + 1)));
     if unat (plen pb) < 8 \<or> hlen > unat (plen pb) then map_option (Pair None) (drop_packet p (m, u, e))
     else do {
       v \<leftarrow> opt_loop known mcast m pb h hlen 2;
       case v of
         Opts_drop ptr \<Rightarrow> map_option (Pair None)
           (drop_packet p (m, case ptr of None \<Rightarrow> u | Some a \<Rightarrow> param_problem p 2 a u, e))
       | Opts_ok \<Rightarrow> do { (_, m) \<leftarrow> pbuf_remove_header (Some p) hlen m; Some (Some (hlen_tot + of_nat hlen), m, u, e) }
     }
   })"

definition routing_header :: "nat \<Rightarrow> u16 \<Rightarrow> 'e ipst \<Rightarrow> (u16 option \<times> 'e ipst) option" where
  "routing_header p hlen_tot = (\<lambda>(m, u, e). do {
     pb \<leftarrow> pbufs m p;
     _ \<leftarrow> need pb 2;
     let h = payload pb;
     let hlen = 8 * (1 + unat (bytes m (h + 1)));
     if unat (plen pb) < 8 \<or> hlen > unat (plen pb) then map_option (Pair None) (drop_packet p (m, u, e))
     else if bytes m (h + 3) \<noteq> 0 \<and> bytes m (h + 1) AND 1 \<noteq> 0 then
       map_option (Pair None) (drop_packet p (m, param_problem p 0 (h + 1) u, e))
     else if bytes m (h + 3) \<noteq> 0 \<and> bytes m (h + 2) \<noteq> 2 \<and> bytes m (h + 2) \<noteq> 3 then
       map_option (Pair None) (drop_packet p (m, param_problem p 0 (h + 2) u, e))
     else do { (_, m) \<leftarrow> pbuf_remove_header (Some p) hlen m; Some (Some (hlen_tot + of_nat hlen), m, u, e) }
   })"

definition fragment_header :: "nat \<Rightarrow> nat \<Rightarrow> u16 \<Rightarrow> 'e ipst \<Rightarrow> (u16 option \<times> 'e ipst) option" where
  "fragment_header ip6hdr p hlen_tot = (\<lambda>(m, u, e). do {
     pb \<leftarrow> pbufs m p;
     let h = payload pb;
     if 8 > unat (plen pb) then map_option (Pair None) (drop_packet p (m, u, e))
     else if get_be16 m (h + 2) AND 1 \<noteq> 0 \<and> get_be16 m (ip6hdr + 4) AND 7 \<noteq> 0 then
       map_option (Pair None) (drop_packet p (m, param_problem p 0 (ip6hdr + 4) u, e))
     else if get_be16 m (h + 2) AND 0xfff9 = 0 then
       do { (_, m) \<leftarrow> pbuf_remove_header (Some p) 8 m; Some (Some (hlen_tot + 8), m, u, e) }
     else map_option (Pair None) (drop_packet p (m, u, e))
   })"

partial_function (option) ext_loop :: "nat \<Rightarrow> bool \<Rightarrow> nat \<Rightarrow> nat \<Rightarrow> u16 \<Rightarrow> 'e ipst \<Rightarrow> (ext_result \<times> 'e ipst) option" where
  "ext_loop ip6hdr mcast p nexth hlen_tot s =
    (let ty = bytes (fst s) nexth in
     if ty = 0 \<or> ty = 60 \<or> ty = 43 \<or> ty = 44 then do {
       pb \<leftarrow> pbufs (fst s) p;
       let h = payload pb;
       (r, s) \<leftarrow> (if ty = 0 then options_header HBH_KNOWN mcast p hlen_tot s
                  else if ty = 60 then options_header DEST_KNOWN mcast p hlen_tot s
                  else if ty = 43 then routing_header p hlen_tot s
                  else fragment_header ip6hdr p hlen_tot s);
       case r of
         None \<Rightarrow> Some (Ext_dropped, s)
       | Some tot \<Rightarrow>
           if bytes (fst s) h = 0 then ext_drop p (fst s, param_problem p 1 h (fst (snd s)), snd (snd s))
           else ext_loop ip6hdr mcast p h tot s
     } else Some (Ext_done ty nexth hlen_tot, s))"

section \<open>IPv6\<close>

definition ip6_dispatch :: "'e recv \<Rightarrow> 'e upper \<Rightarrow> u8 \<Rightarrow> nat \<Rightarrow> nat \<Rightarrow> nat \<Rightarrow> ip_globals \<Rightarrow> netif \<Rightarrow> 'e ipst \<Rightarrow> 'e ipst option" where
  "ip6_dispatch recv upper ty nexth ip6hdr p ip inp = (\<lambda>(m, u, e).
     if ty = 59 then drop_packet p (m, u, e)
     else if ty = 17 then udp_input recv p ip inp (m, u, e)
     else if ty = 6 \<or> ty = 58 then upper ty p ip inp (m, u, e)
     else do {
       (_, m) \<leftarrow> pbuf_add_header_force (Some p) (unat (current_ip_header_tot_len ip)) m;
       let u = (if \<not> ip6_addr_ismulticast (ip_2_ip6 (current_iphdr_dest ip)) \<and> bytes m (ip6hdr + 6) \<noteq> 58
                then param_problem p 1 nexth u else u);
       drop_packet p (m, u, e)
     })"

definition ip6_input :: "'e recv \<Rightarrow> 'e upper \<Rightarrow> nat \<Rightarrow> netif \<Rightarrow> 'e ipst \<Rightarrow> (err_t \<times> 'e ipst) option" where
  "ip6_input recv upper p inp = (\<lambda>(m, u, e). map_option (Pair ERR_OK) (do {
     pb \<leftarrow> pbufs m p;
     _ \<leftarrow> need pb 4;
     let h = payload pb;
     if drop_bit 4 (bytes m h) \<noteq> 6 then drop_packet p (m, u, e)
     else if IP6_HLEN > unat (plen pb) \<or> unat (get_be16 m (h + 4)) + IP6_HLEN > unat (tot_len pb) then drop_packet p (m, u, e)
     else do {
       m \<leftarrow> pbuf_realloc (Some p) (of_nat IP6_HLEN + get_be16 m (h + 4)) m;
       let src = ip6_at m (h + 8);
       let dest = ip6_at m (h + 24);
       if ip6_addr_isipv4mappedipv6 (ip_2_ip6 dest) \<or> ip6_addr_isipv4mappedipv6 (ip_2_ip6 src) \<or> ip6_addr_ismulticast (ip_2_ip6 src)
       then drop_packet p (m, u, e)
       else if ip_2_ip6 src = [0, 0, 0, 0] \<and> \<not> ip6_addr_issolicitednode (ip_2_ip6 dest) then drop_packet p (m, u, e)
       else if \<not> ip6_for_us inp (ip_2_ip6 dest) then drop_packet p (m, u, e)
       else do {
         (_, m) \<leftarrow> pbuf_remove_header (Some p) IP6_HLEN m;
         (r, m, u, e) \<leftarrow> ext_loop h (ip6_addr_ismulticast (ip_2_ip6 dest)) p (h + 6) (of_nat IP6_HLEN) (m, u, e);
         case r of
           Ext_dropped \<Rightarrow> Some (m, u, e)
         | Ext_done ty nexth hlen_tot \<Rightarrow> ip6_dispatch recv upper ty nexth h p
             \<lparr>current_netif = inp, current_input_netif = inp, current_is_v6 = True, current_ip_header_tot_len = hlen_tot,
              current_iphdr_src = src, current_iphdr_dest = dest\<rparr> inp (m, u, e)
       }
     }
   }))"

definition ip_input :: "'e recv \<Rightarrow> 'e upper \<Rightarrow> nat \<Rightarrow> netif \<Rightarrow> 'e ipst \<Rightarrow> (err_t \<times> 'e ipst) option" where
  "ip_input recv upper p inp = (\<lambda>(m, u, e). do {
     pb \<leftarrow> pbufs m p;
     _ \<leftarrow> need pb 1;
     if drop_bit 4 (bytes m (payload pb)) = 6 then ip6_input recv upper p inp (m, u, e) else ip4_input recv upper p inp (m, u, e)
   })"

end
