(* ===== verification/Bridge.thy ===== *)
theory Bridge
  imports Tcp_Pcb Ip_Input
begin

text \<open>
  The program's glue between lwIP and the application, \<^verbatim>\<open>lwip/lwip_bridge.c\<close>: the callbacks lwIP calls, the functions the Java side
  calls, and the file's static variables. The application's callback pointers are either null or set, hence truth values; what
  they are called with is recorded in call order in the field \<open>app\<close>, and the one result that matters, the connection handle that
  the accept callback returns, is given by the parameter \<open>accept_fn\<close>. An error callback that lwIP's TCP code logs is dispatched to
  \<^verbatim>\<open>tcp_err_cb\<close> when the TCP operation ends; it is the last thing such an operation does.
\<close>

section \<open>State\<close>

datatype app_call =
    App_output "u8 list" bool
  | App_tcp_accept "u8 list" u16 "u8 list" u16 bool nat
  | App_tcp_recv nat "u8 list"
  | App_tcp_sent nat u16
  | App_tcp_err nat err_t
  | App_udp_recv "u8 list" u16 "u8 list" u16 bool "u8 list"

record bridge =
  tw :: tcpw
  us :: udps
  tun_netif :: netif
  s_output_fn :: bool
  s_tcp_accept_fn :: bool
  s_tcp_recv_fn :: bool
  s_tcp_sent_fn :: bool
  s_tcp_err_fn :: bool
  s_udp_recv_fn :: bool
  tcp_listen_pcb_v4 :: "nat option"
  tcp_listen_pcb_v6 :: "nat option"
  udp_listen_pcb_v4 :: "nat option"
  udp_listen_pcb_v6 :: "nat option"
  s_current_udp_dst_port :: u16
  s_current_udp_dst_ip :: ip_addr_t
  app :: "app_call list"
  ip_id :: u16
  default_netif :: bool
  initialized :: bool

definition mem_of :: "bridge \<Rightarrow> pmem" where
  "mem_of b = pm (tw b)"

definition set_mem :: "pmem \<Rightarrow> bridge \<Rightarrow> bridge" where
  "set_mem m b = b\<lparr>tw := (tw b)\<lparr>pm := m\<rparr>\<rparr>"

definition call_app :: "app_call \<Rightarrow> bridge \<Rightarrow> bridge" where
  "call_app c b = b\<lparr>app := app b @ [c]\<rparr>"

section \<open>The setters\<close>

definition lwip_bridge_set_output_fn :: "bool \<Rightarrow> bridge \<Rightarrow> bridge" where
  "lwip_bridge_set_output_fn f b = b\<lparr>s_output_fn := f\<rparr>"

definition lwip_bridge_set_tcp_accept_fn :: "bool \<Rightarrow> bridge \<Rightarrow> bridge" where
  "lwip_bridge_set_tcp_accept_fn f b = b\<lparr>s_tcp_accept_fn := f\<rparr>"

definition lwip_bridge_set_tcp_recv_fn :: "bool \<Rightarrow> bridge \<Rightarrow> bridge" where
  "lwip_bridge_set_tcp_recv_fn f b = b\<lparr>s_tcp_recv_fn := f\<rparr>"

definition lwip_bridge_set_tcp_sent_fn :: "bool \<Rightarrow> bridge \<Rightarrow> bridge" where
  "lwip_bridge_set_tcp_sent_fn f b = b\<lparr>s_tcp_sent_fn := f\<rparr>"

definition lwip_bridge_set_tcp_err_fn :: "bool \<Rightarrow> bridge \<Rightarrow> bridge" where
  "lwip_bridge_set_tcp_err_fn f b = b\<lparr>s_tcp_err_fn := f\<rparr>"

definition lwip_bridge_set_udp_recv_fn :: "bool \<Rightarrow> bridge \<Rightarrow> bridge" where
  "lwip_bridge_set_udp_recv_fn f b = b\<lparr>s_udp_recv_fn := f\<rparr>"

section \<open>Callbacks from lwIP\<close>

text \<open>
  The bytes of a chain in one piece: the payload itself for a single buffer, otherwise a heap copy that is given back after
  the call; \<open>None\<close> in the result is a failed allocation.
\<close>

definition flat_bytes :: "mallocf \<Rightarrow> nat \<Rightarrow> pmem \<Rightarrow> (u8 list option \<times> pmem) option" where
  "flat_bytes malloc p m = do {
     pb \<leftarrow> pbufs m p;
     case pnext pb of
       None \<Rightarrow> Some (Some (rd m (payload pb) (unat (tot_len pb))), m)
     | Some _ \<Rightarrow> do {
         (buf, m) \<leftarrow> mem_malloc malloc (unat (tot_len pb)) m;
         case buf of
           None \<Rightarrow> Some (None, m)
         | Some a \<Rightarrow> do {
             (_, d) \<leftarrow> pbuf_copy_partial m (Some p) (Some (rd m a (unat (tot_len pb)))) (tot_len pb) 0;
             bs \<leftarrow> d;
             m \<leftarrow> mem_free a (wr a bs m);
             Some (Some bs, m)
           }
       }
   }"

definition netif_output_ip4 :: "mallocf \<Rightarrow> nat option \<Rightarrow> bridge \<Rightarrow> (err_t \<times> bridge) option" where
  "netif_output_ip4 malloc p b =
    (case p of
       Some a \<Rightarrow> if s_output_fn b then do {
           (d, m) \<leftarrow> flat_bytes malloc a (mem_of b);
           let b = set_mem m b;
           Some (ERR_OK, case d of None \<Rightarrow> b | Some bs \<Rightarrow> call_app (App_output bs False) b)
         } else Some (ERR_OK, b)
     | None \<Rightarrow> Some (ERR_OK, b))"

definition netif_output_ip6 :: "mallocf \<Rightarrow> nat option \<Rightarrow> bridge \<Rightarrow> (err_t \<times> bridge) option" where
  "netif_output_ip6 malloc p b =
    (case p of
       Some a \<Rightarrow> if s_output_fn b then do {
           (d, m) \<leftarrow> flat_bytes malloc a (mem_of b);
           let b = set_mem m b;
           Some (ERR_OK, case d of None \<Rightarrow> b | Some bs \<Rightarrow> call_app (App_output bs True) b)
         } else Some (ERR_OK, b)
     | None \<Rightarrow> Some (ERR_OK, b))"

definition ip_addr_to_bytes :: "ip_addr_t \<Rightarrow> u8 list \<times> bool" where
  "ip_addr_to_bytes addr =
    (if IP_IS_V6 addr then (concat (map (le_bytes 4) (ip_2_ip6 addr)), True) else (le_bytes 4 (ip_2_ip4 addr), False))"

definition bind_pcb_to_conn :: "nat \<Rightarrow> nat \<Rightarrow> tcpw \<Rightarrow> tcpw option" where
  "bind_pcb_to_conn npcb conn w = do {
     let w = tcp_arg npcb conn w;
     w \<leftarrow> tcp_recv npcb True w;
     w \<leftarrow> tcp_sent npcb True w;
     w \<leftarrow> tcp_err npcb True w;
     Some (upd_pcb npcb (set_flags TF_NODELAY) w)
   }"

definition tcp_err_cb :: "nat \<Rightarrow> err_t \<Rightarrow> bridge \<Rightarrow> bridge" where
  "tcp_err_cb arg err b = (if arg \<noteq> 0 \<and> s_tcp_err_fn b then call_app (App_tcp_err arg err) b else b)"

text \<open>Running a TCP operation: the error callbacks it logged reach the bridge in order.\<close>

fun dispatch_call :: "bridge \<Rightarrow> tcp_call \<Rightarrow> bridge" where
  "dispatch_call b (Errf arg err) = tcp_err_cb arg err b"
| "dispatch_call b _ = b"

definition run_tcp :: "(tcpw \<Rightarrow> tcpw option) \<Rightarrow> bridge \<Rightarrow> bridge option" where
  "run_tcp f b = do {
     w \<leftarrow> f (tw b);
     Some (foldl dispatch_call (b\<lparr>tw := w\<rparr>) (drop (length (calls (tw b))) (calls w)))
   }"

definition tcp_accept_cb :: "(app_call \<Rightarrow> nat) \<Rightarrow> nat option \<Rightarrow> bridge \<Rightarrow> (err_t \<times> bridge) option" where
  "tcp_accept_cb accept_fn newpcb b =
    (case newpcb of
       Some a \<Rightarrow> if s_tcp_accept_fn b then do {
           pcb \<leftarrow> pcbs (tw b) a;
           let (src_bytes, _) = ip_addr_to_bytes (remote_ip pcb);
           let (dst_bytes, is_ipv6) = ip_addr_to_bytes (local_ip pcb);
           let c = App_tcp_accept src_bytes (remote_port pcb) dst_bytes (local_port pcb) is_ipv6 a;
           let b = call_app c b;
           if accept_fn c = 0 then do { b \<leftarrow> run_tcp (tcp_abort a) b; Some (ERR_ABRT, b) }
           else do { b \<leftarrow> run_tcp (bind_pcb_to_conn a (accept_fn c)) b; Some (ERR_OK, b) }
         } else Some (ERR_ABRT, b)
     | None \<Rightarrow> Some (ERR_ABRT, b))"

definition free_in :: "nat \<Rightarrow> bridge \<Rightarrow> bridge option" where
  "free_in p b = do { (_, m) \<leftarrow> pbuf_free (Some p) (mem_of b); Some (set_mem m b) }"

definition tcp_recv_cb :: "mallocf \<Rightarrow> nat \<Rightarrow> nat option \<Rightarrow> bridge \<Rightarrow> (err_t \<times> bridge) option" where
  "tcp_recv_cb malloc arg p b =
    (if arg = 0 then do {
       b \<leftarrow> (case p of None \<Rightarrow> Some b | Some a \<Rightarrow> free_in a b);
       Some (ERR_ABRT, b)
     }
     else case p of
       None \<Rightarrow> Some (ERR_OK, if s_tcp_recv_fn b then call_app (App_tcp_recv arg []) b else b)
     | Some a \<Rightarrow>
         if s_tcp_recv_fn b then do {
           (d, m) \<leftarrow> flat_bytes malloc a (mem_of b);
           let b = set_mem m b;
           case d of
             None \<Rightarrow> Some (ERR_MEM, b)
           | Some bs \<Rightarrow> do { b \<leftarrow> free_in a (call_app (App_tcp_recv arg bs) b); Some (ERR_OK, b) }
         } else do { b \<leftarrow> free_in a b; Some (ERR_OK, b) })"

definition tcp_sent_cb :: "nat \<Rightarrow> u16 \<Rightarrow> bridge \<Rightarrow> err_t \<times> bridge" where
  "tcp_sent_cb arg len b = (ERR_OK, if arg \<noteq> 0 \<and> s_tcp_sent_fn b then call_app (App_tcp_sent arg len) b else b)"

text \<open>The datagram callback runs inside \<^verbatim>\<open>udp_input\<close>, on the memory and UDP state in flight there.\<close>

definition udp_recv_cb :: "mallocf \<Rightarrow> nat option \<Rightarrow> ip_addr_t \<Rightarrow> u16 \<Rightarrow> bridge ipst \<Rightarrow> bridge ipst option" where
  "udp_recv_cb malloc p addr port = (\<lambda>(m, u, b).
    (case p of
       None \<Rightarrow> Some (m, u, b)
     | Some a \<Rightarrow>
         if \<not> s_udp_recv_fn b then drop_packet a (m, u, b)
         else do {
           let (src_bytes, _) = ip_addr_to_bytes addr;
           let (dst_bytes, is_ipv6) = ip_addr_to_bytes (s_current_udp_dst_ip b);
           (d, m) \<leftarrow> flat_bytes malloc a m;
           let b = (case d of None \<Rightarrow> b
                    | Some bs \<Rightarrow> call_app (App_udp_recv src_bytes port dst_bytes (s_current_udp_dst_port b) is_ipv6 bs) b);
           drop_packet a (m, u, b)
         }))"

section \<open>Calls from Java\<close>

partial_function (option) abort_active_loop :: "bridge \<Rightarrow> bridge option" where
  "abort_active_loop b =
    (case active_pcbs (tw b) of
       [] \<Rightarrow> Some b
     | a # _ \<Rightarrow> do { b \<leftarrow> run_tcp (tcp_abort a) b; abort_active_loop b })"

partial_function (option) free_tw_loop :: "bridge \<Rightarrow> bridge option" where
  "free_tw_loop b =
    (case tw_pcbs (tw b) of
       [] \<Rightarrow> Some b
     | a # _ \<Rightarrow> do { b \<leftarrow> run_tcp (\<lambda>w. do { w \<leftarrow> tcp_pcb_remove Tw a w; tcp_free a w }) b; free_tw_loop b })"

definition lwip_bridge_abort_all_tcp :: "bridge \<Rightarrow> bridge option" where
  "lwip_bridge_abort_all_tcp b = do { b \<leftarrow> abort_active_loop b; free_tw_loop b }"

text \<open>The packet's UDP destination, remembered for the callback; the first component says whether processing goes on.\<close>

definition capture_udp_dst :: "nat \<Rightarrow> int \<Rightarrow> bridge \<Rightarrow> (bool \<times> bridge) option" where
  "capture_udp_dst data len b = do {
     let m = mem_of b;
     let pkt = (\<lambda>i. if int i < len then Some (bytes m (data + i)) else None);
     v \<leftarrow> pkt 0;
     let version = drop_bit 4 v AND 0x0f;
     if version = 4 \<and> len \<ge> 20 then do {
       proto \<leftarrow> pkt 9;
       let ihl = unat ((v AND 0x0f) * 4);
       if proto = 17 \<and> len \<ge> int ihl + 8 then do {
         hi \<leftarrow> pkt (ihl + 2);
         lo \<leftarrow> pkt (ihl + 3);
         _ \<leftarrow> pkt 19;
         Some (True, b\<lparr>s_current_udp_dst_port := push_bit 8 (ucast hi) OR ucast lo, s_current_udp_dst_ip := ip4_at m (data + 16)\<rparr>)
       } else Some (True, b)
     }
     else if version = 6 \<and> len \<ge> 40 then do {
       proto \<leftarrow> pkt 6;
       if proto = 17 \<and> len \<ge> 48 then do {
         hi \<leftarrow> pkt 42;
         lo \<leftarrow> pkt 43;
         _ \<leftarrow> pkt 39;
         Some (True, b\<lparr>s_current_udp_dst_port := push_bit 8 (ucast hi) OR ucast lo, s_current_udp_dst_ip := ip6_at m (data + 24)\<rparr>)
       } else Some (True, b)
     }
     else Some (False, b)
   }"

definition lwip_bridge_input :: "mallocf \<Rightarrow> bridge upper \<Rightarrow> nat \<Rightarrow> int \<Rightarrow> bridge \<Rightarrow> bridge option" where
  "lwip_bridge_input malloc upper data len b =
    (if data = 0 \<or> len \<le> 0 then Some b
     else do {
       (ok, b) \<leftarrow> capture_udp_dst data len b;
       if \<not> ok then Some b
       else do {
         (p, m) \<leftarrow> pbuf_alloc_reference data (word_of_int len) PBUF_REF (mem_of b);
         case p of
           None \<Rightarrow> Some (set_mem m b)
         | Some a \<Rightarrow> do {
             (err, m, u, b) \<leftarrow> ip_input (\<lambda>_ _ q. udp_recv_cb malloc (Some q)) upper a (tun_netif b) (m, us b, b);
             let b = (set_mem m b)\<lparr>us := u\<rparr>;
             if err \<noteq> ERR_OK then free_in a b else Some b
           }
       }
     })"

definition lwip_bridge_tcp_write :: "(nat \<Rightarrow> u8 list \<Rightarrow> tcpw \<Rightarrow> (err_t \<times> tcpw) option) \<Rightarrow> nat \<Rightarrow> u8 list \<Rightarrow> bridge \<Rightarrow> (err_t \<times> bridge) option" where
  "lwip_bridge_tcp_write tcp_write pcb data b = do { (err, w) \<leftarrow> tcp_write pcb data (tw b); Some (err, b\<lparr>tw := w\<rparr>) }"

definition lwip_bridge_tcp_output :: "nat \<Rightarrow> bridge \<Rightarrow> bridge option" where
  "lwip_bridge_tcp_output pcb b = run_tcp (\<lambda>w. Some (say [Output pcb] w)) b"

definition lwip_bridge_tcp_recved :: "nat \<Rightarrow> u16 \<Rightarrow> bridge \<Rightarrow> bridge option" where
  "lwip_bridge_tcp_recved pcb len b = run_tcp (tcp_recved pcb len) b"

definition unbind_pcb :: "nat \<Rightarrow> tcpw \<Rightarrow> tcpw option" where
  "unbind_pcb pcb w = do {
     let w = tcp_arg pcb 0 w;
     w \<leftarrow> tcp_recv pcb False w;
     w \<leftarrow> tcp_sent pcb False w;
     tcp_err pcb False w
   }"

definition lwip_bridge_tcp_close :: "(nat \<Rightarrow> tcpw \<Rightarrow> err_t \<times> tcpw) \<Rightarrow> nat \<Rightarrow> bridge \<Rightarrow> bridge option" where
  "lwip_bridge_tcp_close send_fin pcb b = run_tcp (\<lambda>w. do {
     w \<leftarrow> unbind_pcb pcb w;
     (err, w) \<leftarrow> tcp_close send_fin pcb w;
     if err \<noteq> ERR_OK then tcp_abort pcb w else Some w
   }) b"

definition lwip_bridge_tcp_abort :: "nat \<Rightarrow> bridge \<Rightarrow> bridge option" where
  "lwip_bridge_tcp_abort pcb b = run_tcp (\<lambda>w. do { w \<leftarrow> unbind_pcb pcb w; tcp_abort pcb w }) b"

definition lwip_bridge_tcp_sndbuf :: "nat \<Rightarrow> bridge \<Rightarrow> u16 option" where
  "lwip_bridge_tcp_sndbuf pcb b = map_option (\<lambda>p. ucast (min (snd_buf p) 0xFFFF)) (pcbs (tw b) pcb)"

definition lwip_bridge_tcp_snd_queuelen :: "nat \<Rightarrow> bridge \<Rightarrow> u16 option" where
  "lwip_bridge_tcp_snd_queuelen pcb b = map_option snd_queuelen (pcbs (tw b) pcb)"

end
