(* ===== verification/Bridge_Data.thy ===== *)
theory Bridge_Data
  imports Bridge
begin

text \<open>
  How the bridge hands packet data to the application: a chain of buffers reaches the callback as one byte sequence, copied to
  a heap block when it has more than one buffer, and the block is given back. Shared by the TCP, UDP and output callbacks.
\<close>

section \<open>State access\<close>

lemma mem_simps [simp]:
  "mem_of (set_mem m b) = m" "mem_of (call_app c b) = mem_of b" "set_mem m (set_mem m' b) = set_mem m b"
  "set_mem m (call_app c (set_mem m' b)) = set_mem m (call_app c b)" "set_mem (mem_of b) b = b"
  "app (call_app c b) = app b @ [c]" "app (set_mem m b) = app b"
  by (simp_all add: mem_of_def set_mem_def call_app_def)

section \<open>Flattening a chain\<close>

text \<open>What the C library promises of \<^verbatim>\<open>malloc\<close>: an aligned block that is not in use, or a null pointer.\<close>

definition good_malloc :: "mallocf \<Rightarrow> bool" where
  "good_malloc malloc \<longleftrightarrow> (\<forall>m n a. malloc m n = Some a \<longrightarrow> a \<noteq> 0 \<and> a mod 8 = 0 \<and> heap m a = None)"

text \<open>The memory after the data was handed over: only the temporary copy was written.\<close>

definition flat_mem :: "mallocf \<Rightarrow> nat list \<Rightarrow> pmem \<Rightarrow> pmem" where
  "flat_mem malloc as m =
    (if length as \<le> 1 then m else case malloc m (lens m as) of None \<Rightarrow> m | Some a \<Rightarrow> wr a (contents m as) m)"

text \<open>The data handed over, or nothing when a copy is needed and there is no memory for it.\<close>

definition flat_data :: "mallocf \<Rightarrow> nat list \<Rightarrow> pmem \<Rightarrow> u8 list option" where
  "flat_data malloc as m = (if 1 < length as \<and> malloc m (lens m as) = None then None else Some (contents m as))"

lemma flat_mem_frame:
  "pbufs (flat_mem malloc as m) = pbufs m" "tabs (flat_mem malloc as m) = tabs m" "heap (flat_mem malloc as m) = heap m"
  by (simp_all add: flat_mem_def split: option.splits)

lemma flat_spec:
  assumes "good_malloc malloc" "packet m (Some p) as"
  shows "flat_bytes malloc p m = Some (flat_data malloc as m, flat_mem malloc as m)"
proof -
  obtain cs where as: "as = p # cs" using assms(2) by (cases as) (auto simp: packet_def)
  obtain pb :: pbuf where pb: "pbufs m p = Some pb" "packet m (pnext pb) cs" "unat (tot_len pb) = lens m as"
    "seg m p = rd m (payload pb) (unat (plen pb))" "seg_len m p = unat (plen pb)"
    using assms(2) unfolding as by (rule packet_ConsE) simp
  show ?thesis
  proof (cases "pnext pb")
    case None
    then have "cs = []" using pb(2) by (cases cs) (auto simp: packet_def)
    then show ?thesis using pb None by (simp add: flat_bytes_def flat_data_def flat_mem_def as)
  next
    case (Some q)
    then have long: "1 < length as" "\<not> length as \<le> 1" using pb(2) by (auto simp: packet_def as Suc_le_eq)
    show ?thesis
    proof (cases "malloc m (lens m as)")
      case None
      then show ?thesis using pb Some long by (simp add: flat_bytes_def flat_data_def flat_mem_def mem_malloc_def del: lens_simps)
    next
      case (Some a)
      have a: "a \<noteq> 0" "a mod 8 = 0" "heap m a = None" using assms(1) Some by (auto simp: good_malloc_def)
      let ?m = "m\<lparr>heap := (heap m)(a \<mapsto> lens m as)\<rparr>"
      let ?dst = "rd ?m a (lens m as)"
      have c: "contents ?m as = contents m as" by (rule contents_cong) simp_all
      then have w: "window ?m as (unat (0 :: u16)) (unat (tot_len pb)) = contents m as" using pb(3) by (simp add: window_def del: contents_simps)
      have "chain ?m (Some p) as" using assms(2) chain_cong [of as m ?m] by (simp add: packet_def)
      then have "pbuf_copy_partial ?m (Some p) (Some ?dst) (tot_len pb) 0 = Some (of_nat (lens m as), Some (contents m as))"
        using copy_partial_spec [of ?m p as 0 "tot_len pb" ?dst] w by (simp add: blit_def del: contents_simps lens_simps)
      moreover have "mem_malloc malloc (lens m as) m = Some (Some a, ?m)" using Some a by (simp add: mem_malloc_def align_self)
      moreover have "mem_free a (wr a (contents m as) ?m) = Some (wr a (contents m as) m)"
        using a by (simp add: mem_free_def align_self wr_def fun_upd_idem cong: if_cong)
      ultimately show ?thesis
        using pb \<open>pnext pb = Some q\<close> long Some by (simp add: flat_bytes_def flat_data_def flat_mem_def del: contents_simps lens_simps)
    qed
  qed
qed

lemma chain_flat: "chain (flat_mem malloc as m) p bs = chain m p bs"
  by (rule chain_cong) (simp add: flat_mem_frame)

lemma owned_flat: "owned (flat_mem malloc as m) a = owned m a"
  by (rule owned_cong) (simp_all add: flat_mem_frame)

text \<open>A packet that is handed over and then given up.\<close>

lemma flat_free:
  assumes "packet m (Some p) as" "\<forall>a \<in> set as. owned m a"
  shows "\<exists>k m'. pbuf_free (Some p) (flat_mem malloc as m) = Some (k, m') \<and> freed (flat_mem malloc as m) as m'"
  using free_spec [of "flat_mem malloc as m" p as] assms by (auto simp: chain_flat owned_flat packet_def)

section \<open>A sample state\<close>

text \<open>A stack with one connection that holds a refused chain of two buffers, and one connection in \<^verbatim>\<open>TIME_WAIT\<close>.\<close>

definition sample_conn :: "tcp_state \<Rightarrow> nat option \<Rightarrow> tcp_pcb" where
  "sample_conn s p = zero_pcb\<lparr>local_ip := \<lparr>u_addr = [1, 0, 0, 0], addr_type = 0\<rparr>, remote_ip := \<lparr>u_addr = [2, 0, 0, 0], addr_type = 0\<rparr>,
     callback_arg := 77, st := s, local_port := 80, remote_port := 5000, rcv_nxt := 10, rcv_wnd := 0xFFFF, rcv_ann_wnd := 0xFFFF,
     rcv_ann_right_edge := 0x10009, mss := 1460, snd_nxt := 20, snd_buf := 0x20000, refused_data := p, sent_cb := True, recv_cb := True,
     err_cb := True\<rparr>"

definition sample_tcpw :: tcpw where
  "sample_tcpw = \<lparr>pm = sample_mem, pcbs = [0x4000 \<mapsto> sample_conn ESTABLISHED (Some 0x1000), 0x4100 \<mapsto> sample_conn TIME_WAIT None],
     active_pcbs = [0x4000], tw_pcbs = [0x4100], bound_pcbs = [], listen_pcbs = [], active_changed = False, input_pcb = None,
     recv_flags = 0, calls = [], tcp_ticks = 0, tcp_timer_ctr = 0, tcp_timer = 0, tcp_port = 0xc000\<rparr>"

definition sample_bridge :: bridge where
  "sample_bridge = \<lparr>tw = sample_tcpw, us = sample_udp,
     tun_netif = \<lparr>ni_ip_addr = 0, ni_netmask = 0, ni_ip6_addr = [[0, 0, 0, 0]], ni_ip6_addr_state = [0x10], ni_flags = 1, ni_num = 0, ni_gw = 0, ni_mtu = 1500, ni_driver = True, ni_rs_count = 0\<rparr>,
     s_output_fn = True, s_tcp_accept_fn = True, s_tcp_recv_fn = True, s_tcp_sent_fn = True, s_tcp_err_fn = True, s_udp_recv_fn = True,
     tcp_listen_pcb_v4 = None, tcp_listen_pcb_v6 = None, udp_listen_pcb_v4 = Some 0x40, udp_listen_pcb_v6 = None,
     s_current_udp_dst_port = 0, s_current_udp_dst_ip = \<lparr>u_addr = [0, 0, 0, 0], addr_type = 0\<rparr>, app = [],
     ip_id = 0, default_netif = True, initialized = True\<rparr>"

end
