(* ===== verification/Bridge_Tcp.thy ===== *)
theory Bridge_Tcp
  imports Bridge_Data
begin

text \<open>
  The TCP side of the bridge: the mass abort ends, empties both pcb lists, gives every pcb and every queued buffer back and
  notifies each connection's owner once; the receive callback delivers a chain as one byte sequence.
\<close>

section \<open>Aborting every connection\<close>

text \<open>The notification that aborting a connection sends to the application.\<close>

definition err_calls :: "bool \<Rightarrow> tcp_pcb \<Rightarrow> app_call list" where
  "err_calls f pcb = (if err_cb pcb \<and> callback_arg pcb \<noteq> 0 \<and> f then [App_tcp_err (callback_arg pcb) ERR_ABRT] else [])"

text \<open>The connections of the active list, their queued buffers included, in a state lwIP keeps them in.\<close>

definition conns_ok :: "tcpw \<Rightarrow> nat list \<Rightarrow> tcp_pcb list \<Rightarrow> nat list list \<Rightarrow> bool" where
  "conns_ok w as ps css \<longleftrightarrow> distinct as \<and> list_all2 (\<lambda>a pcb. pcbs w a = Some pcb \<and> live_conn a pcb) as ps \<and>
     held (pm w) (concat (map pcb_pbufs ps)) css"

text \<open>Connections in \<^verbatim>\<open>TIME_WAIT\<close> have nothing queued.\<close>

definition time_wait_ok :: "tcpw \<Rightarrow> nat \<Rightarrow> bool" where
  "time_wait_ok w a \<longleftrightarrow> a mod 8 = 0 \<and> (\<exists>pcb. pcbs w a = Some pcb \<and> st pcb = TIME_WAIT \<and> unsent pcb = [] \<and> unacked pcb = [])"

text \<open>Memory after pcbs went back to their pool and buffers were given up: no other buffer changed, and those held by nobody else are gone.\<close>

definition pcbs_returned :: "pmem \<Rightarrow> nat list \<Rightarrow> nat list \<Rightarrow> pmem \<Rightarrow> bool" where
  "pcbs_returned m as xs m' \<longleftrightarrow> set (tabs m' MEMP_TCP_PCB) = set as \<union> set (tabs m MEMP_TCP_PCB) \<and>
     (\<forall>t \<in> {MEMP_TCP_PCB_LISTEN, MEMP_UDP_PCB}. set (tabs m' t) = set (tabs m t)) \<and>
     gone m xs m' \<and> (\<forall>x. x \<notin> set xs \<longrightarrow> pbufs m' x = pbufs m x \<and> heap m' x = heap m x)"

lemma pcbs_returned_refl: "pcbs_returned m [] [] m"
  by (simp add: pcbs_returned_def gone_def)

lemma pcbs_returned_trans:
  assumes "pcbs_returned m as xs m1" "pcbs_returned m1 bs ys m2"
  shows "pcbs_returned m (as @ bs) (xs @ ys) m2"
proof -
  have "gone m (xs @ ys) m2" using assms by (intro gone_trans [of m xs m1]) (auto simp: pcbs_returned_def)
  then show ?thesis using assms unfolding pcbs_returned_def by auto
qed

lemma released_returned:
  "released m xs m1 \<Longrightarrow> pcbs_returned m [a] xs (m1\<lparr>tabs := (tabs m1)(MEMP_TCP_PCB := a # tabs m1 MEMP_TCP_PCB)\<rparr>)"
  unfolding pcbs_returned_def released_def gone_def by auto

lemma foldl_dispatch_abort:
  "foldl dispatch_call b (abort_calls a pcb) = b\<lparr>app := app b @ err_calls (s_tcp_err_fn b) pcb\<rparr>"
  by (auto simp: abort_calls_def err_calls_def tcp_err_cb_def call_app_def)

lemma run_abort:
  assumes "tcp_abort a (tw b) = Some w" "calls w = calls (tw b) @ abort_calls a pcb"
  shows "run_tcp (tcp_abort a) b = Some (b\<lparr>tw := w, app := app b @ err_calls (s_tcp_err_fn b) pcb\<rparr>)"
  using assms by (simp add: run_tcp_def foldl_dispatch_abort)

lemma conns_ok_step:
  assumes "conns_ok w (a # as) (pcb # ps) css"
  obtains c1 c2 where "css = c1 @ c2" "held (pm w) (pcb_pbufs pcb) c1" "pcbs w a = Some pcb" "live_conn a pcb"
    "\<forall>w' m t. pcbs w' = (pcbs w)(a := None) \<longrightarrow> released (pm w) (concat c1) m \<longrightarrow>
       pm w' = m\<lparr>tabs := t\<rparr> \<longrightarrow> conns_ok w' as ps c2"
proof -
  let ?rest = "concat (map pcb_pbufs ps)"
  have h: "held (pm w) (pcb_pbufs pcb @ ?rest) css" and d: "distinct (a # as)"
    and l: "list_all2 (\<lambda>a pcb. pcbs w a = Some pcb \<and> live_conn a pcb) as ps" "pcbs w a = Some pcb" "live_conn a pcb"
    using assms by (auto simp: conns_ok_def)
  obtain c1 c2 where css: "css = c1 @ c2" "length (pcb_pbufs pcb) = length c1"
    using h unfolding held_def list_all2_append1 by metis
  have h1: "held (pm w) (pcb_pbufs pcb) c1" using h css by (auto simp: held_def list_all2_append)
  show ?thesis
  proof (rule that [OF css(1) h1 l(2,3)], intro allI impI)
    fix w' :: tcpw and m t assume w': "pcbs w' = (pcbs w)(a := None)" "released (pm w) (concat c1) m" "pm w' = m\<lparr>tabs := t\<rparr>"
    have "held m ?rest c2" using held_released [OF h [unfolded css(1)] css(2) w'(2)] .
    then have "held (pm w') ?rest c2" using held_cong [of c2 m "pm w'" ?rest] w'(3) by simp
    moreover have "list_all2 (\<lambda>a pcb. pcbs w' a = Some pcb \<and> live_conn a pcb) as ps"
      using l(1) d unfolding w'(1) by (auto simp: list_all2_conv_all_nth)
    ultimately show "conns_ok w' as ps c2" using d by (simp add: conns_ok_def)
  qed
qed

lemma abort_active_loop_spec:
  "active_pcbs (tw b) = as \<Longrightarrow> conns_ok (tw b) as ps css \<Longrightarrow>
   \<exists>w'. abort_active_loop b = Some (b\<lparr>tw := w', app := app b @ concat (map (err_calls (s_tcp_err_fn b)) ps)\<rparr>) \<and>
     active_pcbs w' = [] \<and> tw_pcbs w' = tw_pcbs (tw b) \<and> pcbs w' = pcbs (tw b) |` (- set as) \<and>
     calls w' = calls (tw b) @ concat (map2 abort_calls as ps) \<and> pcbs_returned (pm (tw b)) as (concat css) (pm w') \<and> others_same (tw b) w'"
proof (induction as arbitrary: b ps css)
  case Nil
  then have "ps = []" "css = []" by (auto simp: conns_ok_def held_def)
  then show ?case using Nil.prems(1) by (subst abort_active_loop.simps) (auto simp: pcbs_returned_refl others_same_def intro!: exI [of _ "tw b"])
next
  case (Cons a as)
  obtain pcb qs where ps: "ps = pcb # qs" using Cons.prems(2) by (cases ps) (auto simp: conns_ok_def)
  obtain c1 c2 where c: "css = c1 @ c2" "held (pm (tw b)) (pcb_pbufs pcb) c1" "pcbs (tw b) a = Some pcb" "live_conn a pcb"
    "\<forall>w' m t. pcbs w' = (pcbs (tw b))(a := None) \<longrightarrow> released (pm (tw b)) (concat c1) m \<longrightarrow>
       pm w' = m\<lparr>tabs := t\<rparr> \<longrightarrow> conns_ok w' as qs c2"
    by (rule conns_ok_step [OF Cons.prems(2) [unfolded ps]])
  obtain w m where w: "tcp_abort a (tw b) = Some w" "pcbs w = (pcbs (tw b))(a := None)" "active_pcbs w = as" "tw_pcbs w = tw_pcbs (tw b)"
    "calls w = calls (tw b) @ abort_calls a pcb" "released (pm (tw b)) (concat c1) m"
    "pm w = m\<lparr>tabs := (tabs m)(MEMP_TCP_PCB := a # tabs m MEMP_TCP_PCB)\<rparr>" "others_same (tw b) w"
    using abort_spec [OF c(3) Cons.prems(1) c(4,2)] by blast
  let ?b = "b\<lparr>tw := w, app := app b @ err_calls (s_tcp_err_fn b) pcb\<rparr>"
  have ok: "conns_ok w as qs c2" using c(5) w(2,6,7) by blast
  have ret: "pcbs_returned (pm (tw b)) [a] (concat c1) (pm w)" unfolding w(7) by (rule released_returned) (rule w(6))
  obtain w' where w': "abort_active_loop ?b = Some (?b\<lparr>tw := w', app := app ?b @ concat (map (err_calls (s_tcp_err_fn b)) qs)\<rparr>)"
    "active_pcbs w' = []" "tw_pcbs w' = tw_pcbs w" "pcbs w' = pcbs w |` (- set as)"
    "calls w' = calls w @ concat (map2 abort_calls as qs)" "pcbs_returned (pm w) as (concat c2) (pm w')" "others_same w w'"
    using Cons.IH [of ?b qs c2] w(3) ok by auto
  have "abort_active_loop b = abort_active_loop ?b"
    using Cons.prems(1) run_abort [OF w(1,5)] by (subst abort_active_loop.simps) simp
  moreover have "pcbs w' = pcbs (tw b) |` (- set (a # as))" unfolding w'(4) w(2) by (auto simp: restrict_map_def)
  moreover have "pcbs_returned (pm (tw b)) (a # as) (concat css) (pm w')"
    using pcbs_returned_trans [OF ret w'(6)] by (simp add: c(1))
  ultimately show ?case using w' w(4,5) others_same_trans [OF w(8) w'(7)] by (intro exI [of _ w']) (simp add: ps)
qed

lemma free_tw_loop_spec:
  "tw_pcbs (tw b) = as \<Longrightarrow> distinct as \<Longrightarrow> (\<And>a. a \<in> set as \<Longrightarrow> time_wait_ok (tw b) a) \<Longrightarrow>
   \<exists>w'. free_tw_loop b = Some (b\<lparr>tw := w'\<rparr>) \<and> tw_pcbs w' = [] \<and> active_pcbs w' = active_pcbs (tw b) \<and>
     pcbs w' = pcbs (tw b) |` (- set as) \<and> calls w' = calls (tw b) \<and> pcbs_returned (pm (tw b)) as [] (pm w') \<and> others_same (tw b) w'"
proof (induction as arbitrary: b)
  case Nil
  then show ?case by (subst free_tw_loop.simps) (auto simp: pcbs_returned_refl others_same_def intro!: exI [of _ "tw b"])
next
  case (Cons a as)
  obtain pcb :: tcp_pcb where pcb: "pcbs (tw b) a = Some pcb" "st pcb = TIME_WAIT" "unsent pcb = []" "unacked pcb = []" "a mod 8 = 0"
    using Cons.prems(3) [of a] by (auto simp: time_wait_ok_def)
  define w where "w = (tw b)\<lparr>tw_pcbs := as, pcbs := (pcbs (tw b))(a := None),
    pm := (pm (tw b))\<lparr>tabs := (tabs (pm (tw b)))(MEMP_TCP_PCB := a # tabs (pm (tw b)) MEMP_TCP_PCB)\<rparr>\<rparr>"
  have step: "run_tcp (\<lambda>w. do { w \<leftarrow> tcp_pcb_remove Tw a w; tcp_free a w }) b = Some (b\<lparr>tw := w\<rparr>)"
    using pcb Cons.prems(1) by (simp add: run_tcp_def tcp_pcb_remove_def tcp_pcb_purge_def assert_that_def tcp_free_def free_pcb_def
      memp_free_def do_memp_free_pool_def MEM_ALIGNMENT_def w_def upd_pcb_def)
  have "time_wait_ok w x" if "x \<in> set as" for x
    using Cons.prems(2) Cons.prems(3) [of x] that by (auto simp: time_wait_ok_def w_def)
  moreover have "tw_pcbs w = as" "distinct as" using Cons.prems(2) by (simp_all add: w_def)
  ultimately obtain w' where w': "free_tw_loop (b\<lparr>tw := w\<rparr>) = Some (b\<lparr>tw := w'\<rparr>)" "tw_pcbs w' = []" "active_pcbs w' = active_pcbs w"
     "pcbs w' = pcbs w |` (- set as)" "calls w' = calls w" "pcbs_returned (pm w) as [] (pm w')" "others_same w w'"
    using Cons.IH [of "b\<lparr>tw := w\<rparr>"] by auto
  have "pcbs_returned (pm (tw b)) [a] [] (pm w)" unfolding w_def by (simp add: pcbs_returned_def gone_def)
  then have "pcbs_returned (pm (tw b)) (a # as) [] (pm w')" using pcbs_returned_trans [OF _ w'(6)] by fastforce
  moreover have "free_tw_loop b = free_tw_loop (b\<lparr>tw := w\<rparr>)" using Cons.prems(1) step by (subst free_tw_loop.simps) simp
  moreover have "pcbs w' = pcbs (tw b) |` (- set (a # as))" unfolding w'(4) by (auto simp: w_def restrict_map_def)
  moreover have "others_same (tw b) w'" using w'(7) by (simp add: others_same_def w_def)
  ultimately show ?case using w' by (intro exI [of _ w']) (simp add: w_def)
qed

lemma abort_all_spec:
  assumes "active_pcbs (tw b) = as" "conns_ok (tw b) as ps css" "tw_pcbs (tw b) = ts" "distinct (as @ ts)"
    "\<forall>a \<in> set ts. time_wait_ok (tw b) a"
  shows "\<exists>w'. lwip_bridge_abort_all_tcp b = Some (b\<lparr>tw := w', app := app b @ concat (map (err_calls (s_tcp_err_fn b)) ps)\<rparr>) \<and>
    active_pcbs w' = [] \<and> tw_pcbs w' = [] \<and> pcbs w' = pcbs (tw b) |` (- set (as @ ts)) \<and>
    calls w' = calls (tw b) @ concat (map2 abort_calls as ps) \<and> pcbs_returned (pm (tw b)) (as @ ts) (concat css) (pm w') \<and> others_same (tw b) w'"
proof -
  let ?f = "\<lambda>w. b\<lparr>tw := w, app := app b @ concat (map (err_calls (s_tcp_err_fn b)) ps)\<rparr>"
  obtain w1 where w1: "abort_active_loop b = Some (?f w1)" "active_pcbs w1 = []" "tw_pcbs w1 = ts" "pcbs w1 = pcbs (tw b) |` (- set as)"
    "calls w1 = calls (tw b) @ concat (map2 abort_calls as ps)" "pcbs_returned (pm (tw b)) as (concat css) (pm w1)" "others_same (tw b) w1"
    using abort_active_loop_spec [OF assms(1,2)] assms(3) by auto
  have "time_wait_ok w1 a" if "a \<in> set ts" for a
  proof -
    have "a \<notin> set as" using assms(4) that by auto
    then show ?thesis using assms(5) that by (simp add: time_wait_ok_def w1(4))
  qed
  then obtain w2 where w2: "free_tw_loop (?f w1) = Some ((?f w1)\<lparr>tw := w2\<rparr>)" "tw_pcbs w2 = []" "active_pcbs w2 = []"
    "pcbs w2 = pcbs w1 |` (- set ts)" "calls w2 = calls w1" "pcbs_returned (pm w1) ts [] (pm w2)" "others_same w1 w2"
    using free_tw_loop_spec [of "?f w1" ts] w1(2,3) assms(4) by auto
  have "pcbs_returned (pm (tw b)) (as @ ts) (concat css) (pm w2)" using pcbs_returned_trans [OF w1(6) w2(6)] by simp
  moreover have "pcbs w2 = pcbs (tw b) |` (- set (as @ ts))" unfolding w2(4) w1(4) by (auto simp: restrict_map_def)
  moreover have "(?f w1)\<lparr>tw := w2\<rparr> = ?f w2" by simp
  ultimately show ?thesis using w1(1,5) w2 others_same_trans [OF w1(7) w2(7)] by (intro exI [of _ w2]) (simp add: lwip_bridge_abort_all_tcp_def)
qed

text \<open>
  C5. Aborting all connections always ends: whatever connections and \<^verbatim>\<open>TIME_WAIT\<close> entries there are, both lists are empty afterwards,
  every pcb is back in its pool, the buffers queued on the connections are gone unless someone else holds them and no other buffer
  is touched, a reset goes out for each connection, and each connection with an owner is reported to the application exactly
  once, in list order.\<close>

theorem abort_all_tcp_ends:
  assumes "active_pcbs (tw b) = as" "conns_ok (tw b) as ps css" "tw_pcbs (tw b) = ts" "distinct (as @ ts)"
    "\<forall>a \<in> set ts. time_wait_ok (tw b) a"
  shows "\<exists>w'. lwip_bridge_abort_all_tcp b = Some (b\<lparr>tw := w', app := app b @ concat (map (err_calls (s_tcp_err_fn b)) ps)\<rparr>) \<and>
    active_pcbs w' = [] \<and> tw_pcbs w' = [] \<and> pcbs w' = pcbs (tw b) |` (- set (as @ ts)) \<and>
    calls w' = calls (tw b) @ concat (map2 abort_calls as ps) \<and> pcbs_returned (pm (tw b)) (as @ ts) (concat css) (pm w')"
  using abort_all_spec [OF assms] by blast

lemma sample_bridge_conns:
  "conns_ok (tw sample_bridge) [0x4000] [sample_conn ESTABLISHED (Some 0x1000)] [[0x1000, 0x2000]]"
  "\<forall>a \<in> set [0x4100]. time_wait_ok (tw sample_bridge) a"
  by (simp_all add: conns_ok_def time_wait_ok_def sample_bridge_def sample_tcpw_def sample_conn_def zero_pcb_def live_conn_def held_def pcb_pbufs_def
      sample_mem_def owned_def pbuf_get_allocsrc_def)

theorem abort_all_tcp_ends_witness:
  "\<exists>b'. lwip_bridge_abort_all_tcp sample_bridge = Some b' \<and> app b' = [App_tcp_err 77 ERR_ABRT] \<and> active_pcbs (tw b') = [] \<and>
     pcbs (tw b') 0x4000 = None \<and> pbufs (pm (tw b')) 0x1000 = None \<and> pbufs (pm (tw b')) 0x2000 = None"
proof -
  have h: "active_pcbs (tw sample_bridge) = [0x4000]" "tw_pcbs (tw sample_bridge) = [0x4100]" "distinct ([0x4000] @ [0x4100 :: nat])"
    by (simp_all add: sample_bridge_def sample_tcpw_def)
  have r: "ref_of (pm (tw sample_bridge)) 0x1000 \<le> 1" "ref_of (pm (tw sample_bridge)) 0x2000 \<le> 1"
    by (simp_all add: sample_bridge_def sample_tcpw_def sample_mem_def ref_of_def)
  show ?thesis
    using abort_all_tcp_ends [OF h(1) sample_bridge_conns(1) h(2,3) sample_bridge_conns(2)] r
    by (auto simp: pcbs_returned_def gone_def err_calls_def sample_conn_def zero_pcb_def) (auto simp: sample_bridge_def)
qed

section \<open>Received data\<close>

text \<open>
  C19. Data that arrives on a connection reaches its owner as one byte sequence in a single call, equal to the content of the buffer
  chain, and the chain is then released; when the chain has several buffers and there is no memory for the copy, \<^verbatim>\<open>ERR_MEM\<close> is
  returned, nothing is delivered and nothing is released, so that lwIP can deliver the same data later. The end of the stream is
  reported as an empty call. Without an owner the data is released and \<^verbatim>\<open>ERR_ABRT\<close> is returned.\<close>

theorem tcp_recv_cb_correct:
  assumes "good_malloc malloc" "packet (mem_of b) (Some p) as" "\<forall>a \<in> set as. owned (mem_of b) a" "s_tcp_recv_fn b"
  shows "tcp_recv_cb malloc arg None b = Some (if arg = 0 then (ERR_ABRT, b) else (ERR_OK, call_app (App_tcp_recv arg []) b)) \<and>
    (if arg = 0 then \<exists>m'. tcp_recv_cb malloc arg (Some p) b = Some (ERR_ABRT, set_mem m' b) \<and> freed (mem_of b) as m'
     else if 1 < length as \<and> malloc (mem_of b) (lens (mem_of b) as) = None then tcp_recv_cb malloc arg (Some p) b = Some (ERR_MEM, b)
     else \<exists>m'. tcp_recv_cb malloc arg (Some p) b = Some (ERR_OK, set_mem m' (call_app (App_tcp_recv arg (contents (mem_of b) as)) b)) \<and>
       freed (flat_mem malloc as (mem_of b)) as m')"
proof -
  let ?m = "mem_of b"
  note flat = flat_spec [OF assms(1,2)]
  have none: "tcp_recv_cb malloc arg None b = Some (if arg = 0 then (ERR_ABRT, b) else (ERR_OK, call_app (App_tcp_recv arg []) b))"
    using assms(4) by (simp add: tcp_recv_cb_def)
  have zero: "\<exists>m'. tcp_recv_cb malloc 0 (Some p) b = Some (ERR_ABRT, set_mem m' b) \<and> freed ?m as m'"
    using free_spec [of ?m p as] assms(2,3) by (auto simp: tcp_recv_cb_def free_in_def packet_def)
  have full: "tcp_recv_cb malloc arg (Some p) b = Some (ERR_MEM, b)"
    if "arg \<noteq> 0" "1 < length as" "malloc ?m (lens ?m as) = None"
    using that assms(4) by (simp add: tcp_recv_cb_def flat flat_data_def flat_mem_def)
  have ok: "\<exists>m'. tcp_recv_cb malloc arg (Some p) b = Some (ERR_OK, set_mem m' (call_app (App_tcp_recv arg (contents ?m as)) b)) \<and>
      freed (flat_mem malloc as ?m) as m'"
    if n: "arg \<noteq> 0" "\<not> (1 < length as \<and> malloc ?m (lens ?m as) = None)"
  proof -
    obtain k m' where "pbuf_free (Some p) (flat_mem malloc as ?m) = Some (k, m')" "freed (flat_mem malloc as ?m) as m'"
      using flat_free [OF assms(2,3)] by blast
    then show ?thesis using n assms(4)
      by (auto simp: tcp_recv_cb_def flat flat_data_def free_in_def)
  qed
  show ?thesis using none zero full ok by presburger
qed

theorem tcp_recv_cb_correct_witness:
  "tcp_recv_cb (\<lambda>_ _. None) 77 (Some 0x1000) sample_bridge = Some (ERR_MEM, sample_bridge) \<and>
   (\<exists>b'. tcp_recv_cb (\<lambda>m n. if heap m 0x9000 = None then Some 0x9000 else None) 77 (Some 0x1000) sample_bridge = Some (ERR_OK, b') \<and>
     app b' = [App_tcp_recv 77 [0, 1, 2, 1, 2]])"
proof -
  let ?malloc = "\<lambda>m n. if heap m 0x9000 = None then Some (0x9000 :: nat) else None"
  have m: "mem_of sample_bridge = sample_mem" by (simp add: mem_of_def sample_bridge_def sample_tcpw_def)
  have g: "good_malloc (\<lambda>_ _. None)" "good_malloc ?malloc" by (simp_all add: good_malloc_def)
  have pk: "packet (mem_of sample_bridge) (Some 0x1000) [0x1000, 0x2000]" "\<forall>a \<in> set [0x1000, 0x2000]. owned (mem_of sample_bridge) a"
    "s_tcp_recv_fn sample_bridge"
    using sample_packet by (simp_all add: m) (simp_all add: owned_def sample_mem_def pbuf_get_allocsrc_def sample_bridge_def)
  have "tcp_recv_cb (\<lambda>_ _. None) 77 (Some 0x1000) sample_bridge = Some (ERR_MEM, sample_bridge)"
    using tcp_recv_cb_correct [OF g(1) pk, of 77] by simp
  moreover have "heap sample_mem 0x9000 = None" by (simp add: sample_mem_def)
  then obtain m' where "tcp_recv_cb ?malloc 77 (Some 0x1000) sample_bridge =
      Some (ERR_OK, set_mem m' (call_app (App_tcp_recv 77 (contents sample_mem [0x1000, 0x2000])) sample_bridge))"
    using tcp_recv_cb_correct [OF g(2) pk, of 77] by (auto simp: m simp del: contents_simps)
  ultimately show ?thesis by (simp add: sample_contents set_mem_def call_app_def sample_bridge_def del: contents_simps)
qed

end
