(* ===== verification/Bridge_Udp.thy ===== *)
theory Bridge_Udp
  imports Bridge_Data
begin

text \<open>
  A UDP packet's way through the whole native stack: \<^verbatim>\<open>lwip_bridge_input\<close> wraps the Java buffer in one reference buffer, IP input
  checks and strips the header, UDP finds the wildcard pcb, and the bridge's callback hands the payload to the application. The
  lemmas follow the one buffer through every layer.
\<close>

section \<open>One reference buffer\<close>

text \<open>Memory in which \<open>p\<close> is a reference buffer of its own over \<open>n\<close> bytes at \<open>pl\<close>.\<close>

definition one :: "nat \<Rightarrow> nat \<Rightarrow> nat \<Rightarrow> pmem \<Rightarrow> pmem" where
  "one p pl n m = m\<lparr>pbufs := (pbufs m)(p \<mapsto> \<lparr>pnext = None, payload = pl, tot_len = of_nat n, plen = of_nat n,
     type_internal = type_bits PBUF_REF, pflags = 0, pref = 1, if_idx = 0\<rparr>)\<rparr>"

lemma one_simps [simp]: "bytes (one p pl n m) = bytes m" "tabs (one p pl n m) = tabs m" "heap (one p pl n m) = heap m"
  by (simp_all add: one_def)

lemma one_at [simp]: "pbufs (one p pl n m) p = Some \<lparr>pnext = None, payload = pl, tot_len = of_nat n, plen = of_nat n,
     type_internal = type_bits PBUF_REF, pflags = 0, pref = 1, if_idx = 0\<rparr>"
  by (simp add: one_def)

lemma one_reads [simp]:
  "rd (one p pl n m) = rd m" "get_be16 (one p pl n m) = get_be16 m" "word4 (one p pl n m) = word4 m"
  "ip4_at (one p pl n m) = ip4_at m" "ip6_at (one p pl n m) = ip6_at m"
proof -
  show r: "rd (one p pl n m) = rd m" by (rule rd_cong) simp
  then show w: "get_be16 (one p pl n m) = get_be16 m" "word4 (one p pl n m) = word4 m"
    by (auto simp: get_be16_def word4_def)
  show "ip4_at (one p pl n m) = ip4_at m" "ip6_at (one p pl n m) = ip6_at m" by (auto simp: ip4_at_def ip6_at_def w)
qed

lemma alloc_one:
  assumes "tabs m MEMP_PBUF = p # r" "p mod 8 = 0" "0 \<le> len"
  shows "pbuf_alloc_reference pl (word_of_int len) PBUF_REF m = Some (Some p, one p pl (nat len) (m\<lparr>tabs := (tabs m)(MEMP_PBUF := r)\<rparr>))"
proof -
  have "(word_of_int len :: u16) = of_nat (nat len)" using assms(3) by simp
  then show ?thesis using assms(1,2)
    by (simp add: pbuf_alloc_reference_def assert_that_def memp_malloc_def do_memp_malloc_pool_def MEM_ALIGNMENT_def
        pbuf_init_alloced_pbuf_def one_def)
qed

lemma realloc_one:
  assumes "k \<le> n" "n < 2 ^ 16"
  shows "pbuf_realloc (Some p) (of_nat k) (one p pl n m) = Some (one p pl k m)"
proof (cases "k = n")
  case False
  have "unat (of_nat k :: u16) = k" "unat (of_nat n :: u16) = n" using assms by (simp_all add: unat_of_nat_fits)
  then have lt: "\<not> (of_nat n :: u16) \<le> of_nat k" "\<not> (of_nat n :: u16) < of_nat k" using assms(1) False by (simp_all add: word_le_nat_alt word_less_nat_alt)
  have "realloc_loop p (of_nat k) s (one p pl n m) = Some (p, of_nat k, one p pl n m)" for s
    using lt(2) by (subst realloc_loop.simps) simp
  then show ?thesis using lt(1) by (simp add: pbuf_realloc_def) (simp add: one_def upd_def)
qed (simp add: pbuf_realloc_def)

lemma remove_header_one:
  assumes "k \<le> n" "n < 2 ^ 16"
  shows "pbuf_remove_header (Some p) k (one p pl n m) = Some (0, one p (pl + k) (n - k) m)"
proof -
  have k: "unat (of_nat k :: u16) = k" "unat (of_nat n :: u16) = n" using assms by (simp_all add: unat_of_nat_fits)
  then have "(of_nat k :: u16) \<le> of_nat n" using assms(1) by (simp add: word_le_nat_alt)
  moreover have "(of_nat n :: u16) - of_nat k = of_nat (n - k)" using assms(1) by (simp add: of_nat_diff)
  ultimately show ?thesis using assms by (simp add: pbuf_remove_header_def Let_def) (simp add: one_def upd_def)
qed

lemma packet_one: "n < 2 ^ 16 \<Longrightarrow> packet (one p pl n m) (Some p) [p] \<and> contents (one p pl n m) [p] = rd m pl n"
  by (simp add: packet_def seg_len_def seg_def unat_of_nat_fits)

lemma flat_one: "n < 2 ^ 16 \<Longrightarrow> flat_bytes malloc p (one p pl n m) = Some (Some (rd m pl n), one p pl n m)"
  by (simp add: flat_bytes_def unat_of_nat_fits)

lemma free_one:
  assumes "p mod 8 = 0" "p \<noteq> 0"
  shows "pbuf_free (Some p) (one p pl n m) =
    Some (1, m\<lparr>pbufs := (pbufs m)(p := None), tabs := (tabs m)(MEMP_PBUF := p # tabs m MEMP_PBUF)\<rparr>)"
proof -
  have "pbuf_dealloc p x (upd p (\<lambda>b. b\<lparr>pref := 0\<rparr>) (one p pl n m)) =
      Some (m\<lparr>pbufs := (pbufs m)(p := None), tabs := (tabs m)(MEMP_PBUF := p # tabs m MEMP_PBUF)\<rparr>)"
    if "pbuf_get_allocsrc x = 1" for x
    using that assms by (simp add: pbuf_dealloc_def memp_free_def do_memp_free_pool_def MEM_ALIGNMENT_def one_def upd_def Let_def)
  then show ?thesis
    by (simp add: pbuf_free_def pbuf_free_loop.simps [of "Some p"] pbuf_free_loop.simps [of None] assert_that_def pbuf_get_allocsrc_def)
qed

section \<open>Through the IP layer\<close>

text \<open>Four bytes are the address they were read as.\<close>

lemma le_bytes_word4: "le_bytes 4 (word4 m a) = rd m a 4"
proof (rule le_val_inject)
  have "uint (word4 m a) = le_val (rd m a 4)"
    unfolding word4_def using uint_le_or [of 0 "rd m a 4", where ?'a = 32] by simp
  then show "le_val (le_bytes 4 (word4 m a)) = le_val (rd m a 4)" by (simp add: le_val_le_bytes_all)
qed simp

lemma rd_append: "rd m a (i + j) = rd m a i @ rd m (a + i) j"
  by (rule nth_equalityI) (auto simp: nth_append rd_def)

lemma ip_addr_to_bytes_at:
  "ip_addr_to_bytes (ip4_at m a) = (rd m a 4, False)" "ip_addr_to_bytes (ip6_at m a) = (rd m a 16, True)"
proof -
  show "ip_addr_to_bytes (ip4_at m a) = (rd m a 4, False)"
    by (simp add: ip_addr_to_bytes_def ip4_at_def IP_IS_V6_def ip_2_ip4_def IPADDR_TYPE_V4_def IPADDR_TYPE_V6_def le_bytes_word4)
  have "rd m a 16 = rd m a 4 @ rd m (a + 4) 4 @ rd m (a + 8) 4 @ rd m (a + 12) 4"
    using rd_append [of m a 4 12] rd_append [of m "a + 4" 4 8] rd_append [of m "a + 8" 4 4] by (simp add: add.commute)
  then show "ip_addr_to_bytes (ip6_at m a) = (rd m a 16, True)"
    by (simp add: ip_addr_to_bytes_def ip6_at_def IP_IS_V6_def ip_2_ip6_def IPADDR_TYPE_V6_def le_bytes_word4)
qed

text \<open>A catch-all interface: up, without addresses of its own.\<close>

definition catch_all :: "netif \<Rightarrow> bool" where
  "catch_all n \<longleftrightarrow> netif_is_up n \<and> ni_ip_addr n = 0 \<and> (\<exists>s xs. ip6_slots n = ([0, 0, 0, 0], s) # xs \<and> ip6_addr_isvalid s)"

text \<open>An IPv4 packet with a UDP datagram: a header without options, not a fragment, between unicast addresses.\<close>

definition ip4_udp :: "pmem \<Rightarrow> nat \<Rightarrow> nat \<Rightarrow> nat \<Rightarrow> netif \<Rightarrow> bool" where
  "ip4_udp m h n dlen inp \<longleftrightarrow> bytes m h = 0x45 \<and> unat (get_be16 m (h + 2)) = 20 + dlen \<and> 8 \<le> dlen \<and> 20 + dlen \<le> n \<and>
     get_be16 m (h + 6) AND 0x3fff = 0 \<and> bytes m (h + 9) = 17 \<and>
     \<not> ip4_addr_isbroadcast_u32 (word4 m (h + 12)) inp \<and> \<not> ip4_addr_ismulticast (word4 m (h + 12)) \<and>
     \<not> ip4_addr_ismulticast (word4 m (h + 16))"

definition ip4_globals :: "netif \<Rightarrow> pmem \<Rightarrow> nat \<Rightarrow> ip_globals" where
  "ip4_globals inp m h = \<lparr>current_netif = inp, current_input_netif = inp, current_is_v6 = False, current_ip_header_tot_len = 20,
     current_iphdr_src = ip4_at m (h + 12), current_iphdr_dest = ip4_at m (h + 16)\<rparr>"

lemma ip4_input_one:
  assumes "ip4_udp m h n dlen inp" "catch_all inp" "n < 2 ^ 16"
  shows "ip_input recv upper p inp (one p h n m, u, e) =
    map_option (Pair ERR_OK) (udp_input recv p (ip4_globals inp m h) inp (one p (h + 20) dlen m, u, e))"
proof -
  have n: "unat (of_nat n :: u16) = n" using assms(3) by (simp add: unat_of_nat_fits)
  have b: "bytes m h = 0x45" "unat (get_be16 m (h + 2)) = 20 + dlen" "20 + dlen \<le> n" "get_be16 m (h + 6) AND 0x3fff = 0"
    "bytes m (h + 9) = 17" "\<not> ip4_addr_isbroadcast_u32 (word4 m (h + 12)) inp" "\<not> ip4_addr_ismulticast (word4 m (h + 12))"
    "\<not> ip4_addr_ismulticast (word4 m (h + 16))" using assms(1) by (simp_all add: ip4_udp_def)
  have w: "get_be16 m (h + 2) = of_nat (20 + dlen)" using b(2) by (metis of_nat_unat ucast_id)
  have len: "get_be16 m (h + 2) < of_nat n \<longleftrightarrow> 20 + dlen < n" using b(2) n by (simp add: word_less_nat_alt)
  have trim: "(if get_be16 m (h + 2) < of_nat n then pbuf_realloc (Some p) (get_be16 m (h + 2)) (one p h n m) else Some (one p h n m)) =
      Some (one p h (20 + dlen) m)"
    using realloc_one [of "20 + dlen" n p h m, folded w] b(3) assms(3) len by (cases "20 + dlen = n") simp_all
  have rem: "pbuf_remove_header (Some p) 20 (one p h (20 + dlen) m) = Some (0, one p (h + 20) dlen m)"
    using remove_header_one [of 20 "20 + dlen" p h m] b(3) assms(3) by simp
  have for_us: "ip4_for_us inp (word4 m (h + 16))" using b(8) assms(2) by (simp add: ip4_for_us_def ip4_input_accept_def catch_all_def)
  have short: "unat (of_nat (20 + dlen) :: u16) = 20 + dlen" using b(3) assms(3) by (intro unat_of_nat_fits) simp
  have fits: "\<not> of_nat (20 + dlen) < get_be16 m (h + 2)" unfolding w by simp
  have hl: "unat (0x45 AND 0x0f :: u8) * 4 = 20" "drop_bit 4 (0x45 :: u8) = 4" by (simp_all add: drop_bit_eq_div)
  show ?thesis
    using n b(3) for_us rem short fits
    by (simp add: ip_input_def ip4_input_def need_def assert_that_def trim b(1,4-8) hl Let_def ip4_dispatch_def ip4_globals_def ip4_at_def
        ip_2_ip4_def IP_HLEN_def del: add_2_eq_Suc add_2_eq_Suc')
qed

text \<open>An IPv6 packet with a UDP datagram and no extension headers, between unicast addresses that are not mapped IPv4 addresses.\<close>

definition ip6_udp :: "pmem \<Rightarrow> nat \<Rightarrow> nat \<Rightarrow> nat \<Rightarrow> bool" where
  "ip6_udp m h n dlen \<longleftrightarrow> drop_bit 4 (bytes m h) = 6 \<and> unat (get_be16 m (h + 4)) = dlen \<and> 8 \<le> dlen \<and> 40 + dlen \<le> n \<and>
     bytes m (h + 6) = 17 \<and> (let src = ip_2_ip6 (ip6_at m (h + 8)); dest = ip_2_ip6 (ip6_at m (h + 24))
       in \<not> ip6_addr_isipv4mappedipv6 src \<and> \<not> ip6_addr_isipv4mappedipv6 dest \<and> \<not> ip6_addr_ismulticast src \<and>
          src \<noteq> [0, 0, 0, 0] \<and> \<not> ip6_addr_ismulticast dest)"

definition ip6_globals :: "netif \<Rightarrow> pmem \<Rightarrow> nat \<Rightarrow> ip_globals" where
  "ip6_globals inp m h = \<lparr>current_netif = inp, current_input_netif = inp, current_is_v6 = True, current_ip_header_tot_len = 40,
     current_iphdr_src = ip6_at m (h + 8), current_iphdr_dest = ip6_at m (h + 24)\<rparr>"

lemma ip6_input_one:
  assumes "ip6_udp m h n dlen" "catch_all inp" "n < 2 ^ 16"
  shows "ip_input recv upper p inp (one p h n m, u, e) =
    map_option (Pair ERR_OK) (udp_input recv p (ip6_globals inp m h) inp (one p (h + 40) dlen m, u, e))"
proof -
  let ?src = "ip_2_ip6 (ip6_at m (h + 8))" and ?dest = "ip_2_ip6 (ip6_at m (h + 24))"
  have n: "unat (of_nat n :: u16) = n" using assms(3) by (simp add: unat_of_nat_fits)
  have b: "drop_bit 4 (bytes m h) = 6" "unat (get_be16 m (h + 4)) = dlen" "40 + dlen \<le> n" "bytes m (h + 6) = 17"
    "\<not> ip6_addr_isipv4mappedipv6 ?src" "\<not> ip6_addr_isipv4mappedipv6 ?dest" "\<not> ip6_addr_ismulticast ?src" "?src \<noteq> [0, 0, 0, 0]"
    "\<not> ip6_addr_ismulticast ?dest" using assms(1) by (simp_all add: ip6_udp_def Let_def)
  have "get_be16 m (h + 4) = of_nat dlen" using b(2) by (metis of_nat_unat ucast_id)
  then have w: "of_nat 40 + get_be16 m (h + 4) = of_nat (40 + dlen)" by simp
  have trim: "pbuf_realloc (Some p) (of_nat 40 + get_be16 m (h + 4)) (one p h n m) = Some (one p h (40 + dlen) m)"
    using realloc_one [of "40 + dlen" n p h m, folded w] b(3) assms(3) by simp
  have rem: "pbuf_remove_header (Some p) 40 (one p h (40 + dlen) m) = Some (0, one p (h + 40) dlen m)"
    using remove_header_one [of 40 "40 + dlen" p h m] b(3) assms(3) by simp
  have for_us: "ip6_for_us inp ?dest" using b(9) assms(2) by (auto simp: ip6_for_us_def ip6_input_accept_def catch_all_def)
  have ext: "ext_loop h mc p (h + 6) 40 (one p (h + 40) dlen m, u, e) = Some (Ext_done 17 (h + 6) 40, one p (h + 40) dlen m, u, e)" for mc
    using b(4) by (subst ext_loop.simps) simp
  show ?thesis
    using n b(3,8) for_us rem trim ext
    by (simp add: ip_input_def ip6_input_def need_def assert_that_def b(1,2,5-9) Let_def ip6_dispatch_def ip6_globals_def IP6_HLEN_def)
qed

section \<open>To the application\<close>

text \<open>The UDP state knows the wildcard pcb of an address type, and every pcb has a callback.\<close>

definition udp_ready :: "udps \<Rightarrow> u8 \<Rightarrow> bool" where
  "udp_ready u ty \<longleftrightarrow> wf_udp u \<and> (\<exists>w \<in> set (udp_pcbs u). u_local_port (the (upcbs u w)) = 0 \<and>
     addr_type (u_local_ip (the (upcbs u w))) = ty) \<and> (\<forall>a \<in> set (udp_pcbs u). u_recv (the (upcbs u a)))"

text \<open>Memory with a free buffer \<open>p\<close> in the pool of reference buffers.\<close>

definition free_ref :: "pmem \<Rightarrow> nat \<Rightarrow> nat list \<Rightarrow> bool" where
  "free_ref m p r \<longleftrightarrow> tabs m MEMP_PBUF = p # r \<and> p mod 8 = 0 \<and> p \<noteq> 0 \<and> pbufs m p = None"

abbreviation taken :: "nat list \<Rightarrow> pmem \<Rightarrow> pmem" where
  "taken r m \<equiv> m\<lparr>tabs := (tabs m)(MEMP_PBUF := r)\<rparr>"

lemma give_back: "free_ref m p r \<Longrightarrow> pbuf_free (Some p) (one p pl n (taken r m)) = Some (1, m)"
  by (simp add: free_ref_def free_one fun_upd_idem)

lemma udp_recv_one:
  assumes "free_ref m p r" "s_udp_recv_fn b" "n < 2 ^ 16" "ip_addr_to_bytes addr = (src, v)" "ip_addr_to_bytes (s_current_udp_dst_ip b) = (dst, v)"
  shows "udp_recv_cb malloc (Some p) addr port (one p pl n (taken r m), u, b) =
    Some (m, u, call_app (App_udp_recv src port dst (s_current_udp_dst_port b) v (rd m pl n)) b)"
proof -
  have "rd (taken r m) = rd m" by (rule rd_cong) simp
  then show ?thesis using assms by (simp add: udp_recv_cb_def flat_one drop_packet_def give_back)
qed

text \<open>UDP and the callback together.\<close>

lemma udp_input_one:
  assumes "udp_ready u (addr_type (current_iphdr_dest ip))" "free_ref m p r" "s_udp_recv_fn b" "8 \<le> n" "n < 2 ^ 16"
    "ip_addr_to_bytes (current_iphdr_src ip) = (src, v)" "ip_addr_to_bytes (s_current_udp_dst_ip b) = (dst, v)"
  shows "\<exists>u'. udp_input (\<lambda>_ _ q. udp_recv_cb malloc (Some q)) p ip inp (one p pl n (taken r m), u, b) =
      Some (m, u', call_app (App_udp_recv src (get_be16 m pl) dst (s_current_udp_dst_port b) v (rd m (pl + 8) (n - 8))) b) \<and>
    set (udp_pcbs u') = set (udp_pcbs u) \<and> upcbs u' = upcbs u"
proof -
  let ?m = "one p pl n (taken r m)"
  obtain w where w: "wf_udp u" "w \<in> set (udp_pcbs u)" "u_local_port (the (upcbs u w)) = 0"
    "addr_type (u_local_ip (the (upcbs u w))) = addr_type (current_iphdr_dest ip)" "\<forall>a \<in> set (udp_pcbs u). u_recv (the (upcbs u a))"
    using assms(1) unfolding udp_ready_def by blast
  have rem: "pbuf_remove_header (Some p) 8 ?m = Some (0, one p (pl + 8) (n - 8) (taken r m))"
    using remove_header_one [of 8 n p pl "taken r m"] assms(4,5) by simp
  have "get_be16 (taken r m) = get_be16 m" by (auto simp: get_be16_def rd_cong [of "taken r m" m])
  then obtain u' where u': "udp_input (\<lambda>_ _ q. udp_recv_cb malloc (Some q)) p ip inp (?m, u, b) =
      udp_recv_cb malloc (Some p) (current_iphdr_src ip) (get_be16 m pl) (one p (pl + 8) (n - 8) (taken r m), u', b)"
    "set (udp_pcbs u') = set (udp_pcbs u)" "upcbs u' = upcbs u"
    using udp_input_raw [OF w one_at _ rem, of "\<lambda>_ _ q. udp_recv_cb malloc (Some q)" inp b] assms(4,5) by (auto simp: unat_of_nat_fits)
  show ?thesis using u' udp_recv_one [OF assms(2,3) _ assms(6,7), of "n - 8"] assms(5) by (intro exI [of _ u']) simp
qed

lemma port_bytes: "push_bit 8 (ucast hi) OR ucast lo = be16 hi lo"
proof -
  have "uint (le_or [lo, hi] 0 :: u16) = 256 * uint hi + uint lo" using uint_le_or [of 0 "[lo, hi]", where ?'a = 16] by simp
  then have "(word_of_int (uint (le_or [lo, hi] 0 :: u16)) :: u16) = be16 hi lo" unfolding be16_def by (rule arg_cong)
  then have "(le_or [lo, hi] 0 :: u16) = be16 hi lo" by (simp only: word_of_int_uint)
  then show ?thesis by (simp add: or.commute)
qed

lemma get_be16_next: "get_be16 m a = be16 (bytes m a) (bytes m c)" if "c = Suc a"
  using that by (simp add: get_be16_eq)

lemma capture4:
  assumes "ip4_udp (mem_of b) data (nat len) dlen inp"
  shows "capture_udp_dst data len b = Some (True, b\<lparr>s_current_udp_dst_port := get_be16 (mem_of b) (data + 22),
    s_current_udp_dst_ip := ip4_at (mem_of b) (data + 16)\<rparr>)"
proof -
  have "bytes (mem_of b) data = 0x45" "bytes (mem_of b) (data + 9) = 17" "28 \<le> len" using assms by (auto simp: ip4_udp_def)
  moreover have "unat ((0x45 AND 0x0f :: u8) * 4) = 20" "drop_bit 4 (0x45 :: u8) AND 0x0f = 4" by (simp_all add: drop_bit_eq_div)
  moreover have "get_be16 (mem_of b) (data + 22) = be16 (bytes (mem_of b) (data + 22)) (bytes (mem_of b) (data + 23))"
    by (rule get_be16_next) simp
  ultimately show ?thesis by (simp add: capture_udp_dst_def Let_def port_bytes)
qed

lemma capture6:
  assumes "ip6_udp (mem_of b) data (nat len) dlen"
  shows "capture_udp_dst data len b = Some (True, b\<lparr>s_current_udp_dst_port := get_be16 (mem_of b) (data + 42),
    s_current_udp_dst_ip := ip6_at (mem_of b) (data + 24)\<rparr>)"
proof -
  have "drop_bit 4 (bytes (mem_of b) data) = 6" "bytes (mem_of b) (data + 6) = 17" "48 \<le> len" using assms by (auto simp: ip6_udp_def)
  moreover have "get_be16 (mem_of b) (data + 42) = be16 (bytes (mem_of b) (data + 42)) (bytes (mem_of b) (data + 43))"
    by (rule get_be16_next) simp
  ultimately show ?thesis by (simp add: capture_udp_dst_def Let_def port_bytes)
qed

lemma bridge_input_any:
  assumes "data \<noteq> 0" "0 < len" "capture_udp_dst data len b = Some (True, b1)" "free_ref (mem_of b1) p r"
    "ip_input (\<lambda>_ _ q. udp_recv_cb malloc (Some q)) upper p (tun_netif b1) (one p data (nat len) (taken r (mem_of b1)), us b1, b1) =
      map_option (Pair ERR_OK) res"
  shows "lwip_bridge_input malloc upper data len b = map_option (\<lambda>(m, u, b'). (set_mem m b')\<lparr>us := u\<rparr>) res"
  using assms alloc_one [of "mem_of b1" p r len data] by (cases res) (auto simp: lwip_bridge_input_def free_ref_def Let_def)

lemma bridge_input_one:
  assumes "data \<noteq> 0" "0 < len" "capture_udp_dst data len b = Some (True, b1)" "free_ref (mem_of b1) p r"
    "ip_input (\<lambda>_ _ q. udp_recv_cb malloc (Some q)) upper p (tun_netif b1) (one p data (nat len) (taken r (mem_of b1)), us b1, b1) =
      Some (ERR_OK, m, u, b2)"
  shows "lwip_bridge_input malloc upper data len b = Some ((set_mem m b2)\<lparr>us := u\<rparr>)"
  using bridge_input_any [OF assms(1-4), of malloc upper "Some (m, u, b2)"] assms(5) by simp

section \<open>Properties\<close>

text \<open>The application call for the datagram of a packet at \<open>data\<close>, as the wire format has it.\<close>

definition udp_call :: "bool \<Rightarrow> pmem \<Rightarrow> nat \<Rightarrow> nat \<Rightarrow> app_call" where
  "udp_call six m data dlen =
    (if six then App_udp_recv (rd m (data + 8) 16) (get_be16 m (data + 40)) (rd m (data + 24) 16) (get_be16 m (data + 42)) True
       (rd m (data + 48) (dlen - 8))
     else App_udp_recv (rd m (data + 12) 4) (get_be16 m (data + 20)) (rd m (data + 16) 4) (get_be16 m (data + 22)) False
       (rd m (data + 28) (dlen - 8)))"

lemma udp_packet_called:
  assumes "free_ref (mem_of b) p r" "s_udp_recv_fn b" "catch_all (tun_netif b)" "data \<noteq> 0" "len < 2 ^ 16"
    "udp_ready (us b) (if six then IPADDR_TYPE_V6 else IPADDR_TYPE_V4)"
    "if six then ip6_udp (mem_of b) data (nat len) dlen else ip4_udp (mem_of b) data (nat len) dlen (tun_netif b)"
  shows "\<exists>b'. lwip_bridge_input malloc upper data len b = Some b' \<and> app b' = app b @ [udp_call six (mem_of b) data dlen] \<and>
    tw b' = tw b \<and> upcbs (us b') = upcbs (us b) \<and> set (udp_pcbs (us b')) = set (udp_pcbs (us b))"
proof -
  let ?m = "mem_of b"
  let ?b1 = "b\<lparr>s_current_udp_dst_port := get_be16 ?m (data + (if six then 42 else 22)),
    s_current_udp_dst_ip := (if six then ip6_at ?m (data + 24) else ip4_at ?m (data + 16))\<rparr>"
  let ?ip = "if six then ip6_globals (tun_netif b) ?m data else ip4_globals (tun_netif b) ?m data"
  let ?h = "data + (if six then 40 else 20)"
  have cap: "capture_udp_dst data len b = Some (True, ?b1)" using assms(7) by (cases six) (simp_all add: capture4 capture6)
  have d: "8 \<le> dlen" "dlen < 2 ^ 16" "nat len < 2 ^ 16" "0 < len" using assms(5,7) by (auto simp: ip4_udp_def ip6_udp_def split: if_splits)
  have m1: "mem_of ?b1 = ?m" "tun_netif ?b1 = tun_netif b" "us ?b1 = us b" "s_udp_recv_fn ?b1" using assms(2) by (simp_all add: mem_of_def)
  have same: "bytes (taken r ?m) = bytes ?m" by simp
  have reads: "rd (taken r ?m) = rd ?m" by (rule rd_cong) simp
  then have reads': "get_be16 (taken r ?m) = get_be16 ?m" "word4 (taken r ?m) = word4 ?m" by (auto simp: get_be16_def word4_def)
  then have reads'': "ip4_at (taken r ?m) = ip4_at ?m" "ip6_at (taken r ?m) = ip6_at ?m" by (auto simp: ip4_at_def ip6_at_def)
  have ip: "ip_input recv upper p (tun_netif b) (one p data (nat len) (taken r ?m), us b, ?b1) =
      map_option (Pair ERR_OK) (udp_input recv p ?ip (tun_netif b) (one p ?h dlen (taken r ?m), us b, ?b1))" for recv
    using assms(3,7) d(3) ip4_input_one [of "taken r ?m" data "nat len" dlen "tun_netif b" recv upper p "us b" ?b1]
      ip6_input_one [of "taken r ?m" data "nat len" dlen "tun_netif b" recv upper p "us b" ?b1]
    by (cases six) (simp_all add: ip4_udp_def ip6_udp_def ip4_globals_def ip6_globals_def reads' reads'')
  have ty: "udp_ready (us b) (addr_type (current_iphdr_dest ?ip))"
    using assms(6) by (cases six) (simp_all add: ip4_globals_def ip6_globals_def ip4_at_def ip6_at_def)
  have addrs: "ip_addr_to_bytes (current_iphdr_src ?ip) = (if six then rd ?m (data + 8) 16 else rd ?m (data + 12) 4, six)"
    "ip_addr_to_bytes (s_current_udp_dst_ip ?b1) = (if six then rd ?m (data + 24) 16 else rd ?m (data + 16) 4, six)"
    by (simp_all add: ip4_globals_def ip6_globals_def ip_addr_to_bytes_at)
  obtain u' where u': "udp_input (\<lambda>_ _ q. udp_recv_cb malloc (Some q)) p ?ip (tun_netif b) (one p ?h dlen (taken r ?m), us b, ?b1) =
      Some (?m, u', call_app (udp_call six ?m data dlen) ?b1)" "set (udp_pcbs u') = set (udp_pcbs (us b))" "upcbs u' = upcbs (us b)"
    using udp_input_one [OF ty assms(1) m1(4) d(1,2) addrs, of malloc "tun_netif b" ?h] by (auto simp: udp_call_def add.assoc split: if_splits)
  have "ip_input (\<lambda>_ _ q. udp_recv_cb malloc (Some q)) upper p (tun_netif b) (one p data (nat len) (taken r ?m), us b, ?b1) =
      Some (ERR_OK, ?m, u', call_app (udp_call six ?m data dlen) ?b1)" unfolding ip u'(1) by simp
  then have "lwip_bridge_input malloc upper data len b = Some ((set_mem ?m (call_app (udp_call six ?m data dlen) ?b1))\<lparr>us := u'\<rparr>)"
    using bridge_input_one [OF assms(4) d(4) cap, of p r malloc upper ?m u'] assms(1) unfolding m1 by blast
  then show ?thesis using u' by (simp add: set_mem_def call_app_def mem_of_def)
qed

text \<open>
  C1. A UDP packet from the tunnel reaches the application: for every IPv4 packet without options or fragmentation and every IPv6
  packet without extension headers that carries a UDP datagram to a unicast address, on the bridge's catch-all interface with
  the wildcard pcb installed, \<^verbatim>\<open>lwip_bridge_input\<close> returns after exactly one call of the application, with the source address and
  port, the destination address and port and exactly the datagram's payload, trailing bytes after the IP length excluded. The one buffer taken is
  given back: the packet memory is the same as before, and so are the TCP state and the UDP pcbs.\<close>

theorem bridge_udp_end_to_end:
  assumes "free_ref (mem_of b) p r" "s_udp_recv_fn b" "catch_all (tun_netif b)" "data \<noteq> 0" "len < 2 ^ 16"
    "udp_ready (us b) (if six then IPADDR_TYPE_V6 else IPADDR_TYPE_V4)"
    "if six then ip6_udp (mem_of b) data (nat len) dlen else ip4_udp (mem_of b) data (nat len) dlen (tun_netif b)"
  shows "\<exists>b'. lwip_bridge_input malloc upper data len b = Some b' \<and> app b' = app b @ [udp_call six (mem_of b) data dlen] \<and>
    tw b' = tw b \<and> upcbs (us b') = upcbs (us b) \<and> set (udp_pcbs (us b')) = set (udp_pcbs (us b))"
  by (rule udp_packet_called [OF assms])

text \<open>A DNS-like packet of 31 bytes from 10.0.0.2 port 4660 to 8.8.8.8 port 53, with one byte of padding.\<close>

definition sample_packet4 :: "u8 list" where
  "sample_packet4 = [0x45, 0, 0, 31, 0, 0, 0, 0, 64, 17, 0, 0, 10, 0, 0, 2, 8, 8, 8, 8, 0x12, 0x34, 0, 53, 0, 11, 0, 0, 7, 8, 9, 0xff]"

definition sample_wire :: pmem where
  "sample_wire = sample_mem\<lparr>bytes := (\<lambda>x. if 0x8000 \<le> x \<and> x < 0x8020 then sample_packet4 ! (x - 0x8000) else 0),
     tabs := (tabs sample_mem)(MEMP_PBUF := [0x6000])\<rparr>"

definition sample_udp_bridge :: bridge where
  "sample_udp_bridge = set_mem sample_wire sample_bridge"

lemma sample_wire_rd: "i + n \<le> 32 \<Longrightarrow> rd sample_wire (0x8000 + i) n = take n (drop i sample_packet4)"
  by (rule nth_equalityI) (auto simp: rd_def sample_wire_def sample_packet4_def)

lemma sample_wire_be16: "Suc i < 32 \<Longrightarrow> get_be16 sample_wire (0x8000 + i) = be16 (sample_packet4 ! i) (sample_packet4 ! Suc i)"
  by (simp add: get_be16_eq sample_wire_def)

lemma sample_udp_bridge_facts:
  "mem_of sample_udp_bridge = sample_wire" "us sample_udp_bridge = sample_udp" "s_udp_recv_fn sample_udp_bridge" "app sample_udp_bridge = []"
  "tun_netif sample_udp_bridge = \<lparr>ni_ip_addr = 0, ni_netmask = 0, ni_ip6_addr = [[0, 0, 0, 0]], ni_ip6_addr_state = [0x10], ni_flags = 1, ni_num = 0, ni_gw = 0, ni_mtu = 1500, ni_driver = True, ni_rs_count = 0\<rparr>"
  by (simp add: sample_udp_bridge_def, simp_all add: sample_udp_bridge_def set_mem_def sample_bridge_def)

lemma sample_ip4_udp:
  "ip4_udp (mem_of sample_udp_bridge) 0x8000 (nat 32) 11 (tun_netif sample_udp_bridge)"
proof -
  have "bytes sample_wire 0x8000 = 0x45" "bytes sample_wire 0x8009 = 17" by (simp_all add: sample_wire_def sample_packet4_def)
  moreover have "get_be16 sample_wire 0x8002 = 31" "get_be16 sample_wire 0x8006 = 0"
    using sample_wire_be16 [of 2] sample_wire_be16 [of 6] by (simp_all add: sample_packet4_def be16_def)
  moreover have "word4 sample_wire 0x800c = 0x0200000a" "word4 sample_wire 0x8010 = 0x08080808"
    using sample_wire_rd [of 12 4] sample_wire_rd [of 16 4] by (simp_all add: word4_def sample_packet4_def)
  ultimately show ?thesis
    by (simp add: ip4_udp_def sample_udp_bridge_facts ip4_addr_isbroadcast_u32_def ip4_addr_ismulticast_def NETIF_FLAG_BROADCAST_def lwip_htonl_def)
qed

theorem bridge_udp_end_to_end_witness:
  "\<exists>b'. lwip_bridge_input (\<lambda>_ _. None) (\<lambda>_ _ _ _ _. None) 0x8000 32 sample_udp_bridge = Some b' \<and>
     app b' = [App_udp_recv [10, 0, 0, 2] 0x1234 [8, 8, 8, 8] 53 False [7, 8, 9]] \<and> tw b' = tw sample_udp_bridge"
proof -
  have h: "free_ref (mem_of sample_udp_bridge) 0x6000 []" "catch_all (tun_netif sample_udp_bridge)"
    "udp_ready (us sample_udp_bridge) (if False then IPADDR_TYPE_V6 else IPADDR_TYPE_V4)"
    using sample_udp_wf(1)
    by (simp_all add: free_ref_def sample_udp_bridge_facts sample_wire_def sample_mem_def catch_all_def netif_is_up_def ip6_slots_def
        ip6_addr_isvalid_def udp_ready_def sample_udp_def sample_upcb_def IPADDR_TYPE_V4_def)
  have "udp_call False sample_wire 0x8000 11 = App_udp_recv [10, 0, 0, 2] 0x1234 [8, 8, 8, 8] 53 False [7, 8, 9]"
    using sample_wire_rd [of 12 4] sample_wire_rd [of 16 4] sample_wire_rd [of 28 3] sample_wire_be16 [of 20] sample_wire_be16 [of 22]
    by (simp add: udp_call_def sample_packet4_def be16_def)
  then show ?thesis
    using bridge_udp_end_to_end [where six = False and malloc = "\<lambda>_ _. None" and upper = "\<lambda>_ _ _ _ _. None" and data = "0x8000" and len = 32 and dlen = 11, OF h(1) sample_udp_bridge_facts(3) h(2) _ _ h(3)]
      sample_ip4_udp by (auto simp: sample_udp_bridge_facts)
qed

end
