(* ===== verification/Bridge_Safety.thy ===== *)
theory Bridge_Safety
  imports Bridge_Udp
begin

text \<open>
  Untrusted packets: what \<^verbatim>\<open>lwip_bridge_input\<close> does with an arbitrary IPv4 packet, well-formed or not, and the two places where an
  IPv6 packet makes the stack read behind its end.
\<close>

declare add_2_eq_Suc [simp del] add_2_eq_Suc' [simp del]

section \<open>Arbitrary IPv4 packets\<close>

lemma drop_one: "free_ref m p r \<Longrightarrow> drop_packet p (one p pl n (taken r m), u, e) = Some (m, u, e)"
  by (simp add: drop_packet_def give_back)

lemma taken_reads: "rd (taken r m) = rd m" "get_be16 (taken r m) = get_be16 m" "word4 (taken r m) = word4 m"
  "ip4_at (taken r m) = ip4_at m" "ip6_at (taken r m) = ip6_at m"
proof -
  show r: "rd (taken r m) = rd m" by (rule rd_cong) simp
  then show w: "get_be16 (taken r m) = get_be16 m" "word4 (taken r m) = word4 m" by (auto simp: get_be16_def word4_def)
  show "ip4_at (taken r m) = ip4_at m" "ip6_at (taken r m) = ip6_at m" using w by (auto simp: ip4_at_def ip6_at_def)
qed

lemma restore_header_one:
  assumes "20 \<le> n" "n < 2 ^ 16" "h + 20 < 2 ^ 64"
  shows "pbuf_header_force (Some p) 20 (one p (h + 20) (n - 20) m) = Some (0, one p h n m)"
proof -
  have "unat (of_nat (n - 20) :: u16) = n - 20" using assms by (intro unat_of_nat_fits) simp
  then have "unat (20 + of_nat (n - 20) :: u16) = n" using assms by (subst unat_add_fits) (simp_all del: of_nat_diff)
  then have nowrap: "\<not> (20 + of_nat (n - 20) :: u16) < 20" using assms by (simp add: word_less_nat_alt)
  have "(of_nat (n - 20) + 20 :: u16) = of_nat n" using assms(1) by (simp add: of_nat_diff)
  moreover have "(h + 20 + 2 ^ 64 - 20) mod 2 ^ 64 = h" using assms(3) by simp
  ultimately show ?thesis using nowrap
    by (simp add: pbuf_header_force_def pbuf_header_impl_def pbuf_add_header_impl_def Let_def) (simp add: one_def upd_def)
qed

text \<open>What the IPv4 layer hands upwards: the protocol, and how many bytes follow the header.\<close>

definition ip4_handed :: "'e recv \<Rightarrow> 'e upper \<Rightarrow> nat \<Rightarrow> netif \<Rightarrow> nat \<Rightarrow> nat list \<Rightarrow> nat \<Rightarrow> pmem \<Rightarrow> udps \<Rightarrow> 'e \<Rightarrow> 'e ipst option" where
  "ip4_handed recv upper p inp h r k m u e =
    (if bytes m (h + 9) = 17 then udp_input recv p (ip4_globals inp m h) inp (one p (h + 20) k (taken r m), u, e)
     else upper (bytes m (h + 9)) p (ip4_globals inp m h) inp (one p (h + 20) k (taken r m), u, e))"

lemma ip4_input_cases:
  assumes "free_ref m p r" "4 \<le> n" "n < 2 ^ 16" "h + 20 < 2 ^ 64" "drop_bit 4 (bytes m h) \<noteq> 6"
  shows "(\<exists>u'. ip_input recv upper p inp (one p h n (taken r m), u, e) = Some (ERR_OK, m, u', e) \<and> upcbs u' = upcbs u \<and> udp_pcbs u' = udp_pcbs u) \<or>
    (\<exists>k. 20 + k \<le> n \<and> bytes m h AND 0x0f = 5 \<and> bytes m (h + 9) \<in> {17, 6, 1} \<and>
      ip_input recv upper p inp (one p h n (taken r m), u, e) = map_option (Pair ERR_OK) (ip4_handed recv upper p inp h r k m u e))"
  (is "?dropped \<or> ?handed")
proof -
  let ?M = "taken r m" and ?iplen = "get_be16 m (h + 2)" and ?hlen = "unat (bytes m h AND 0x0f) * 4"
  have n: "unat (of_nat n :: u16) = n" using assms(3) by (simp add: unat_of_nat_fits)
  define k where "k = (if unat ?iplen < n then unat ?iplen else n)"
  have k: "k \<le> n" "k < 2 ^ 16" using assms(3) by (auto simp: k_def)
  have k16: "unat (of_nat k :: u16) = k" using k(2) by (simp add: unat_of_nat_fits)
  have lt: "?iplen < of_nat n \<longleftrightarrow> unat ?iplen < n" using n by (simp add: word_less_nat_alt)
  have trim: "(if ?iplen < of_nat n then pbuf_realloc (Some p) ?iplen (one p h n ?M) else Some (one p h n ?M)) = Some (one p h k ?M)"
    using realloc_one [of k n p h ?M] k assms(3) by (auto simp: k_def lt)
  note unfold = ip_input_def ip4_input_def need_def assert_that_def Let_def trim drop_one [OF assms(1)] taken_reads
  show ?thesis
  proof (cases "drop_bit 4 (bytes m h) \<noteq> 4 \<or> ?hlen > k \<or> of_nat k < ?iplen \<or> ?hlen < 20 \<or>
      ip4_addr_isbroadcast_u32 (word4 m (h + 12)) inp \<or> ip4_addr_ismulticast (word4 m (h + 12)) \<or>
      \<not> ip4_for_us inp (word4 m (h + 16)) \<or> get_be16 m (h + 6) AND 0x3fff \<noteq> 0 \<or> ?hlen > 20")
    case True
    then have "ip_input recv upper p inp (one p h n ?M, u, e) = Some (ERR_OK, m, u, e)"
      using assms(2,5) n k16
      by (auto simp: unfold IP_HLEN_def ip4_at_def ip_2_ip4_def)
    then show ?thesis by blast
  next
    case False
    then have f: "drop_bit 4 (bytes m h) = 4" "?hlen = 20" "20 \<le> k" "\<not> of_nat k < ?iplen" by auto
    have ihl: "bytes m h AND 0x0f = 5" using f(2) by (simp add: word_unat_eq_iff)
    have rem: "pbuf_remove_header (Some p) 20 (one p h k ?M) = Some (0, one p (h + 20) (k - 20) ?M)"
      using remove_header_one [of 20 k p h ?M] f(3) k(2) by simp
    have go: "ip_input recv upper p inp (one p h n ?M, u, e) =
        map_option (Pair ERR_OK) (ip4_dispatch recv upper (bytes m (h + 9)) 20 p (ip4_globals inp m h) inp (one p h k ?M, u, e))"
      using False f assms(2) n k16
      by (simp add: unfold IP_HLEN_def ip4_at_def ip_2_ip4_def ip4_globals_def)
    show ?thesis
    proof (cases "bytes m (h + 9) \<in> {17, 6, 1}")
      case True
      then have "ip4_dispatch recv upper (bytes m (h + 9)) 20 p (ip4_globals inp m h) inp (one p h k ?M, u, e) =
          ip4_handed recv upper p inp h r (k - 20) m u e"
        using rem by (auto simp: ip4_dispatch_def ip4_handed_def)
      then show ?thesis using go True ihl f(3) k(1) by (metis le_add_diff_inverse)
    next
      case False
      have "\<exists>u'. ip4_dispatch recv upper (bytes m (h + 9)) 20 p (ip4_globals inp m h) inp (one p h k ?M, u, e) = Some (m, u', e) \<and>
          upcbs u' = upcbs u \<and> udp_pcbs u' = udp_pcbs u"
        using False rem restore_header_one [OF f(3) k(2) assms(4), of p ?M]
        by (auto simp: ip4_dispatch_def Let_def drop_one [OF assms(1)])
      then show ?thesis using go by auto
    qed
  qed
qed

lemma udp_input_short: "free_ref m p r \<Longrightarrow> k < 8 \<Longrightarrow> udp_input recv p ip inp (one p pl k (taken r m), u, e) = Some (m, u, e)"
  by (simp add: udp_input_def UDP_HLEN_def unat_of_nat_fits give_back)

text \<open>What is remembered of the destination before the packet is processed.\<close>

definition captured :: "nat \<Rightarrow> bridge \<Rightarrow> bridge" where
  "captured data b = b\<lparr>s_current_udp_dst_port := get_be16 (mem_of b) (data + 22), s_current_udp_dst_ip := ip4_at (mem_of b) (data + 16)\<rparr>"

text \<open>Equal up to the remembered destination.\<close>

definition same_but_dst :: "bridge \<Rightarrow> bridge \<Rightarrow> bool" where
  "same_but_dst b b' \<longleftrightarrow> (\<exists>port ip. b' = b\<lparr>s_current_udp_dst_port := port, s_current_udp_dst_ip := ip\<rparr>)"

lemma same_but_dst_refl: "same_but_dst b b"
  unfolding same_but_dst_def by (intro exI [of _ "s_current_udp_dst_port b"] exI [of _ "s_current_udp_dst_ip b"]) simp

lemma same_but_dstD: "same_but_dst b b' \<Longrightarrow> mem_of b' = mem_of b \<and> tw b' = tw b \<and> us b' = us b \<and> app b' = app b \<and> tun_netif b' = tun_netif b \<and>
    s_udp_recv_fn b' = s_udp_recv_fn b"
  unfolding same_but_dst_def by (auto simp: mem_of_def)

lemma capture_cases:
  assumes "0 < len" "drop_bit 4 (bytes (mem_of b) data) \<noteq> 6"
  shows "capture_udp_dst data len b = Some (False, b) \<or>
    (\<exists>b1. capture_udp_dst data len b = Some (True, b1) \<and> 20 \<le> len \<and> same_but_dst b b1 \<and>
      (bytes (mem_of b) (data + 9) \<noteq> 17 \<longrightarrow> b1 = b) \<and>
      (bytes (mem_of b) (data + 9) = 17 \<and> bytes (mem_of b) data AND 0x0f = 5 \<and> 28 \<le> len \<longrightarrow> b1 = captured data b))"
proof -
  let ?m = "mem_of b"
  let ?v = "bytes ?m data" and ?ihl = "unat ((bytes (mem_of b) data AND 0x0f) * 4)"
  have "uint (drop_bit 4 ?v AND mask 4) = uint (drop_bit 4 ?v)" using uint_bounded [of ?v] by (auto simp: word_vals intro!: mod_pos_pos_trivial pos_imp_zdiv_nonneg_iff [THEN iffD2])
  then have v: "drop_bit 4 ?v AND 0x0f = drop_bit 4 ?v" by (simp add: word_uint_eq_iff mask_eq_exp_minus_1)
  show ?thesis
  proof (cases "drop_bit 4 ?v = 4 \<and> 20 \<le> len")
    case True
    then have c: "capture_udp_dst data len b = (if bytes ?m (data + 9) = 17 \<and> len \<ge> int ?ihl + 8
        then Some (True, b\<lparr>s_current_udp_dst_port := push_bit 8 (ucast (bytes ?m (data + (?ihl + 2)))) OR ucast (bytes ?m (data + (?ihl + 3))),
          s_current_udp_dst_ip := ip4_at ?m (data + 16)\<rparr>) else Some (True, b))"
      by (auto simp: capture_udp_dst_def Let_def v)
    have "get_be16 ?m (data + 22) = be16 (bytes ?m (data + 22)) (bytes ?m (data + 23))" by (rule get_be16_next) simp
    then have cap: "capture_udp_dst data len b = Some (True, captured data b)"
      if "bytes ?m (data + 9) = 17" "?v AND 0x0f = 5" "28 \<le> len"
      using that c by (simp add: captured_def port_bytes)
    show ?thesis
    proof (cases "bytes ?m (data + 9) = 17 \<and> len \<ge> int ?ihl + 8")
      case True
      then obtain b1 where b1: "capture_udp_dst data len b = Some (True, b1)" "same_but_dst b b1" using c by (auto simp: same_but_dst_def)
      then show ?thesis using cap True \<open>drop_bit 4 ?v = 4 \<and> 20 \<le> len\<close> by (intro disjI2 exI [of _ b1]) auto
    next
      case False
      then have "capture_udp_dst data len b = Some (True, b)" using c by auto
      then show ?thesis using False True same_but_dst_refl [of b] by auto
    qed
  next
    case False
    then have "capture_udp_dst data len b = Some (False, b)" using assms by (auto simp: capture_udp_dst_def Let_def v)
    then show ?thesis by blast
  qed
qed

text \<open>The UDP branch: dropped, or delivered.\<close>

lemma ip4_handed_udp:
  assumes "free_ref (mem_of b) p r" "s_udp_recv_fn b" "udp_ready (us b) IPADDR_TYPE_V4" "same_but_dst b b1" "k < 2 ^ 16"
    "bytes (mem_of b) (data + 9) = 17" "8 \<le> k \<Longrightarrow> b1 = captured data b"
  shows "\<exists>u' b2. ip4_handed (\<lambda>_ _ q. udp_recv_cb malloc (Some q)) upper p (tun_netif b) data r k (mem_of b) (us b) b1 = Some (mem_of b, u', b2) \<and>
    upcbs u' = upcbs (us b) \<and> set (udp_pcbs u') = set (udp_pcbs (us b)) \<and> tw b2 = tw b \<and>
    (app b2 = app b \<or> 8 \<le> k \<and> app b2 = app b @ [udp_call False (mem_of b) data k])"
proof (cases "k < 8")
  case True
  then show ?thesis using same_but_dstD [OF assms(4)] assms(6) by (simp add: ip4_handed_def udp_input_short [OF assms(1)])
next
  case False
  let ?m = "mem_of b" and ?cb = "\<lambda>_ _ q. udp_recv_cb malloc (Some q)" and ?ip = "ip4_globals (tun_netif b) (mem_of b) data"
  have cap: "b1 = captured data b" using assms(7) False by simp
  have ty: "udp_ready (us b) (addr_type (current_iphdr_dest ?ip))" using assms(3) by (simp add: ip4_globals_def ip4_at_def)
  have s: "ip_addr_to_bytes (current_iphdr_src ?ip) = (rd ?m (data + 12) 4, False)"
    "ip_addr_to_bytes (s_current_udp_dst_ip b1) = (rd ?m (data + 16) 4, False)"
    by (simp_all add: cap ip4_globals_def captured_def ip_addr_to_bytes_at)
  have h: "8 \<le> k" "s_udp_recv_fn b1" using False assms(2) same_but_dstD [OF assms(4)] by auto
  obtain u' where "udp_input ?cb p ?ip (tun_netif b) (one p (data + 20) k (taken r ?m), us b, b1) =
      Some (?m, u', call_app (udp_call False ?m data k) b1)" "set (udp_pcbs u') = set (udp_pcbs (us b))" "upcbs u' = upcbs (us b)"
    using udp_input_one [OF ty assms(1) h(2,1) assms(5) s, of malloc "tun_netif b" "data + 20"] unfolding udp_call_def
    by (auto simp: cap captured_def add.commute [of data 28])
  then show ?thesis using same_but_dstD [OF assms(4)] assms(6) h(1) by (auto simp: ip4_handed_def call_app_def)
qed

text \<open>A bridge after a packet that was ignored, dropped or delivered as one datagram within its bounds.\<close>

definition harmless :: "nat \<Rightarrow> int \<Rightarrow> bridge \<Rightarrow> bridge \<Rightarrow> bool" where
  "harmless data len b b' \<longleftrightarrow> tw b' = tw b \<and> upcbs (us b') = upcbs (us b) \<and> set (udp_pcbs (us b')) = set (udp_pcbs (us b)) \<and>
     (app b' = app b \<or> (\<exists>dlen. 8 \<le> dlen \<and> 20 + int dlen \<le> len \<and> app b' = app b @ [udp_call False (mem_of b) data dlen]))"

lemma harmlessI:
  assumes "upcbs u' = upcbs (us b)" "set (udp_pcbs u') = set (udp_pcbs (us b))" "tw b2 = tw b"
    "app b2 = app b \<or> (\<exists>dlen. 8 \<le> dlen \<and> 20 + int dlen \<le> len \<and> app b2 = app b @ [udp_call False (mem_of b) data dlen])"
  shows "harmless data len b ((set_mem (mem_of b) b2)\<lparr>us := u'\<rparr>)"
  using assms by (auto simp: harmless_def set_mem_def mem_of_def)

lemma ip4_input_bridge:
  assumes "free_ref (mem_of b) p r" "s_udp_recv_fn b" "udp_ready (us b) IPADDR_TYPE_V4" "data + 20 < 2 ^ 64" "20 \<le> len" "len < 2 ^ 16"
    "drop_bit 4 (bytes (mem_of b) data) \<noteq> 6" "same_but_dst b b1" "bytes (mem_of b) (data + 9) \<noteq> 17 \<longrightarrow> b1 = b"
    "bytes (mem_of b) (data + 9) = 17 \<and> bytes (mem_of b) data AND 0x0f = 5 \<and> 28 \<le> len \<longrightarrow> b1 = captured data b"
  shows "\<exists>r'. ip_input (\<lambda>_ _ q. udp_recv_cb malloc (Some q)) upper p (tun_netif b) (one p data (nat len) (taken r (mem_of b)), us b, b1) =
      map_option (Pair ERR_OK) r' \<and>
    ((\<exists>u' b2. r' = Some (mem_of b, u', b2) \<and> harmless data len b ((set_mem (mem_of b) b2)\<lparr>us := u'\<rparr>)) \<or>
     (\<exists>k. bytes (mem_of b) (data + 9) \<in> {6, 1} \<and> 20 + int k \<le> len \<and> b1 = b \<and>
       r' = upper (bytes (mem_of b) (data + 9)) p (ip4_globals (tun_netif b) (mem_of b) data) (tun_netif b)
         (one p (data + 20) k (taken r (mem_of b)), us b, b)))"
  (is "\<exists>r'. ?input = map_option (Pair ERR_OK) r' \<and> ?res r'")
proof -
  let ?m = "mem_of b" and ?cb = "\<lambda>_ _ q. udp_recv_cb malloc (Some q)"
  note b1 = same_but_dstD [OF assms(8)]
  have n: "4 \<le> nat len" "nat len < 2 ^ 16" using assms(5,6) by auto
  from ip4_input_cases [OF assms(1) n assms(4,7), of ?cb upper "tun_netif b" "us b" b1]
  consider (dropped) u' where "?input = Some (ERR_OK, ?m, u', b1)" "upcbs u' = upcbs (us b)" "udp_pcbs u' = udp_pcbs (us b)"
    | (handed) k where "20 + k \<le> nat len" "bytes ?m data AND 0x0f = 5" "bytes ?m (data + 9) \<in> {17, 6, 1}"
      "?input = map_option (Pair ERR_OK) (ip4_handed ?cb upper p (tun_netif b) data r k ?m (us b) b1)" by blast
  then show ?thesis
  proof cases
    case dropped
    then show ?thesis using b1 by (intro exI [of _ "Some (?m, u', b1)"]) (auto intro!: harmlessI)
  next
    case handed
    have k: "20 + int k \<le> len" using handed(1) assms(5) by linarith
    have "?res (ip4_handed ?cb upper p (tun_netif b) data r k ?m (us b) b1)"
    proof (cases "bytes ?m (data + 9) = 17")
      case False
      then show ?thesis using assms(9) handed(3) k by (intro disjI2 exI [of _ k]) (simp add: ip4_handed_def)
    next
      case True
      have "b1 = captured data b" if "8 \<le> k" using assms(10) True handed(2) k that by simp
      then obtain u' b2 where "ip4_handed ?cb upper p (tun_netif b) data r k ?m (us b) b1 = Some (?m, u', b2)"
        "upcbs u' = upcbs (us b)" "set (udp_pcbs u') = set (udp_pcbs (us b))" "tw b2 = tw b"
        "app b2 = app b \<or> 8 \<le> k \<and> app b2 = app b @ [udp_call False ?m data k]"
        using ip4_handed_udp [OF assms(1-3,8) _ True, of k malloc upper] handed(1) n(2) by auto
      then show ?thesis using k by (auto intro!: harmlessI)
    qed
    then show ?thesis using handed(4) by blast
  qed
qed



section \<open>Truncated IPv6 extension headers\<close>

text \<open>An IPv6 packet whose header announces an extension header but that has at most one byte left for it.\<close>

definition ip6_cut :: "pmem \<Rightarrow> nat \<Rightarrow> nat \<Rightarrow> nat \<Rightarrow> bool" where
  "ip6_cut m h n dlen \<longleftrightarrow> drop_bit 4 (bytes m h) = 6 \<and> unat (get_be16 m (h + 4)) = dlen \<and> dlen < 2 \<and> 40 + dlen \<le> n \<and>
     bytes m (h + 6) \<in> {0, 43, 60} \<and> (let src = ip_2_ip6 (ip6_at m (h + 8)); dest = ip_2_ip6 (ip6_at m (h + 24))
       in \<not> ip6_addr_isipv4mappedipv6 src \<and> \<not> ip6_addr_isipv4mappedipv6 dest \<and> \<not> ip6_addr_ismulticast src \<and>
          src \<noteq> [0, 0, 0, 0] \<and> \<not> ip6_addr_ismulticast dest)"

text \<open>
  C23. A short IPv6 packet is read beyond its end: when the header announces a hop-by-hop, routing or destination options header and
  fewer than two bytes follow, the length byte of the extension header is read before the length of the packet is checked, so that
  the read lies outside the packet (the model's strict reads give no result). The comment in the code claims the opposite.\<close>

theorem ip6_extension_overread:
  assumes "ip6_cut m h n dlen" "catch_all inp" "n < 2 ^ 16"
  shows "ip_input recv upper p inp (one p h n m, u, e) = None"
proof -
  let ?src = "ip_2_ip6 (ip6_at m (h + 8))" and ?dest = "ip_2_ip6 (ip6_at m (h + 24))"
  have n: "unat (of_nat n :: u16) = n" using assms(3) by (simp add: unat_of_nat_fits)
  have b: "drop_bit 4 (bytes m h) = 6" "unat (get_be16 m (h + 4)) = dlen" "dlen < 2" "40 + dlen \<le> n" "bytes m (h + 6) \<in> {0, 43, 60}"
    "\<not> ip6_addr_isipv4mappedipv6 ?src" "\<not> ip6_addr_isipv4mappedipv6 ?dest" "\<not> ip6_addr_ismulticast ?src" "?src \<noteq> [0, 0, 0, 0]"
    "\<not> ip6_addr_ismulticast ?dest" using assms(1) by (simp_all add: ip6_cut_def Let_def)
  have "get_be16 m (h + 4) = of_nat dlen" using b(2) by (metis of_nat_unat ucast_id)
  then have w: "of_nat 40 + get_be16 m (h + 4) = of_nat (40 + dlen)" by simp
  have trim: "pbuf_realloc (Some p) (of_nat 40 + get_be16 m (h + 4)) (one p h n m) = Some (one p h (40 + dlen) m)"
    using realloc_one [of "40 + dlen" n p h m, folded w] b(4) assms(3) by simp
  have rem: "pbuf_remove_header (Some p) 40 (one p h (40 + dlen) m) = Some (0, one p (h + 40) dlen m)"
    using remove_header_one [of 40 "40 + dlen" p h m] b(4) assms(3) by simp
  have for_us: "ip6_for_us inp ?dest" using b(10) assms(2) by (auto simp: ip6_for_us_def ip6_input_accept_def catch_all_def)
  have "unat (of_nat dlen :: u16) = dlen" using b(3) by (intro unat_of_nat_fits) simp
  then have ext: "ext_loop h mc p (h + 6) 40 (one p (h + 40) dlen m, u, e) = None" for mc
    using b(3,5) by (subst ext_loop.simps) (auto simp: options_header_def routing_header_def need_def assert_that_def)
  show ?thesis
    using n b(4,9) for_us rem trim ext
    by (simp add: ip_input_def ip6_input_def need_def assert_that_def b(1,2,6-10) Let_def IP6_HLEN_def)
qed

definition sample_cut :: pmem where
  "sample_cut = sample_mem\<lparr>bytes := (\<lambda>x. if x = 0x8000 then 0x60 else if x = 0x8005 then 1 else if x = 0x8008 then 0x20
     else if x = 0x8018 then 0x20 else 0)\<rparr>"

theorem ip6_extension_overread_witness:
  "ip_input (\<lambda>_ _ _ _ _ s. Some s) (\<lambda>_ _ _ _ s. Some s) 0x1000
     \<lparr>ni_ip_addr = 0, ni_netmask = 0, ni_ip6_addr = [[0, 0, 0, 0]], ni_ip6_addr_state = [0x10], ni_flags = 1, ni_num = 0, ni_gw = 0, ni_mtu = 1500, ni_driver = True, ni_rs_count = 0\<rparr>
     (one 0x1000 0x8000 41 sample_cut, sample_udp, ()) = None"
proof -
  have "rd sample_cut a 4 = [bytes sample_cut a, bytes sample_cut (a + 1), bytes sample_cut (a + 2), bytes sample_cut (a + 3)]" for a
    by (simp add: rd_def upt_rec numeral_eq_Suc)
  then have "ip6_cut sample_cut 0x8000 41 1"
    by (simp add: ip6_cut_def ip6_at_def word4_def ip_2_ip6_def get_be16_eq be16_def sample_cut_def drop_bit_eq_div Let_def
        ip6_addr_isipv4mappedipv6_def ip6_addr_ismulticast_def lwip_htonl_def)
  then show ?thesis
    by (rule ip6_extension_overread) (simp_all add: catch_all_def netif_is_up_def ip6_slots_def ip6_addr_isvalid_def)
qed

end
