(* ===== verification/Tcp_Window.thy ===== *)
theory Tcp_Window
  imports Tcp_Pcb Ip_Addr
begin

text \<open>
  The receive window of a connection: what \<^verbatim>\<open>tcp_recved\<close> does to it when the application has consumed data.
\<close>

section \<open>Sequence arithmetic\<close>

lemma top_bit: "x AND 0x80000000 = 0 \<longleftrightarrow> uint (x :: u32) < 2 ^ 31"
proof -
  have "x AND 2 ^ 31 = 0 \<longleftrightarrow> \<not> bit x 31" by (rule and_bit_zero) simp
  moreover have "bit x 31 \<longleftrightarrow> odd (uint x div 2 ^ 31)" using bit_uint_iff [of x 31] by (simp add: bit_iff_odd)
  moreover have "uint x div 2 ^ 31 = (if uint x < 2 ^ 31 then 0 else 1)"
  proof -
    have "0 \<le> uint x" "uint x < 2 ^ 32" using uint_bounded [of x] by simp_all
    then show ?thesis by auto
  qed
  ultimately show ?thesis by (simp split: if_splits)
qed

lemma SEQ_LT_iff: "TCP_SEQ_LT a b \<longleftrightarrow> 2147483648 \<le> uint (a - b)"
  unfolding TCP_SEQ_LT_def top_bit by (simp add: not_less)

text \<open>Close numbers compare like their distances from a common origin.\<close>

lemma SEQ_LT_offset:
  assumes "uint d < 2 ^ 31" "uint e < 2 ^ 31"
  shows "TCP_SEQ_LT (o0 + d) (o0 + e) \<longleftrightarrow> d < e"
proof -
  have b: "0 \<le> uint d" "0 \<le> uint e" "uint d < 2147483648" "uint e < 2147483648" using assms by simp_all
  have eq: "uint (o0 + d - (o0 + e)) = (uint d - uint e) mod 4294967296" by (simp add: uint_word_ariths)
  have "uint (o0 + d - (o0 + e)) = (if uint e \<le> uint d then uint d - uint e else uint d - uint e + 4294967296)"
  proof (cases "uint e \<le> uint d")
    case True
    then have "(uint d - uint e) mod 4294967296 = uint d - uint e" using b by (intro mod_pos_pos_trivial) linarith+
    then show ?thesis using True by (simp only: eq if_True)
  next
    case False
    then have "(uint d - uint e + 4294967296) mod 4294967296 = uint d - uint e + 4294967296" using b by (intro mod_pos_pos_trivial) linarith+
    then show ?thesis using False unfolding eq by simp
  qed
  then show ?thesis using b unfolding SEQ_LT_iff word_less_def by (cases "uint e \<le> uint d") (simp_all only: if_True if_False, linarith+)
qed

section \<open>The window\<close>

text \<open>
  What TCP keeps of a connection's window: it is within the maximum, and the right edge announced to the peer lies between the next
  expected byte and the end of the window.
\<close>

definition wnd_ok :: "tcp_pcb \<Rightarrow> bool" where
  "wnd_ok pcb \<longleftrightarrow> rcv_wnd pcb \<le> TCP_WND_MAX pcb \<and> rcv_ann_right_edge pcb - rcv_nxt pcb \<le> rcv_wnd pcb"

lemma wnd_max: "uint (TCP_WND_MAX pcb) \<le> 1495040"
  by (simp add: TCP_WND_MAX_def TCP_WND_def min_def)

lemma set_flags_simps [simp]:
  "rcv_wnd (set_flags fl pcb) = rcv_wnd pcb" "rcv_nxt (set_flags fl pcb) = rcv_nxt pcb" "rcv_ann_wnd (set_flags fl pcb) = rcv_ann_wnd pcb"
  "rcv_ann_right_edge (set_flags fl pcb) = rcv_ann_right_edge pcb"
  by (simp_all add: set_flags_def)

lemma wnd_max_cong: "tcp_flags pcb = tcp_flags pcb' \<Longrightarrow> TCP_WND_MAX pcb = TCP_WND_MAX pcb'"
  by (simp add: TCP_WND_MAX_def)

lemma wnd_max_flags: "TCP_WND_MAX (set_flags TF_ACK_NOW pcb) = TCP_WND_MAX pcb"
  by (simp add: TCP_WND_MAX_def set_flags_def TF_ACK_NOW_def TF_WND_SCALE_def bit.conj_disj_distrib2)

text \<open>The announced window: the whole window when that moves the edge far enough, otherwise up to the edge announced before.\<close>

lemma update_ann_spec:
  assumes "d = rcv_ann_right_edge pcb - rcv_nxt pcb" "uint wnd < 2 ^ 31" "uint d \<le> 1495040" "d \<le> wnd"
  obtains ann where "tcp_update_rcv_ann_wnd (pcb\<lparr>rcv_wnd := wnd\<rparr>) = (ann - d, pcb\<lparr>rcv_wnd := wnd, rcv_ann_wnd := ann\<rparr>)" "ann \<le> wnd" "d \<le> ann"
proof -
  define mn where "mn = min (TCP_WND div 2) (ucast (mss pcb))"
  have "uint mn \<le> 747520" by (simp add: mn_def TCP_WND_def min_def word_le_def split: if_splits)
  then have dm: "uint (d + mn) < 2 ^ 31" using uint_add_fits [of d mn] assms(3) by simp
  let ?edge = "rcv_ann_right_edge pcb" and ?nxt = "rcv_nxt pcb"
  have edge: "?edge = ?nxt + d" by (simp add: assms(1))
  have geq: "TCP_SEQ_GEQ (?nxt + wnd) (?edge + mn) \<longleftrightarrow> d + mn \<le> wnd"
    using SEQ_LT_offset [OF assms(2) dm, of ?nxt] by (simp add: TCP_SEQ_GEQ_def TCP_SEQ_LEQ_def edge add.assoc not_less)
  have gt: "\<not> TCP_SEQ_GT ?nxt ?edge" using SEQ_LT_offset [of d 0 ?nxt] assms(3) by (simp add: TCP_SEQ_GT_def edge)
  let ?ann = "if d + mn \<le> wnd then wnd else d"
  have "tcp_update_rcv_ann_wnd (pcb\<lparr>rcv_wnd := wnd\<rparr>) = (?ann - d, pcb\<lparr>rcv_wnd := wnd, rcv_ann_wnd := ?ann\<rparr>)"
    using geq gt by (simp add: tcp_update_rcv_ann_wnd_def Let_def mn_def [symmetric]) (simp add: edge)
  moreover have "?ann \<le> wnd" "d \<le> ?ann" using assms(4) by auto
  ultimately show ?thesis by (rule that)
qed

text \<open>
  C18. Consuming data opens the receive window by as much, up to the maximum and without wrap-around; the right edge announced to the peer
  never moves back and never passes the window, the window invariant is kept, and an update is sent at once exactly when the edge
  moves by at least the threshold.\<close>

theorem tcp_recved_window:
  assumes "pcbs w a = Some pcb" "st pcb \<noteq> LISTEN" "wnd_ok pcb"
  shows "\<exists>w' pcb'. tcp_recved a len w = Some w' \<and> pcbs w' = (pcbs w)(a \<mapsto> pcb') \<and> wnd_ok pcb' \<and>
    uint (rcv_wnd pcb') = min (uint (rcv_wnd pcb) + uint len) (uint (TCP_WND_MAX pcb)) \<and>
    rcv_ann_wnd pcb' \<le> rcv_wnd pcb' \<and> TCP_SEQ_GEQ (rcv_nxt pcb' + rcv_ann_wnd pcb') (rcv_ann_right_edge pcb) \<and>
    rcv_nxt pcb' = rcv_nxt pcb \<and> rcv_ann_right_edge pcb' = rcv_ann_right_edge pcb \<and> pm w' = pm w \<and>
    (calls w' = calls w @ [Output a] \<and> uint (rcv_nxt pcb + rcv_ann_wnd pcb' - rcv_ann_right_edge pcb) \<ge> uint TCP_WND_UPDATE_THRESHOLD \<or>
     calls w' = calls w \<and> uint (rcv_nxt pcb + rcv_ann_wnd pcb' - rcv_ann_right_edge pcb) < uint TCP_WND_UPDATE_THRESHOLD)"
proof -
  define d where "d = rcv_ann_right_edge pcb - rcv_nxt pcb"
  define wnd where "wnd = (if rcv_wnd pcb + ucast len > TCP_WND_MAX pcb \<or> rcv_wnd pcb + ucast len < rcv_wnd pcb then TCP_WND_MAX pcb
    else rcv_wnd pcb + ucast len)"
  have len: "uint (ucast len :: u32) = uint len" "uint len < 65536" using uint_bounded [of len] by (simp_all add: uint_ucast_up)
  have inv: "uint (rcv_wnd pcb) \<le> uint (TCP_WND_MAX pcb)" "uint d \<le> uint (rcv_wnd pcb)" using assms(3) by (simp_all add: wnd_ok_def d_def word_le_def)
  have nowrap: "uint (rcv_wnd pcb + ucast len) = uint (rcv_wnd pcb) + uint len"
    using uint_add_fits [of "rcv_wnd pcb" "ucast len"] len inv wnd_max [of pcb] by simp
  have wnd: "uint wnd = min (uint (rcv_wnd pcb) + uint len) (uint (TCP_WND_MAX pcb))" 
    using nowrap by (auto simp: wnd_def word_less_def min_def)
  have "0 \<le> uint len" by simp
  then have "uint d \<le> uint wnd" unfolding wnd using inv by linarith
  then have small: "uint wnd < 2 ^ 31" "uint d < 2 ^ 31" "d \<le> wnd" "wnd \<le> TCP_WND_MAX pcb"
    using wnd inv wnd_max [of pcb] by (auto simp: word_le_def)
  have d_small: "uint d \<le> 1495040" using inv wnd_max [of pcb] by linarith
  let ?edge = "rcv_ann_right_edge pcb" and ?nxt = "rcv_nxt pcb"
  obtain ann where upd: "tcp_update_rcv_ann_wnd (pcb\<lparr>rcv_wnd := wnd\<rparr>) = (ann - d, pcb\<lparr>rcv_wnd := wnd, rcv_ann_wnd := ann\<rparr>)"
    and le: "ann \<le> wnd" "d \<le> ann"
    by (rule update_ann_spec [OF d_def small(1) d_small small(3)])
  have edge: "?edge = ?nxt + d" by (simp add: d_def)
  then have ann: "ann \<le> wnd" "d \<le> ann" "ann - d = ?nxt + ann - ?edge" using le by simp_all
  let ?pcb = "pcb\<lparr>rcv_wnd := wnd, rcv_ann_wnd := ann\<rparr>"
  have ok: "wnd_ok ?pcb" "wnd_ok (set_flags TF_ACK_NOW ?pcb)" using small(3,4) wnd_max_cong [of ?pcb pcb] by (simp_all add: wnd_ok_def wnd_max_flags d_def)
  have geq2: "TCP_SEQ_GEQ (?nxt + ann) ?edge"
    using SEQ_LT_offset [of ann d ?nxt] ann(1,2) small(1,2) by (auto simp: TCP_SEQ_GEQ_def TCP_SEQ_LEQ_def edge word_le_def word_less_def)
  have rec: "tcp_recved a len w = Some (let w = w\<lparr>pcbs := (pcbs w)(a \<mapsto> ?pcb)\<rparr> in
      if ann - d \<ge> TCP_WND_UPDATE_THRESHOLD then say [Output a] (upd_pcb a (set_flags TF_ACK_NOW) w) else w)"
    using assms(1,2) upd by (simp add: tcp_recved_def assert_that_def Let_def wnd_def [symmetric])
  show ?thesis
  proof (cases "ann - d \<ge> TCP_WND_UPDATE_THRESHOLD")
    case True
    then show ?thesis using rec ok(2) wnd ann geq2
      by (intro exI [of _ "say [Output a] (upd_pcb a (set_flags TF_ACK_NOW) (w\<lparr>pcbs := (pcbs w)(a \<mapsto> ?pcb)\<rparr>))"] exI [of _ "set_flags TF_ACK_NOW ?pcb"])
        (simp add: Let_def set_flags_def word_le_def)
  next
    case False
    then show ?thesis using rec ok(1) wnd ann geq2
      by (intro exI [of _ "w\<lparr>pcbs := (pcbs w)(a \<mapsto> ?pcb)\<rparr>"] exI [of _ ?pcb]) (simp add: Let_def word_le_def)
  qed
qed

definition sample_wnd_conn :: tcp_pcb where
  "sample_wnd_conn = zero_pcb\<lparr>st := ESTABLISHED, local_port := 80, tcp_flags := 0x100, rcv_nxt := 0xfffffff0, rcv_wnd := 100000,
     rcv_ann_wnd := 100000, rcv_ann_right_edge := 99984, mss := 1460\<rparr>"

theorem tcp_recved_window_witness:
  "\<exists>w' pcb'. tcp_recved 0x4000 20000 \<lparr>pm = sample_mem, pcbs = [0x4000 \<mapsto> sample_wnd_conn], active_pcbs = [0x4000], tw_pcbs = [], bound_pcbs = [],
       listen_pcbs = [], active_changed = False, input_pcb = None, recv_flags = 0, calls = [], tcp_ticks = 0, tcp_timer_ctr = 0, tcp_timer = 0,
       tcp_port = 0xc000\<rparr> = Some w' \<and>
     pcbs w' 0x4000 = Some pcb' \<and> uint (rcv_wnd pcb') = 120000"
proof -
  let ?w = "\<lparr>pm = sample_mem, pcbs = [0x4000 \<mapsto> sample_wnd_conn], active_pcbs = [0x4000], tw_pcbs = [], bound_pcbs = [],
       listen_pcbs = [], active_changed = False, input_pcb = None, recv_flags = 0, calls = [], tcp_ticks = 0, tcp_timer_ctr = 0, tcp_timer = 0,
       tcp_port = 0xc000\<rparr>"
  have "wnd_ok sample_wnd_conn" by (simp add: wnd_ok_def sample_wnd_conn_def TCP_WND_MAX_def TCP_WND_def TF_WND_SCALE_def)
  moreover have "pcbs ?w 0x4000 = Some sample_wnd_conn" "st sample_wnd_conn \<noteq> LISTEN" by (simp_all add: sample_wnd_conn_def zero_pcb_def)
  moreover have "uint (TCP_WND_MAX sample_wnd_conn) = 1495040" "uint (rcv_wnd sample_wnd_conn) = 100000"
    by (simp_all add: sample_wnd_conn_def TCP_WND_MAX_def TCP_WND_def TF_WND_SCALE_def)
  ultimately show ?thesis using tcp_recved_window [of ?w "0x4000" sample_wnd_conn 20000] by fastforce
qed

end
