(* ===== verification/Tcp_Alloc.thy ===== *)
theory Tcp_Alloc
  imports Tcp_Pcb Ip_Addr
begin

text \<open>
  Creating, binding and listening, from lwIP's \<^verbatim>\<open>core/tcp.c\<close>: the allocation of a pcb, which kills old connections when the pool is
  empty, the search for a local port, \<^verbatim>\<open>tcp_bind\<close> and \<^verbatim>\<open>tcp_listen\<close>. The call of \<^verbatim>\<open>tcp_timer_needed\<close> when a pcb is registered is logged.
\<close>

section \<open>Constants\<close>

definition TCP_SND_BUF :: u32 where
  "TCP_SND_BUF = 1024 * 1460"

definition TCP_TTL :: u8 where
  "TCP_TTL = 255"

definition INITIAL_MSS :: u16 where
  "INITIAL_MSS = 536"

definition TCP_SLOW_INTERVAL :: nat where
  "TCP_SLOW_INTERVAL = 2 * 100"

definition LWIP_TCP_RTO_TIME :: nat where
  "LWIP_TCP_RTO_TIME = 1000"

definition TCP_KEEPIDLE_DEFAULT :: u32 where
  "TCP_KEEPIDLE_DEFAULT = 7200000"

definition TCP_PRIO_NORMAL :: u8 where
  "TCP_PRIO_NORMAL = 64"

definition TCP_PRIO_MAX :: u8 where
  "TCP_PRIO_MAX = 127"

definition TCP_LOCAL_PORT_RANGE_START :: u16 where
  "TCP_LOCAL_PORT_RANGE_START = 0xc000"

definition TCP_LOCAL_PORT_RANGE_END :: u16 where
  "TCP_LOCAL_PORT_RANGE_END = 0xffff"

definition TCP_ENSURE_LOCAL_PORT_RANGE :: "u16 \<Rightarrow> u16" where
  "TCP_ENSURE_LOCAL_PORT_RANGE port = (port AND NOT TCP_LOCAL_PORT_RANGE_START) + TCP_LOCAL_PORT_RANGE_START"

definition tcp_init :: "u32 \<Rightarrow> tcpw \<Rightarrow> tcpw" where
  "tcp_init rand w = w\<lparr>tcp_port := TCP_ENSURE_LOCAL_PORT_RANGE (ucast rand)\<rparr>"

section \<open>Making room\<close>

text \<open>The pcb of a list that was inactive longest among those that qualify; of equally old ones the last.\<close>

fun oldest_in :: "(nat \<rightharpoonup> tcp_pcb) \<Rightarrow> (tcp_pcb \<Rightarrow> bool) \<Rightarrow> u32 \<Rightarrow> u32 \<Rightarrow> nat option \<Rightarrow> nat list \<Rightarrow> nat option option" where
  "oldest_in t ok ticks inactivity inactive [] = Some inactive"
| "oldest_in t ok ticks inactivity inactive (a # as) = do {
     pcb \<leftarrow> t a;
     if ok pcb \<and> ticks - tmr pcb \<ge> inactivity then oldest_in t ok ticks (ticks - tmr pcb) (Some a) as
     else oldest_in t ok ticks inactivity inactive as
   }"

fun kill_prio_scan :: "(nat \<rightharpoonup> tcp_pcb) \<Rightarrow> u32 \<Rightarrow> u8 \<Rightarrow> u32 \<Rightarrow> nat option \<Rightarrow> nat list \<Rightarrow> nat option option" where
  "kill_prio_scan t ticks mprio inactivity inactive [] = Some inactive"
| "kill_prio_scan t ticks mprio inactivity inactive (a # as) = do {
     pcb \<leftarrow> t a;
     if prio pcb < mprio \<or> prio pcb = mprio \<and> ticks - tmr pcb \<ge> inactivity
     then kill_prio_scan t ticks (prio pcb) (ticks - tmr pcb) (Some a) as
     else kill_prio_scan t ticks mprio inactivity inactive as
   }"

definition tcp_kill_prio :: "u8 \<Rightarrow> tcpw \<Rightarrow> tcpw option" where
  "tcp_kill_prio p w = do {
     let mprio = min TCP_PRIO_MAX p;
     if mprio = 0 then Some w
     else do {
       inactive \<leftarrow> kill_prio_scan (pcbs w) (tcp_ticks w) (mprio - 1) 0 None (active_pcbs w);
       case inactive of None \<Rightarrow> Some w | Some a \<Rightarrow> tcp_abort a w
     }
   }"

definition tcp_kill_state :: "tcp_state \<Rightarrow> tcpw \<Rightarrow> tcpw option" where
  "tcp_kill_state s w = do {
     _ \<leftarrow> assert_that (s = CLOSING \<or> s = LAST_ACK);
     inactive \<leftarrow> oldest_in (pcbs w) (\<lambda>p. st p = s) (tcp_ticks w) 0 None (active_pcbs w);
     case inactive of None \<Rightarrow> Some w | Some a \<Rightarrow> tcp_abandon a False w
   }"

definition tcp_kill_timewait :: "tcpw \<Rightarrow> tcpw option" where
  "tcp_kill_timewait w = do {
     inactive \<leftarrow> oldest_in (pcbs w) (\<lambda>_. True) (tcp_ticks w) 0 None (tw_pcbs w);
     case inactive of None \<Rightarrow> Some w | Some a \<Rightarrow> tcp_abort a w
   }"

definition clear_flags :: "u16 \<Rightarrow> tcp_pcb \<Rightarrow> tcp_pcb" where
  "clear_flags fl pcb = pcb\<lparr>tcp_flags := tcp_flags pcb AND NOT fl\<rparr>"

fun closepend_loop :: "(nat \<Rightarrow> tcpw \<Rightarrow> err_t \<times> tcpw) \<Rightarrow> nat list \<Rightarrow> tcpw \<Rightarrow> tcpw option" where
  "closepend_loop send_fin [] w = Some w"
| "closepend_loop send_fin (a # as) w = do {
     pcb \<leftarrow> pcbs w a;
     w \<leftarrow> (if tcp_flags pcb AND TF_CLOSEPEND \<noteq> 0
           then map_option snd (tcp_close_shutdown_fin send_fin a (upd_pcb a (clear_flags TF_CLOSEPEND) w)) else Some w);
     closepend_loop send_fin as w
   }"

definition tcp_handle_closepend :: "(nat \<Rightarrow> tcpw \<Rightarrow> err_t \<times> tcpw) \<Rightarrow> tcpw \<Rightarrow> tcpw option" where
  "tcp_handle_closepend send_fin w = closepend_loop send_fin (active_pcbs w) w"

section \<open>Allocation\<close>

definition take_pcb :: "memp_t \<Rightarrow> tcpw \<Rightarrow> (nat option \<times> tcpw) option" where
  "take_pcb ty w = do { (p, t) \<leftarrow> memp_malloc ty (tabs (pm w)); Some (p, w\<lparr>pm := (pm w)\<lparr>tabs := t\<rparr>\<rparr>) }"

definition fresh_pcb :: "u8 \<Rightarrow> tcpw \<Rightarrow> tcp_pcb" where
  "fresh_pcb p w = zero_pcb\<lparr>prio := p, snd_buf := TCP_SND_BUF, rcv_wnd := min TCP_WND 0xFFFF, rcv_ann_wnd := min TCP_WND 0xFFFF,
     ttl := TCP_TTL, mss := INITIAL_MSS, rto := of_nat (LWIP_TCP_RTO_TIME div TCP_SLOW_INTERVAL),
     sv := of_nat (LWIP_TCP_RTO_TIME div TCP_SLOW_INTERVAL), rtime := - 1, cwnd := 1, tmr := tcp_ticks w, last_timer := tcp_timer_ctr w,
     ssthresh := TCP_SND_BUF, keep_idle := TCP_KEEPIDLE_DEFAULT\<rparr>"

text \<open>One more attempt after making room; nothing to do when there is a pcb already.\<close>

definition retry :: "(tcpw \<Rightarrow> tcpw option) \<Rightarrow> nat option \<times> tcpw \<Rightarrow> (nat option \<times> tcpw) option" where
  "retry kill = (\<lambda>(p, w). case p of Some _ \<Rightarrow> Some (p, w) | None \<Rightarrow> do { w \<leftarrow> kill w; take_pcb MEMP_TCP_PCB w })"

definition tcp_alloc :: "(nat \<Rightarrow> tcpw \<Rightarrow> err_t \<times> tcpw) \<Rightarrow> u8 \<Rightarrow> tcpw \<Rightarrow> (nat option \<times> tcpw) option" where
  "tcp_alloc send_fin p w = do {
     s \<leftarrow> take_pcb MEMP_TCP_PCB w;
     s \<leftarrow> retry (\<lambda>w. do { w \<leftarrow> tcp_handle_closepend send_fin w; tcp_kill_timewait w }) s;
     s \<leftarrow> retry (tcp_kill_state LAST_ACK) s;
     s \<leftarrow> retry (tcp_kill_state CLOSING) s;
     (r, w) \<leftarrow> retry (tcp_kill_prio p) s;
     Some (r, case r of None \<Rightarrow> w | Some a \<Rightarrow> w\<lparr>pcbs := (pcbs w)(a \<mapsto> fresh_pcb p w)\<rparr>)
   }"

definition tcp_new :: "(nat \<Rightarrow> tcpw \<Rightarrow> err_t \<times> tcpw) \<Rightarrow> tcpw \<Rightarrow> (nat option \<times> tcpw) option" where
  "tcp_new send_fin w = tcp_alloc send_fin TCP_PRIO_NORMAL w"

definition tcp_new_ip_type :: "(nat \<Rightarrow> tcpw \<Rightarrow> err_t \<times> tcpw) \<Rightarrow> u8 \<Rightarrow> tcpw \<Rightarrow> (nat option \<times> tcpw) option" where
  "tcp_new_ip_type send_fin ty w = do {
     (r, w) \<leftarrow> tcp_alloc send_fin TCP_PRIO_NORMAL w;
     Some (r, case r of None \<Rightarrow> w
       | Some a \<Rightarrow> upd_pcb a (\<lambda>p. p\<lparr>local_ip := (local_ip p)\<lparr>addr_type := ty\<rparr>, remote_ip := (remote_ip p)\<lparr>addr_type := ty\<rparr>\<rparr>) w)
   }"

section \<open>Binding\<close>

text \<open>The lists in the order in which they are searched.\<close>

definition tcp_pcb_lists :: "tcpw \<Rightarrow> nat list" where
  "tcp_pcb_lists w = listen_pcbs w @ bound_pcbs w @ active_pcbs w @ tw_pcbs w"

fun tcp_port_used :: "(nat \<rightharpoonup> tcp_pcb) \<Rightarrow> u16 \<Rightarrow> nat list \<Rightarrow> bool option" where
  "tcp_port_used t port [] = Some False"
| "tcp_port_used t port (a # as) = do { pcb \<leftarrow> t a; if local_port pcb = port then Some True else tcp_port_used t port as }"

definition tcp_next_port :: "u16 \<Rightarrow> u16" where
  "tcp_next_port port = (if port + 1 = TCP_LOCAL_PORT_RANGE_END then TCP_LOCAL_PORT_RANGE_START else port + 1)"

text \<open>The jumps back to \<^verbatim>\<open>again\<close>: the port found, or 0, and the port counter; \<open>n\<close> stays below \<open>2 ^ 16\<close>.\<close>

function tcp_new_port_again :: "(nat \<rightharpoonup> tcp_pcb) \<Rightarrow> nat list \<Rightarrow> nat \<Rightarrow> u16 \<Rightarrow> (u16 \<times> u16) option" where
  "tcp_new_port_again t as n port = do {
     let port = tcp_next_port port;
     used \<leftarrow> tcp_port_used t port as;
     if used then
       (if n + 1 > unat (TCP_LOCAL_PORT_RANGE_END - TCP_LOCAL_PORT_RANGE_START) then Some (0, port)
        else tcp_new_port_again t as (n + 1) port)
     else Some (port, port)
   }"
  by pat_completeness auto
termination by (relation "measure (\<lambda>(t, as, n, port). 0x4000 - n)") (auto simp: TCP_LOCAL_PORT_RANGE_END_def TCP_LOCAL_PORT_RANGE_START_def)

declare tcp_new_port_again.simps [simp del]

definition tcp_new_port :: "tcpw \<Rightarrow> (u16 \<times> tcpw) option" where
  "tcp_new_port w = do { (r, port) \<leftarrow> tcp_new_port_again (pcbs w) (tcp_pcb_lists w) 0 (tcp_port w); Some (r, w\<lparr>tcp_port := port\<rparr>) }"

definition addr_clash :: "tcp_pcb \<Rightarrow> ip_addr_t \<Rightarrow> u16 \<Rightarrow> bool" where
  "addr_clash cpcb ipaddr port \<longleftrightarrow> local_port cpcb = port \<and> IP_IS_V6 ipaddr = IP_IS_V6 (local_ip cpcb) \<and>
     (ip_addr_isany (local_ip cpcb) \<or> ip_addr_isany ipaddr \<or> ip_addr_eq (local_ip cpcb) ipaddr)"

fun addr_in_use :: "(nat \<rightharpoonup> tcp_pcb) \<Rightarrow> ip_addr_t \<Rightarrow> u16 \<Rightarrow> nat list \<Rightarrow> bool option" where
  "addr_in_use t ipaddr port [] = Some False"
| "addr_in_use t ipaddr port (a # as) = do { cpcb \<leftarrow> t a; if addr_clash cpcb ipaddr port then Some True else addr_in_use t ipaddr port as }"

text \<open>The port that is bound, and whether it may be.\<close>

definition bind_port :: "ip_addr_t \<Rightarrow> u16 \<Rightarrow> tcpw \<Rightarrow> (err_t \<times> u16 \<times> tcpw) option" where
  "bind_port ipaddr port w =
    (if port = 0 then do { (port, w) \<leftarrow> tcp_new_port w; Some (if port = 0 then ERR_BUF else ERR_OK, port, w) }
     else do { used \<leftarrow> addr_in_use (pcbs w) ipaddr port (tcp_pcb_lists w); Some (if used then ERR_USE else ERR_OK, port, w) })"

definition tcp_bind :: "nat \<Rightarrow> ip_addr_t \<Rightarrow> u16 \<Rightarrow> tcpw \<Rightarrow> (err_t \<times> tcpw) option" where
  "tcp_bind a ipaddr port w = do {
     pcb \<leftarrow> pcbs w a;
     if st pcb \<noteq> CLOSED then Some (ERR_VAL, w)
     else do {
       (err, port, w) \<leftarrow> bind_port ipaddr port w;
       if err \<noteq> ERR_OK then Some (err, w)
       else
         let w = upd_pcb a (\<lambda>p. p\<lparr>local_ip := if \<not> ip_addr_isany ipaddr \<or> addr_type ipaddr \<noteq> addr_type (local_ip p)
                                               then ip_addr_set ipaddr else local_ip p, local_port := port\<rparr>) w
         in Some (ERR_OK, say [Timer_needed] (w\<lparr>bound_pcbs := a # bound_pcbs w\<rparr>))
     }
   }"

section \<open>Listening\<close>

text \<open>The new listener; the parts of the structure that listeners do not have are zero.\<close>

text \<open>The element of the pool is not cleared; the fields that a listener has but that are not set here (the bytes of the remote address) are
  taken as zero, and those of connections alone do not exist in a listener.\<close>

definition listen_pcb :: "tcp_pcb \<Rightarrow> tcp_pcb" where
  "listen_pcb pcb = zero_pcb\<lparr>callback_arg := callback_arg pcb, local_port := local_port pcb, st := LISTEN, prio := prio pcb,
     so_options := so_options pcb, netif_idx := netif_idx pcb, ttl := ttl pcb, tos := tos pcb,
     remote_ip := (remote_ip zero_pcb)\<lparr>addr_type := addr_type (local_ip pcb)\<rparr>, local_ip := local_ip pcb\<rparr>"

definition tcp_listen_with_backlog_and_err :: "nat \<Rightarrow> tcpw \<Rightarrow> (nat option \<times> err_t \<times> tcpw) option" where
  "tcp_listen_with_backlog_and_err a w = do {
     pcb \<leftarrow> pcbs w a;
     if st pcb \<noteq> CLOSED then Some (None, ERR_CLSD, w)
     else do {
       (l, w) \<leftarrow> take_pcb MEMP_TCP_PCB_LISTEN w;
       case l of
         None \<Rightarrow> Some (None, ERR_MEM, w)
       | Some l \<Rightarrow> do {
           let w = (if local_port pcb \<noteq> 0 then w\<lparr>bound_pcbs := TCP_RMV (bound_pcbs w) a\<rparr> else w);
           w \<leftarrow> tcp_free a w;
           Some (Some l, ERR_OK, say [Timer_needed] (w\<lparr>pcbs := (pcbs w)(l \<mapsto> listen_pcb pcb), listen_pcbs := l # listen_pcbs w\<rparr>))
         }
     }
   }"

definition tcp_listen_with_backlog :: "nat \<Rightarrow> tcpw \<Rightarrow> (nat option \<times> tcpw) option" where
  "tcp_listen_with_backlog a w = map_option (\<lambda>(l, _, w). (l, w)) (tcp_listen_with_backlog_and_err a w)"

definition tcp_accept :: "nat option \<Rightarrow> bool \<Rightarrow> tcpw \<Rightarrow> tcpw option" where
  "tcp_accept a f w =
    (case a of None \<Rightarrow> Some w
     | Some a \<Rightarrow> do { pcb \<leftarrow> pcbs w a; Some (if st pcb = LISTEN then upd_pcb a (\<lambda>p. p\<lparr>accept_cb := f\<rparr>) w else w) })"

definition tcp_setprio :: "nat \<Rightarrow> u8 \<Rightarrow> tcpw \<Rightarrow> tcpw" where
  "tcp_setprio a p w = upd_pcb a (\<lambda>q. q\<lparr>prio := p\<rparr>) w"

end
