(* ===== verification/Tcp_Types.thy ===== *)
theory Tcp_Types
  imports Tcp_Alloc
begin

text \<open>
  The typing of the pcb lists: which states the pcbs of each list may have, that no pcb is in two lists, and that the pools only
  hold addresses that are not in use. Every operation on pcbs keeps the typing, so that every sequence of operations does.
\<close>

section \<open>The typing\<close>

definition in_list :: "tcpw \<Rightarrow> nat \<Rightarrow> (tcp_pcb \<Rightarrow> bool) \<Rightarrow> bool" where
  "in_list w a ok \<longleftrightarrow> (case pcbs w a of None \<Rightarrow> False | Some p \<Rightarrow> ok p)"

definition active_state :: "tcp_state \<Rightarrow> bool" where
  "active_state s \<longleftrightarrow> s \<noteq> CLOSED \<and> s \<noteq> LISTEN \<and> s \<noteq> TIME_WAIT"

definition pool_free :: "tcpw \<Rightarrow> nat list" where
  "pool_free w = tabs (pm w) MEMP_TCP_PCB @ tabs (pm w) MEMP_TCP_PCB_LISTEN"

definition lists_typed :: "tcpw \<Rightarrow> bool" where
  "lists_typed w \<longleftrightarrow> (\<forall>a \<in> set (active_pcbs w). in_list w a (\<lambda>p. active_state (st p))) \<and>
     (\<forall>a \<in> set (tw_pcbs w). in_list w a (\<lambda>p. st p = TIME_WAIT)) \<and>
     (\<forall>a \<in> set (bound_pcbs w). in_list w a (\<lambda>p. st p = CLOSED \<and> local_port p \<noteq> 0)) \<and>
     (\<forall>a \<in> set (listen_pcbs w). in_list w a (\<lambda>p. st p = LISTEN)) \<and>
     distinct (tcp_pcb_lists w) \<and> distinct (pool_free w) \<and> (\<forall>a \<in> set (pool_free w). pcbs w a = None)"

definition unlisted :: "nat \<Rightarrow> tcpw \<Rightarrow> bool" where
  "unlisted a w \<longleftrightarrow> a \<notin> set (tcp_pcb_lists w)"

section \<open>Changes that do not matter\<close>

text \<open>Steps that leave the lists, the pools, and the state and local port of every pcb alone.\<close>

definition kinds :: "tcpw \<Rightarrow> nat \<Rightarrow> (tcp_state \<times> u16) option" where
  "kinds w a = map_option (\<lambda>p. (st p, local_port p)) (pcbs w a)"

definition soft :: "tcpw \<Rightarrow> tcpw \<Rightarrow> bool" where
  "soft w w' \<longleftrightarrow> active_pcbs w' = active_pcbs w \<and> tw_pcbs w' = tw_pcbs w \<and> bound_pcbs w' = bound_pcbs w \<and> listen_pcbs w' = listen_pcbs w \<and>
     pool_free w' = pool_free w \<and> kinds w' = kinds w"

lemma soft_refl [simp]: "soft w w"
  by (simp add: soft_def)

lemma soft_trans: "soft w w1 \<Longrightarrow> soft w1 w2 \<Longrightarrow> soft w w2"
  by (simp add: soft_def)

lemma in_list_kinds: "in_list w a (\<lambda>p. f (st p) (local_port p)) \<longleftrightarrow> (case kinds w a of None \<Rightarrow> False | Some (s, l) \<Rightarrow> f s l)"
  by (simp add: in_list_def kinds_def split: option.splits)

lemma kinds_None: "pcbs w a = None \<longleftrightarrow> kinds w a = None"
  by (simp add: kinds_def)

lemma soft_typed: "soft w w' \<Longrightarrow> lists_typed w' = lists_typed w"
  unfolding lists_typed_def soft_def tcp_pcb_lists_def
  using in_list_kinds [of w _ "\<lambda>s l. active_state s"] in_list_kinds [of w' _ "\<lambda>s l. active_state s"]
    in_list_kinds [of w _ "\<lambda>s l. s = TIME_WAIT"] in_list_kinds [of w' _ "\<lambda>s l. s = TIME_WAIT"]
    in_list_kinds [of w _ "\<lambda>s l. s = CLOSED \<and> l \<noteq> 0"] in_list_kinds [of w' _ "\<lambda>s l. s = CLOSED \<and> l \<noteq> 0"]
    in_list_kinds [of w _ "\<lambda>s l. s = LISTEN"] in_list_kinds [of w' _ "\<lambda>s l. s = LISTEN"]
  by (simp add: kinds_None)

lemma soft_keeps: "soft w w' \<Longrightarrow> lists_typed w \<Longrightarrow> lists_typed w'"
  by (simp add: soft_typed)

lemma soft_unlisted: "soft w w' \<Longrightarrow> unlisted a w' = unlisted a w"
  by (simp add: soft_def unlisted_def tcp_pcb_lists_def)

lemma soft_live: "soft w w' \<Longrightarrow> pcbs w' a = None \<longleftrightarrow> pcbs w a = None"
  by (simp add: soft_def kinds_None)

lemma soft_upd [simp]: "(\<And>p. st (f p) = st p) \<Longrightarrow> (\<And>p. local_port (f p) = local_port p) \<Longrightarrow> soft w (upd_pcb a f w)"
  by (auto simp: soft_def upd_pcb_def pool_free_def kinds_def option.map_comp comp_def)

lemma soft_say [simp]: "soft w (say cs w)"
  by (simp add: soft_def say_def pool_free_def kinds_def fun_eq_iff)

lemma soft_say_on: "soft w w1 \<Longrightarrow> soft w (say cs w1)"
  by (rule soft_trans [OF _ soft_say])

section \<open>Buffers do not matter\<close>

lemma memp_free_other: "memp_free t a tb = Some tb' \<Longrightarrow> t' \<noteq> t \<Longrightarrow> tb' t' = tb t'"
  by (auto simp: memp_free_def split: option.splits)

definition pools_eq :: "pmem \<Rightarrow> pmem \<Rightarrow> bool" where
  "pools_eq m m' \<longleftrightarrow> tabs m' MEMP_TCP_PCB = tabs m MEMP_TCP_PCB \<and> tabs m' MEMP_TCP_PCB_LISTEN = tabs m MEMP_TCP_PCB_LISTEN"

lemma pools_eq_refl [simp]: "pools_eq m m"
  by (simp add: pools_eq_def)

lemma pools_eq_trans: "pools_eq m m1 \<Longrightarrow> pools_eq m1 m2 \<Longrightarrow> pools_eq m m2"
  by (simp add: pools_eq_def)

lemma soft_pm: "pools_eq (pm w) m \<Longrightarrow> soft w (w\<lparr>pm := m\<rparr>)"
  by (simp add: soft_def pools_eq_def pool_free_def kinds_def fun_eq_iff)

lemma dealloc_pools: "pbuf_dealloc a pb m = Some m' \<Longrightarrow> pools_eq m m'"
  by (auto simp: pbuf_dealloc_def Let_def pools_eq_def mem_free_def dest: memp_free_other split: if_splits)

lemma free_loop_step:
  assumes "\<And>c m b y. loop c m b = Some y \<Longrightarrow> pools_eq b (snd y)" "pbufs m a = Some pb"
    "(let r = pref pb - 1; m = upd a (pref_update (\<lambda>_. r)) m in if r = 0 then pbuf_dealloc a pb m \<bind> loop (pnext pb) (c + 1) else Some (c, m)) = Some y"
  shows "pools_eq m (snd y)"
proof (cases "pref pb - 1 = 0")
  case True
  let ?m = "upd a (pref_update (\<lambda>_. pref pb - 1)) m"
  obtain m1 where m1: "pbuf_dealloc a pb ?m = Some m1" "loop (pnext pb) (c + 1) m1 = Some y"
    using assms(3) True by (auto simp: Let_def bind_eq_Some_conv)
  have "pools_eq m ?m" by (simp add: pools_eq_def upd_def)
  then show ?thesis using assms(1) [OF m1(2)] dealloc_pools [OF m1(1)] pools_eq_trans by blast
next
  case False
  then show ?thesis using assms(3) by (auto simp: Let_def pools_eq_def upd_def)
qed

lemma free_loop_pools:
  assumes "pbuf_free_loop p c m = Some r"
  shows "pools_eq m (snd r)"
proof (rule pbuf_free_loop.raw_induct [OF _ assms, where P = "\<lambda>p c m y. pools_eq m (snd y)"])
  fix loop p c m y
  assume ih: "\<And>c m b y. loop c m b = Some y \<Longrightarrow> pools_eq b (snd y)" and e: "(case p of None \<Rightarrow> Some (c, m) | Some a \<Rightarrow>
      pbufs m a \<bind> (\<lambda>pb. assert_that (0 < pref pb) \<bind> (\<lambda>_. let r = pref pb - 1; m = upd a (pref_update (\<lambda>_. r)) m
        in if r = 0 then pbuf_dealloc a pb m \<bind> loop (pnext pb) (c + 1) else Some (c, m)))) = Some y"
  show "pools_eq m (snd y)"
  proof (cases p)
    case None
    then show ?thesis using e by auto
  next
    case (Some a)
    then obtain pb where "pbufs m a = Some pb" "(let r = pref pb - 1; m = upd a (pref_update (\<lambda>_. r)) m
        in if r = 0 then pbuf_dealloc a pb m \<bind> loop (pnext pb) (c + 1) else Some (c, m)) = Some y"
      using e by (auto simp only: option.case bind_eq_Some_conv)
    then show ?thesis using free_loop_step [of loop] ih by blast
  qed
qed

lemma pbuf_free_pools: "pbuf_free p m = Some r \<Longrightarrow> pools_eq m (snd r)"
  by (auto simp: pbuf_free_def bind_eq_Some_conv dest: free_loop_pools)

lemma seg_free_pools: "tcp_seg_free sg m = Some m' \<Longrightarrow> pools_eq m m'"
proof -
  assume "tcp_seg_free sg m = Some m'"
  then obtain m1 t where m1: "(case seg_p sg of None \<Rightarrow> Some m | Some p \<Rightarrow> map_option snd (pbuf_free (Some p) m)) = Some m1"
    "memp_free MEMP_TCP_SEG (Some (seg_addr sg)) (tabs m1) = Some t" "m' = m1\<lparr>tabs := t\<rparr>"
    by (auto simp: tcp_seg_free_def bind_eq_Some_conv)
  have "pools_eq m m1" using m1(1) by (auto split: option.splits dest: pbuf_free_pools)
  moreover have "pools_eq m1 m'" using m1(2,3) by (auto simp: pools_eq_def dest: memp_free_other)
  ultimately show ?thesis by (rule pools_eq_trans)
qed

lemma segs_free_pools: "tcp_segs_free segs m = Some m' \<Longrightarrow> pools_eq m m'"
  by (induction segs arbitrary: m) (auto simp: bind_eq_Some_conv dest: seg_free_pools intro: pools_eq_trans)

section \<open>Steps that matter\<close>

lemma RMV_subset: "set (TCP_RMV xs a) \<subseteq> set xs"
  by (induction xs) auto

lemma RMV_distinct [simp]: "distinct xs \<Longrightarrow> distinct (TCP_RMV xs a)"
  by (induction xs) (use RMV_subset in auto)

lemma RMV_set [simp]: "distinct xs \<Longrightarrow> set (TCP_RMV xs a) = set xs - {a}"
  by (induction xs) auto

text \<open>A pcb can only be in the list its state says.\<close>

lemma typed_where:
  assumes "lists_typed w" "pcbs w a = Some p"
  shows "a \<in> set (active_pcbs w) \<Longrightarrow> active_state (st p)" "a \<in> set (tw_pcbs w) \<Longrightarrow> st p = TIME_WAIT"
    "a \<in> set (bound_pcbs w) \<Longrightarrow> st p = CLOSED \<and> local_port p \<noteq> 0" "a \<in> set (listen_pcbs w) \<Longrightarrow> st p = LISTEN"
  using assms by (force simp: lists_typed_def in_list_def)+

lemma typed_listed: "lists_typed w \<Longrightarrow> a \<in> set (tcp_pcb_lists w) \<Longrightarrow> pcbs w a \<noteq> None"
  by (auto simp: lists_typed_def tcp_pcb_lists_def in_list_def split: option.splits)

text \<open>Shrinking lists keeps the typing.\<close>

lemma typed_shrink:
  assumes "lists_typed w" "pcbs w' = pcbs w" "pool_free w' = pool_free w"
    "set (active_pcbs w') \<subseteq> set (active_pcbs w)" "set (tw_pcbs w') \<subseteq> set (tw_pcbs w)"
    "set (bound_pcbs w') \<subseteq> set (bound_pcbs w)" "set (listen_pcbs w') \<subseteq> set (listen_pcbs w)"
    "distinct (active_pcbs w')" "distinct (tw_pcbs w')" "distinct (bound_pcbs w')" "distinct (listen_pcbs w')"
  shows "lists_typed w'"
proof -
  have "in_list w' a ok = in_list w a ok" for a ok using assms(2) by (simp add: in_list_def)
  moreover have "distinct (tcp_pcb_lists w')" using assms(1,4-) unfolding lists_typed_def tcp_pcb_lists_def distinct_append set_append by blast
  ultimately show ?thesis using assms unfolding lists_typed_def by auto
qed

lemma typed_distinct:
  assumes "lists_typed w"
  shows "distinct (active_pcbs w)" "distinct (tw_pcbs w)" "distinct (bound_pcbs w)" "distinct (listen_pcbs w)"
  using assms by (simp_all add: lists_typed_def tcp_pcb_lists_def)

lemma pool_free_lists [simp]:
  "pool_free (w\<lparr>active_pcbs := xs\<rparr>) = pool_free w" "pool_free (w\<lparr>tw_pcbs := xs\<rparr>) = pool_free w"
  "pool_free (w\<lparr>bound_pcbs := xs\<rparr>) = pool_free w" "pool_free (w\<lparr>listen_pcbs := xs\<rparr>) = pool_free w"
  "pool_free (w\<lparr>active_changed := b\<rparr>) = pool_free w" "pool_free (w\<lparr>recv_flags := rf\<rparr>) = pool_free w"
  "pool_free (w\<lparr>tcp_port := po\<rparr>) = pool_free w" "pool_free (w\<lparr>pcbs := t\<rparr>) = pool_free w" "pool_free (upd_pcb a f w) = pool_free w"
  "pool_free (say cs w) = pool_free w"
  by (simp_all add: pool_free_def upd_pcb_def say_def)

text \<open>Taking the pcb out of the list of its state leaves it in none.\<close>

lemma unlist_set_list:
  assumes "lists_typed w" "pcbs w a = Some p"
    "(case l of Active \<Rightarrow> active_state (st p) | Tw \<Rightarrow> st p = TIME_WAIT | Listening \<Rightarrow> st p = LISTEN)"
  shows "lists_typed (set_list l (TCP_RMV (get_list l w) a) w)" "unlisted a (set_list l (TCP_RMV (get_list l w) a) w)"
proof -
  note d = typed_distinct [OF assms(1)] and wh = typed_where [OF assms(1,2)]
  show "lists_typed (set_list l (TCP_RMV (get_list l w) a) w)"
    by (rule typed_shrink [OF assms(1)]; cases l) (use d in \<open>auto\<close>)
  show "unlisted a (set_list l (TCP_RMV (get_list l w) a) w)"
    using wh assms(3) d by (cases l) (auto simp: unlisted_def tcp_pcb_lists_def active_state_def)
qed

lemma unlist_bound:
  assumes "lists_typed w" "pcbs w a = Some p" "st p = CLOSED"
    "w' = (if local_port p \<noteq> 0 then w\<lparr>bound_pcbs := TCP_RMV (bound_pcbs w) a\<rparr> else w)"
  shows "lists_typed w'" "unlisted a w'"
proof -
  note d = typed_distinct [OF assms(1)] and wh = typed_where [OF assms(1,2)]
  show "lists_typed w'" by (rule typed_shrink [OF assms(1)]) (use d in \<open>auto simp: assms(4)\<close>)
  show "unlisted a w'" using wh assms(3) d by (auto simp: unlisted_def tcp_pcb_lists_def active_state_def assms(4))
qed

text \<open>What happens to a pcb in no list does not matter.\<close>

lemma typed_elsewhere:
  assumes "lists_typed w" "unlisted a w" "\<And>x. x \<noteq> a \<Longrightarrow> pcbs w' x = pcbs w x" "tcp_pcb_lists w' = tcp_pcb_lists w"
    "active_pcbs w' = active_pcbs w" "tw_pcbs w' = tw_pcbs w" "bound_pcbs w' = bound_pcbs w" "listen_pcbs w' = listen_pcbs w"
    "distinct (pool_free w')" "\<And>x. x \<in> set (pool_free w') \<Longrightarrow> pcbs w' x = None"
  shows "lists_typed w'"
proof -
  have "in_list w' x ok = in_list w x ok" if "x \<in> set (tcp_pcb_lists w)" for x ok
  proof -
    have "x \<noteq> a" using assms(2) that by (auto simp: unlisted_def)
    then show ?thesis using assms(3) by (simp add: in_list_def)
  qed
  then show ?thesis using assms unfolding lists_typed_def by (auto simp: tcp_pcb_lists_def)
qed

lemma lists_upd [simp]:
  "tcp_pcb_lists (upd_pcb a f w) = tcp_pcb_lists w" "bound_pcbs (upd_pcb a f w) = bound_pcbs w" "listen_pcbs (upd_pcb a f w) = listen_pcbs w"
  "tcp_pcb_lists (say cs w) = tcp_pcb_lists w" "bound_pcbs (say cs w) = bound_pcbs w" "listen_pcbs (say cs w) = listen_pcbs w"
  "tcp_pcb_lists (w\<lparr>pm := m\<rparr>) = tcp_pcb_lists w" "tcp_pcb_lists (w\<lparr>pcbs := t\<rparr>) = tcp_pcb_lists w"
  by (simp_all add: tcp_pcb_lists_def upd_pcb_def say_def)

lemma typed_pool: "lists_typed w \<Longrightarrow> x \<in> set (pool_free w) \<Longrightarrow> pcbs w x = None"
  by (simp add: lists_typed_def)

lemma typed_upd_unlisted: "lists_typed w \<Longrightarrow> unlisted a w \<Longrightarrow> lists_typed (upd_pcb a f w)"
proof -
  assume l: "lists_typed w" and u: "unlisted a w"
  have d: "distinct (pool_free w)" using l by (simp add: lists_typed_def)
  show ?thesis by (rule typed_elsewhere [OF l u]) (use d typed_pool [OF l] in auto)
qed

lemma typed_free:
  assumes "lists_typed w" "unlisted a w" "free_pcb t a w = Some w'" "t = MEMP_TCP_PCB \<or> t = MEMP_TCP_PCB_LISTEN"
  shows "lists_typed w'"
proof -
  obtain p tb where p: "pcbs w a = Some p" "memp_free t (Some a) (tabs (pm w)) = Some tb" "w' = w\<lparr>pm := (pm w)\<lparr>tabs := tb\<rparr>, pcbs := (pcbs w)(a := None)\<rparr>"
    using assms(3) by (auto simp: free_pcb_def bind_eq_Some_conv)
  have tb: "tb = (tabs (pm w))(t := a # tabs (pm w) t)" using p(2) by (auto simp: memp_free_def do_memp_free_pool_def assert_that_def split: if_splits)
  have a: "a \<notin> set (pool_free w)" using typed_pool [OF assms(1)] p(1) by auto
  have "distinct (pool_free w)" using assms(1) by (simp add: lists_typed_def)
  then have "distinct (pool_free w')" "set (pool_free w') = insert a (set (pool_free w))"
    using assms(4) a by (auto simp: p(3) tb pool_free_def)
  then show ?thesis using assms(1,2) p(3) typed_pool [OF assms(1)] by (intro typed_elsewhere [OF assms(1,2)]) auto
qed

lemma tcp_free_frees:
  assumes "tcp_free a w = Some w'"
  shows "pcbs w' = (pcbs w)(a := None)" "set (pool_free w') = insert a (set (pool_free w))"
  using assms by (auto simp: tcp_free_def free_pcb_def bind_eq_Some_conv memp_free_def do_memp_free_pool_def pool_free_def split: if_splits)

text \<open>Nor does a change between two states of connections.\<close>

lemma typed_active:
  assumes "lists_typed w" "pcbs w a = Some p" "active_state (st p)" "active_state (st (f p))"
  shows "lists_typed (upd_pcb a f w)"
proof -
  note wh = typed_where [OF assms(1,2)]
  have x: "a \<notin> set (tw_pcbs w)" "a \<notin> set (bound_pcbs w)" "a \<notin> set (listen_pcbs w)" using wh assms(3) by (auto simp: active_state_def)
  then show ?thesis using assms unfolding lists_typed_def tcp_pcb_lists_def by (auto simp: in_list_def)
qed

section \<open>The operations\<close>

lemma purge_soft: "tcp_pcb_purge a w = Some w' \<Longrightarrow> soft w w'"
proof -
  assume p: "tcp_pcb_purge a w = Some w'"
  then obtain pcb where pcb: "pcbs w a = Some pcb" by (auto simp: tcp_pcb_purge_def bind_eq_Some_conv)
  show ?thesis
  proof (cases "st pcb \<noteq> CLOSED \<and> st pcb \<noteq> TIME_WAIT \<and> st pcb \<noteq> LISTEN")
    case True
    then obtain m1 m2 m3 where m: "(case refused_data pcb of None \<Rightarrow> Some (pm w) | Some p \<Rightarrow> map_option snd (pbuf_free (Some p) (pm w))) = Some m1"
      "tcp_segs_free (unsent pcb) m1 = Some m2" "tcp_segs_free (unacked pcb) m2 = Some m3"
      "w' = upd_pcb a (\<lambda>p. p\<lparr>refused_data := None, rtime := - 1, unsent := [], unacked := [], unsent_oversize := 0\<rparr>) (w\<lparr>pm := m3\<rparr>)"
      using p pcb by (auto simp: tcp_pcb_purge_def bind_eq_Some_conv)
    have "pools_eq (pm w) m1" using m(1) by (auto split: option.splits dest: pbuf_free_pools)
    then have "pools_eq (pm w) m3" using segs_free_pools [OF m(2)] segs_free_pools [OF m(3)] pools_eq_trans by blast
    then have "soft w (w\<lparr>pm := m3\<rparr>)" by (rule soft_pm)
    then show ?thesis unfolding m(4) by (rule soft_trans) (rule soft_upd, simp_all)
  qed (use p pcb in \<open>auto simp: tcp_pcb_purge_def\<close>)
qed

lemma remove_typed:
  assumes "lists_typed w" "pcbs w a = Some p" "tcp_pcb_remove l a w = Some w'"
    "(case l of Active \<Rightarrow> active_state (st p) | Tw \<Rightarrow> st p = TIME_WAIT | Listening \<Rightarrow> st p = LISTEN)"
  shows "lists_typed w'" "unlisted a w'"
proof -
  let ?w = "set_list l (TCP_RMV (get_list l w) a) w"
  obtain w1 p1 where w1: "tcp_pcb_purge a ?w = Some w1" "pcbs w1 a = Some p1" "w' = upd_pcb a (\<lambda>p. p\<lparr>st := CLOSED, local_port := 0\<rparr>)
      (if st p1 \<noteq> TIME_WAIT \<and> st p1 \<noteq> LISTEN \<and> tcp_flags p1 AND TF_ACK_DELAY \<noteq> 0 then say [Output a] (upd_pcb a (set_flags TF_ACK_NOW) w1) else w1)"
    (is "_ = upd_pcb a ?f ?v")
    using assms(3) by (auto simp: tcp_pcb_remove_def bind_eq_Some_conv)
  have "soft w1 ?v" by (simp add: soft_say_on set_flags_def)
  then have "soft ?w ?v" using purge_soft [OF w1(1)] soft_trans by blast
  then have v: "lists_typed ?v" "unlisted a ?v"
    using unlist_set_list [OF assms(1,2,4)] soft_typed soft_unlisted by blast+
  then show "lists_typed w'" "unlisted a w'" using typed_upd_unlisted w1(3) by (blast, simp add: unlisted_def)
qed

lemma soft_changed [simp]: "soft w (w\<lparr>active_changed := b\<rparr>)" "soft w (w\<lparr>recv_flags := rf\<rparr>)" "soft w (w\<lparr>tcp_port := po\<rparr>)"
  by (simp_all add: soft_def kinds_def fun_eq_iff)

lemma remove_active_typed:
  assumes "lists_typed w" "pcbs w a = Some p" "tcp_pcb_remove_active a w = Some w'" "active_state (st p)"
  shows "lists_typed w'" "unlisted a w'"
proof -
  obtain w1 where w1: "tcp_pcb_remove Active a w = Some w1" "w' = w1\<lparr>active_changed := True\<rparr>"
    using assms(3) by (auto simp: tcp_pcb_remove_active_def bind_eq_Some_conv)
  have t: "lists_typed w1" "unlisted a w1" using remove_typed [OF assms(1,2) w1(1)] assms(4) by simp_all
  then show "lists_typed w'" "unlisted a w'" using w1(2) soft_typed [of w1 w'] soft_unlisted [of w1 w'] by simp_all
qed

lemma tcp_free_typed: "lists_typed w \<Longrightarrow> unlisted a w \<Longrightarrow> tcp_free a w = Some w' \<Longrightarrow> lists_typed w'"
  using typed_free by (auto simp: tcp_free_def)

lemma abandon_typed:
  assumes "lists_typed w" "tcp_abandon a r w = Some w'"
  shows "lists_typed w'"
proof -
  obtain p where p: "pcbs w a = Some p" "st p \<noteq> LISTEN" using assms(2) by (auto simp: tcp_abandon_def bind_eq_Some_conv assert_that_def split: if_splits)
  show ?thesis
  proof (cases "st p = TIME_WAIT")
    case True
    then obtain w1 where w1: "tcp_pcb_remove Tw a w = Some w1" "tcp_free a w1 = Some w'"
      using assms(2) p by (auto simp: tcp_abandon_def bind_eq_Some_conv assert_that_def)
    then show ?thesis using remove_typed [OF assms(1) p(1) w1(1)] True tcp_free_typed [OF _ _ w1(2)] by simp
  next
    case False
    then obtain s l w1 p1 m1 m2 w2 where w1: "(if st p = CLOSED then
            Some (False, 0, if local_port p \<noteq> 0 then w\<lparr>bound_pcbs := TCP_RMV (bound_pcbs w) a\<rparr> else w)
          else map_option (\<lambda>w. (r, local_port p, w)) (tcp_pcb_remove_active a w)) = Some (s, l, w1)"
      "pcbs w1 a = Some p1" "tcp_segs_free (unacked p1) (pm w1) = Some m1" "tcp_segs_free (unsent p1) m1 = Some m2"
      "tcp_free a (if s then say [Rst (snd_nxt p) (rcv_nxt p) (local_ip p1) (remote_ip p1) l (remote_port p1)] (w1\<lparr>pm := m2\<rparr>) else w1\<lparr>pm := m2\<rparr>) = Some w2"
      "w' = (if err_cb p then say [Errf (callback_arg p) ERR_ABRT] w2 else w2)"
      using assms(2) p by (auto simp: tcp_abandon_def bind_eq_Some_conv assert_that_def Let_def)
    have t1: "lists_typed w1 \<and> unlisted a w1"
    proof (cases "st p = CLOSED")
      case True
      then show ?thesis using unlist_bound [OF assms(1) p(1) True refl] w1(1) by auto
    next
      case cl: False
      have "active_state (st p)" using cl p(2) \<open>st p \<noteq> TIME_WAIT\<close> by (simp add: active_state_def)
      then show ?thesis using remove_active_typed [OF assms(1) p(1)] w1(1) cl by auto
    qed
    have "soft w1 (w1\<lparr>pm := m2\<rparr>)" using segs_free_pools [OF w1(3)] segs_free_pools [OF w1(4)] pools_eq_trans soft_pm by blast
    then have "soft w1 (if s then say [Rst (snd_nxt p) (rcv_nxt p) (local_ip p1) (remote_ip p1) l (remote_port p1)] (w1\<lparr>pm := m2\<rparr>) else w1\<lparr>pm := m2\<rparr>)"
      by (simp add: soft_say_on)
    then have "lists_typed w2" using t1 w1(5) tcp_free_typed soft_typed soft_unlisted by blast
    then show ?thesis using w1(6) soft_typed [of w2 w'] by (cases "err_cb p") simp_all
  qed
qed

lemma listen_closed_soft: "tcp_listen_closed a w = Some w' \<Longrightarrow> soft w w'"
  by (auto simp: tcp_listen_closed_def bind_eq_Some_conv soft_def kinds_def fun_eq_iff option.map_comp comp_def
      if_distrib [where f = st] if_distrib [where f = local_port] cong: if_cong)

definition fin_soft :: "(nat \<Rightarrow> tcpw \<Rightarrow> err_t \<times> tcpw) \<Rightarrow> bool" where
  "fin_soft send_fin \<longleftrightarrow> (\<forall>a w. soft w (snd (send_fin a w)))"

lemma soft_kind:
  assumes "soft w w'" "pcbs w a = Some p"
  obtains p' where "pcbs w' a = Some p'" "st p' = st p" "local_port p' = local_port p"
proof -
  have "kinds w' a = kinds w a" using assms(1) by (simp add: soft_def)
  then show ?thesis using assms(2) that by (auto simp: kinds_def)
qed

lemma shutdown_fin_typed:
  assumes "fin_soft send_fin" "lists_typed w" "tcp_close_shutdown_fin send_fin a w = Some (e, w')"
  shows "lists_typed w'"
proof -
  obtain p where p: "pcbs w a = Some p" using assms(3) by (auto simp: tcp_close_shutdown_fin_def bind_eq_Some_conv)
  show ?thesis
  proof (cases "st p = SYN_RCVD \<or> st p = ESTABLISHED \<or> st p = CLOSE_WAIT")
    case True
    obtain e1 w1 where w1: "send_fin a w = (e1, w1)" by (cases "send_fin a w")
    then have s: "soft w w1" using assms(1) by (metis fin_soft_def snd_conv)
    obtain p1 where p1: "pcbs w1 a = Some p1" "st p1 = st p" using soft_kind [OF s p] by blast
    have t1: "lists_typed w1" using soft_typed [OF s] assms(2) by simp
    let ?f = "\<lambda>q. q\<lparr>st := if st p = CLOSE_WAIT then LAST_ACK else FIN_WAIT_1\<rparr>"
    have t2: "lists_typed (upd_pcb a ?f w1)" using True p1 by (intro typed_active [OF t1]) (auto simp: active_state_def)
    have t3: "lists_typed (upd_pcb a (set_flags TF_CLOSEPEND) w1)" using t1 soft_typed [OF soft_upd] by (simp add: set_flags_def)
    show ?thesis
    proof (cases "e1 = ERR_OK")
      case ok: True
      then have "w' = say [Output a] (upd_pcb a ?f w1)" using assms(3) True p w1 by (simp add: tcp_close_shutdown_fin_def Let_def)
      then show ?thesis using t2 soft_typed [OF soft_say] by metis
    next
      case False
      then show ?thesis using assms(3) True p w1 t1 t3 by (auto simp: tcp_close_shutdown_fin_def Let_def split: if_splits)
    qed
  next
    case False
    then show ?thesis using assms(2,3) p by (auto simp: tcp_close_shutdown_fin_def)
  qed
qed

lemma rst_close_typed:
  assumes "lists_typed w" "pcbs w a = Some p" "active_state (st p)" "tcp_pcb_purge a (say cs w) = Some w1"
    "w2 = w1\<lparr>active_pcbs := TCP_RMV (active_pcbs w1) a, active_changed := True\<rparr>"
  shows "lists_typed w2" "unlisted a w2"
proof -
  have s: "soft w w1" using purge_soft [OF assms(4)] soft_say soft_trans by blast
  obtain p1 where p1: "pcbs w1 a = Some p1" "st p1 = st p" using soft_kind [OF s assms(2)] by blast
  have t1: "lists_typed w1" using soft_typed [OF s] assms(1) by simp
  note u = unlist_set_list [OF t1 p1(1), of Active]
  have "soft (set_list Active (TCP_RMV (get_list Active w1) a) w1) w2" by (simp add: assms(5))
  then show "lists_typed w2" "unlisted a w2" using u assms(3) p1(2) soft_typed soft_unlisted by (metis pcblist.case(1))+
qed

lemma close_shutdown_typed:
  assumes fin: "fin_soft send_fin" and t: "lists_typed w" and c: "tcp_close_shutdown send_fin a b w = Some (e, w')"
  shows "lists_typed w'"
proof -
  obtain p where p: "pcbs w a = Some p" using c by (auto simp: tcp_close_shutdown_def bind_eq_Some_conv)
  show ?thesis
  proof (cases "b \<and> (st p = ESTABLISHED \<or> st p = CLOSE_WAIT) \<and> (refused_data p \<noteq> None \<or> rcv_wnd p \<noteq> TCP_WND_MAX p)")
    case True
    then obtain cs w1 w2 where w2: "tcp_pcb_purge a (say cs w) = Some w1" "w2 = w1\<lparr>active_pcbs := TCP_RMV (active_pcbs w1) a, active_changed := True\<rparr>"
      "w' = w2\<lparr>recv_flags := recv_flags w2 OR TF_CLOSED\<rparr> \<or> tcp_free a w2 = Some w'"
      using c p by (auto simp: tcp_close_shutdown_def bind_eq_Some_conv Let_def split: if_splits)
    have "lists_typed w2" "unlisted a w2" using rst_close_typed [OF t p _ w2(1,2)] True by (auto simp: active_state_def)
    then show ?thesis using w2(3) tcp_free_typed soft_typed [of w2 w'] by auto
  next
    case ff: False
    show ?thesis
    proof (cases "st p")
      case CLOSED
      let ?v = "if local_port p \<noteq> 0 then w\<lparr>bound_pcbs := TCP_RMV (bound_pcbs w) a\<rparr> else w"
      have "tcp_free a ?v = Some w'" using c p ff CLOSED by (auto simp: tcp_close_shutdown_def bind_eq_Some_conv Let_def)
      then show ?thesis using tcp_free_typed unlist_bound [OF t p CLOSED refl] by blast
    next
      case LISTEN
      then obtain w1 w2 where w1: "tcp_listen_closed a w = Some w1" "tcp_pcb_remove Listening a w1 = Some w2" "tcp_free_listen a w2 = Some w'"
        using c p ff by (auto simp: tcp_close_shutdown_def bind_eq_Some_conv)
      note s = listen_closed_soft [OF w1(1)]
      obtain p1 where p1: "pcbs w1 a = Some p1" "st p1 = LISTEN" using soft_kind [OF s p] LISTEN by metis
      have "lists_typed w1" using soft_typed [OF s] t by simp
      then have "lists_typed w2" "unlisted a w2" using remove_typed [OF _ p1(1) w1(2)] p1(2) by simp_all
      then show ?thesis using typed_free w1(3) unfolding tcp_free_listen_def by blast
    next
      case SYN_SENT
      then obtain w1 where w1: "tcp_pcb_remove_active a w = Some w1" "tcp_free a w1 = Some w'"
        using c p ff by (auto simp: tcp_close_shutdown_def bind_eq_Some_conv)
      then show ?thesis using remove_active_typed [OF t p w1(1)] SYN_SENT tcp_free_typed by (simp add: active_state_def)
    qed (use c p ff shutdown_fin_typed [OF fin t] in \<open>auto simp: tcp_close_shutdown_def\<close>)
  qed
qed

lemma close_typed: "fin_soft send_fin \<Longrightarrow> lists_typed w \<Longrightarrow> tcp_close send_fin a w = Some (e, w') \<Longrightarrow> lists_typed w'"
proof -
  assume "fin_soft send_fin" "lists_typed w" "tcp_close send_fin a w = Some (e, w')"
  then obtain w1 where "tcp_close_shutdown send_fin a True w1 = Some (e, w')" "soft w w1"
    by (auto simp: tcp_close_def bind_eq_Some_conv Let_def set_flags_def split: if_splits)
  then show ?thesis using close_shutdown_typed \<open>fin_soft send_fin\<close> \<open>lists_typed w\<close> soft_typed by blast
qed

text \<open>An address taken from a pool: not in use, and no longer offered.\<close>

lemma take_typed:
  assumes "lists_typed w" "take_pcb ty w = Some (r, w')" "ty = MEMP_TCP_PCB \<or> ty = MEMP_TCP_PCB_LISTEN"
  shows "lists_typed w'" "r = Some a \<Longrightarrow> a \<notin> set (pool_free w') \<and> unlisted a w' \<and> pcbs w' a = None"
    "pcbs w' = pcbs w" "tcp_pcb_lists w' = tcp_pcb_lists w" "bound_pcbs w' = bound_pcbs w"
proof -
  obtain t where t: "memp_malloc ty (tabs (pm w)) = Some (r, t)" "w' = w\<lparr>pm := (pm w)\<lparr>tabs := t\<rparr>\<rparr>"
    using assms(2) by (auto simp: take_pcb_def bind_eq_Some_conv)
  have d: "distinct (pool_free w)" using assms(1) by (simp add: lists_typed_def)
  have tk: "r = None \<and> t = tabs (pm w) \<or> (\<exists>x xs. r = Some x \<and> tabs (pm w) ty = x # xs \<and> t = (tabs (pm w))(ty := xs))"
    using t(1) by (auto simp: memp_malloc_def do_memp_malloc_pool_def assert_that_def split: list.splits if_splits)
  have p: "distinct (pool_free w')" "set (pool_free w') \<subseteq> set (pool_free w)" "r = Some a \<Longrightarrow> a \<in> set (pool_free w) - set (pool_free w')"
    using tk assms(3) d by (auto simp: pool_free_def t(2))
  show l: "pcbs w' = pcbs w" "tcp_pcb_lists w' = tcp_pcb_lists w" "bound_pcbs w' = bound_pcbs w" by (simp_all add: t(2))
  have "in_list w' x ok = in_list w x ok" for x ok by (simp add: in_list_def t(2))
  then show t': "lists_typed w'" using assms(1) p(1,2) unfolding lists_typed_def by (auto simp: t(2))
  show "a \<notin> set (pool_free w') \<and> unlisted a w' \<and> pcbs w' a = None" if "r = Some a"
  proof -
    have "a \<in> set (pool_free w)" "a \<notin> set (pool_free w')" using p(3) [OF that] by auto
    moreover from this have "pcbs w' a = None" using typed_pool [OF assms(1)] by (simp add: l(1))
    ultimately show ?thesis using typed_listed [OF t', of a] by (auto simp: unlisted_def)
  qed
qed

lemma typed_new:
  assumes "lists_typed w" "a \<notin> set (pool_free w)" "unlisted a w"
  shows "lists_typed (w\<lparr>pcbs := (pcbs w)(a \<mapsto> p)\<rparr>)"
proof -
  have "distinct (pool_free w)" using assms(1) by (simp add: lists_typed_def)
  then show ?thesis using typed_pool [OF assms(1)] assms(2) by (intro typed_elsewhere [OF assms(1,3)]) auto
qed

lemma kill_prio_typed: "lists_typed w \<Longrightarrow> tcp_kill_prio p w = Some w' \<Longrightarrow> lists_typed w'"
  by (auto simp: tcp_kill_prio_def tcp_abort_def bind_eq_Some_conv Let_def abandon_typed split: if_splits option.splits)

lemma kill_state_typed: "lists_typed w \<Longrightarrow> tcp_kill_state s w = Some w' \<Longrightarrow> lists_typed w'"
  by (auto simp: tcp_kill_state_def bind_eq_Some_conv abandon_typed split: option.splits)

lemma kill_timewait_typed: "lists_typed w \<Longrightarrow> tcp_kill_timewait w = Some w' \<Longrightarrow> lists_typed w'"
  by (auto simp: tcp_kill_timewait_def tcp_abort_def bind_eq_Some_conv abandon_typed split: option.splits)

lemma closepend_typed: "fin_soft send_fin \<Longrightarrow> lists_typed w \<Longrightarrow> closepend_loop send_fin as w = Some w' \<Longrightarrow> lists_typed w'"
proof (induction as arbitrary: w)
  case (Cons a as)
  then obtain pcb w1 where w1: "pcbs w a = Some pcb" "(if tcp_flags pcb AND TF_CLOSEPEND \<noteq> 0
      then map_option snd (tcp_close_shutdown_fin send_fin a (upd_pcb a (clear_flags TF_CLOSEPEND) w)) else Some w) = Some w1"
    "closepend_loop send_fin as w1 = Some w'" by (auto simp: bind_eq_Some_conv)
  have "lists_typed (upd_pcb a (clear_flags TF_CLOSEPEND) w)" using Cons.prems(2) soft_typed [OF soft_upd] by (simp add: clear_flags_def)
  then have "lists_typed w1" using w1(2) Cons.prems(1,2) shutdown_fin_typed by (fastforce split: if_splits)
  then show ?case using Cons.IH Cons.prems(1) w1(3) by blast
qed simp

definition got :: "nat option \<Rightarrow> tcpw \<Rightarrow> bool" where
  "got r w \<longleftrightarrow> lists_typed w \<and> (\<forall>a. r = Some a \<longrightarrow> a \<notin> set (pool_free w) \<and> unlisted a w)"

lemma take_got: "lists_typed w \<Longrightarrow> take_pcb MEMP_TCP_PCB w = Some (r, w') \<Longrightarrow> got r w'"
  using take_typed unfolding got_def by blast

lemma retry_got:
  assumes "got r w" "retry kill (r, w) = Some (r', w')" "\<And>v v'. lists_typed v \<Longrightarrow> kill v = Some v' \<Longrightarrow> lists_typed v'"
  shows "got r' w'"
proof (cases r)
  case None
  then obtain v where "kill w = Some v" "take_pcb MEMP_TCP_PCB v = Some (r', w')" using assms(2) by (auto simp: retry_def bind_eq_Some_conv)
  then show ?thesis using assms(1,3) take_got unfolding got_def by blast
next
  case (Some a)
  then show ?thesis using assms(1,2) by (simp add: retry_def)
qed

lemma alloc_typed:
  assumes fin: "fin_soft send_fin" and t: "lists_typed w" and al: "tcp_alloc send_fin p w = Some (r, w')"
  shows "lists_typed w'"
proof -
  obtain r1 w1 r2 w2 r3 w3 r4 w4 r5 w5 where s: "take_pcb MEMP_TCP_PCB w = Some (r1, w1)"
    "retry (\<lambda>w. do { w \<leftarrow> tcp_handle_closepend send_fin w; tcp_kill_timewait w }) (r1, w1) = Some (r2, w2)"
    "retry (tcp_kill_state LAST_ACK) (r2, w2) = Some (r3, w3)" "retry (tcp_kill_state CLOSING) (r3, w3) = Some (r4, w4)"
    "retry (tcp_kill_prio p) (r4, w4) = Some (r5, w5)" "w' = (case r5 of None \<Rightarrow> w5 | Some a \<Rightarrow> w5\<lparr>pcbs := (pcbs w5)(a \<mapsto> fresh_pcb p w5)\<rparr>)"
    using al by (auto simp: tcp_alloc_def bind_eq_Some_conv)
  have g1: "got r1 w1" using take_got t s(1) by blast
  have g2: "got r2 w2"
    by (rule retry_got [OF g1 s(2)]) (auto simp: bind_eq_Some_conv tcp_handle_closepend_def dest: closepend_typed [OF fin] intro: kill_timewait_typed)
  have g3: "got r3 w3" by (rule retry_got [OF g2 s(3)]) (rule kill_state_typed)
  have g4: "got r4 w4" by (rule retry_got [OF g3 s(4)]) (rule kill_state_typed)
  have "got r5 w5" by (rule retry_got [OF g4 s(5)]) (rule kill_prio_typed)
  then show ?thesis using s(6) typed_new by (auto simp: got_def split: option.splits)
qed

lemma typed_closed_free:
  assumes "lists_typed w" "pcbs w a = Some p" "st p = CLOSED" "local_port p = 0"
  shows "unlisted a w"
  using typed_where [OF assms(1,2)] assms(3,4) by (auto simp: unlisted_def tcp_pcb_lists_def active_state_def)

text \<open>Registering a pcb that is in no list.\<close>

lemma typed_reg:
  assumes "lists_typed w" "unlisted a w" "pcbs w a = Some p"
  shows "st p = CLOSED \<Longrightarrow> local_port p \<noteq> 0 \<Longrightarrow> lists_typed (w\<lparr>bound_pcbs := a # bound_pcbs w\<rparr>)"
    "st p = LISTEN \<Longrightarrow> lists_typed (w\<lparr>listen_pcbs := a # listen_pcbs w\<rparr>)"
  using assms by (auto simp: lists_typed_def unlisted_def tcp_pcb_lists_def in_list_def)

lemma bind_typed:
  assumes t: "lists_typed w" and p: "pcbs w a = Some p" "local_port p = 0" and b: "tcp_bind a ip port w = Some (e, w')"
  shows "lists_typed w'"
proof (cases "st p = CLOSED")
  case False
  then show ?thesis using t p b by (simp add: tcp_bind_def)
next
  case True
  obtain e1 po w1 where w1: "bind_port ip port w = Some (e1, po, w1)" "if e1 \<noteq> ERR_OK then w' = w1 else
      w' = (let w = upd_pcb a (\<lambda>p. p\<lparr>local_ip := if \<not> ip_addr_isany ip \<or> addr_type ip \<noteq> addr_type (local_ip p)
              then ip_addr_set ip else local_ip p, local_port := po\<rparr>) w1 in say [Timer_needed] (w\<lparr>bound_pcbs := a # bound_pcbs w\<rparr>))"
    using b p(1) True by (auto simp: tcp_bind_def bind_eq_Some_conv Let_def split: if_splits)
  have s: "soft w w1" "pcbs w1 = pcbs w" "e1 = ERR_OK \<Longrightarrow> po \<noteq> 0"
    using w1(1) by (auto simp: bind_port_def bind_eq_Some_conv tcp_new_port_def split: if_splits)
  have t1: "lists_typed w1" "unlisted a w1"
    using soft_typed [OF s(1)] soft_unlisted [OF s(1)] t typed_closed_free [OF t p(1) True p(2)] by simp_all
  show ?thesis
  proof (cases "e1 = ERR_OK")
    case ok: True
    let ?f = "\<lambda>p. p\<lparr>local_ip := if \<not> ip_addr_isany ip \<or> addr_type ip \<noteq> addr_type (local_ip p) then ip_addr_set ip else local_ip p, local_port := po\<rparr>"
    have "lists_typed (upd_pcb a ?f w1)" using typed_upd_unlisted [OF t1] .
    then have "lists_typed ((upd_pcb a ?f w1)\<lparr>bound_pcbs := a # bound_pcbs (upd_pcb a ?f w1)\<rparr>)"
      by (rule typed_reg(1) [where p = "?f p"]) (use t1(2) p(1) True s(2,3) ok in \<open>auto simp: unlisted_def\<close>)
    then have "lists_typed (say [Timer_needed] ((upd_pcb a ?f w1)\<lparr>bound_pcbs := a # bound_pcbs (upd_pcb a ?f w1)\<rparr>))"
      using soft_typed [OF soft_say] by blast
    then show ?thesis using w1(2) ok by (simp add: Let_def)
  qed (use w1(2) t1(1) in simp)
qed

lemma listen_typed:
  assumes t: "lists_typed w" and b: "tcp_listen_with_backlog_and_err a w = Some (r, e, w')"
  shows "lists_typed w'"
proof -
  obtain p where p: "pcbs w a = Some p" using b by (auto simp: tcp_listen_with_backlog_and_err_def bind_eq_Some_conv)
  show ?thesis
  proof (cases "st p = CLOSED")
    case False
    then show ?thesis using t p b by (simp add: tcp_listen_with_backlog_and_err_def)
  next
    case True
    then obtain l w1 where w1: "take_pcb MEMP_TCP_PCB_LISTEN w = Some (l, w1)"
      "(case l of None \<Rightarrow> w' = w1 | Some l \<Rightarrow> \<exists>w2. tcp_free a (if local_port p \<noteq> 0 then w1\<lparr>bound_pcbs := TCP_RMV (bound_pcbs w1) a\<rparr> else w1) = Some w2 \<and>
         w' = say [Timer_needed] (w2\<lparr>pcbs := (pcbs w2)(l \<mapsto> listen_pcb p), listen_pcbs := l # listen_pcbs w2\<rparr>))"
      using b p by (auto simp: tcp_listen_with_backlog_and_err_def bind_eq_Some_conv Let_def split: option.splits)
    note tk = take_typed [OF t w1(1), simplified]
    show ?thesis
    proof (cases l)
      case None
      then show ?thesis using w1(2) tk(1) by simp
    next
      case (Some x)
      let ?v = "if local_port p \<noteq> 0 then w1\<lparr>bound_pcbs := TCP_RMV (bound_pcbs w1) a\<rparr> else w1"
      obtain w2 where w2: "tcp_free a ?v = Some w2" "w' = say [Timer_needed] (w2\<lparr>pcbs := (pcbs w2)(x \<mapsto> listen_pcb p), listen_pcbs := x # listen_pcbs w2\<rparr>)"
        using w1(2) Some by auto
      have p1: "pcbs w1 a = Some p" using p tk(3) by simp
      have x: "x \<notin> set (pool_free w1)" "pcbs w1 x = None" using tk(2) [OF Some] by auto
      have v: "lists_typed ?v" "unlisted a ?v" using unlist_bound [OF tk(1) p1 True refl] .
      have t2: "lists_typed w2" using tcp_free_typed [OF v w2(1)] .
      have "pcbs ?v = pcbs w1" "pool_free ?v = pool_free w1" by simp_all
      moreover have "x \<noteq> a" using x(2) p1 by auto
      ultimately have x2: "x \<notin> set (pool_free w2)" "unlisted x w2"
        using tcp_free_frees [OF w2(1)] x p1 typed_listed [OF t2, of x] by (auto simp: unlisted_def)
      let ?u = "w2\<lparr>pcbs := (pcbs w2)(x \<mapsto> listen_pcb p)\<rparr>"
      have "lists_typed ?u" using typed_new [OF t2 x2] .
      then have "lists_typed (?u\<lparr>listen_pcbs := x # listen_pcbs ?u\<rparr>)"
        by (rule typed_reg) (use x2(2) in \<open>auto simp: unlisted_def listen_pcb_def\<close>)
      then show ?thesis using w2(2) soft_typed [OF soft_say] by simp
    qed
  qed
qed

lemma shutdown_typed:
  assumes fin: "fin_soft send_fin" and t: "lists_typed w" and c: "tcp_shutdown send_fin a rx tx w = Some (e, w')"
  shows "lists_typed w'"
proof -
  obtain p where p: "pcbs w a = Some p" using c by (auto simp: tcp_shutdown_def bind_eq_Some_conv)
  have s1: "soft w (if rx then upd_pcb a (set_flags TF_RXCLOSED) w else w)" (is "soft w ?v") by (simp add: set_flags_def)
  have s2: "soft ?v (upd_pcb a (\<lambda>p. p\<lparr>refused_data := None\<rparr>) (?v\<lparr>pm := m\<rparr>))" if "pbuf_free q (pm ?v) = Some (k, m)" for q k m
    using soft_trans [OF soft_pm soft_upd] pbuf_free_pools [OF that] by simp
  show ?thesis
  proof (cases "st p = LISTEN \<or> rx \<and> tx")
    case True
    then show ?thesis using c p t s1 soft_typed [OF s1] close_shutdown_typed [OF fin] by (auto simp: tcp_shutdown_def Let_def split: if_splits)
  next
    case False
    then obtain w1 where w1: "(if rx then case refused_data p of None \<Rightarrow> Some ?v
          | Some p \<Rightarrow> do { (_, m) \<leftarrow> pbuf_free (Some p) (pm ?v); Some (upd_pcb a (\<lambda>p. p\<lparr>refused_data := None\<rparr>) (?v\<lparr>pm := m\<rparr>)) }
        else Some ?v) = Some w1" "w' = w1 \<or> tcp_close_shutdown send_fin a rx w1 = Some (e, w')"
      using c p by (fastforce simp: tcp_shutdown_def bind_eq_Some_conv Let_def split: if_splits)
    have "soft ?v w1" using w1(1) s2 by (auto simp: bind_eq_Some_conv split: if_splits option.splits)
    then have "lists_typed w1" using s1 t soft_trans soft_typed by blast
    then show ?thesis using w1(2) close_shutdown_typed [OF fin] by blast
  qed
qed

section \<open>Every operation\<close>

text \<open>
  One call into the TCP module. Binding assumes, as the code documents that it does not check it, that the pcb is not bound yet.
\<close>

inductive tcp_op :: "(nat \<Rightarrow> tcpw \<Rightarrow> err_t \<times> tcpw) \<Rightarrow> tcpw \<Rightarrow> tcpw \<Rightarrow> bool" for send_fin where
  op_new: "tcp_new send_fin w = Some (r, w') \<Longrightarrow> tcp_op send_fin w w'"
| op_new_ip_type: "tcp_new_ip_type send_fin ty w = Some (r, w') \<Longrightarrow> tcp_op send_fin w w'"
| op_bind: "pcbs w a = Some p \<Longrightarrow> local_port p = 0 \<Longrightarrow> tcp_bind a ip port w = Some (e, w') \<Longrightarrow> tcp_op send_fin w w'"
| op_listen: "tcp_listen_with_backlog a w = Some (r, w') \<Longrightarrow> tcp_op send_fin w w'"
| op_accept: "tcp_accept a f w = Some w' \<Longrightarrow> tcp_op send_fin w w'"
| op_arg: "tcp_op send_fin w (tcp_arg a arg w)"
| op_recv: "tcp_recv a f w = Some w' \<Longrightarrow> tcp_op send_fin w w'"
| op_sent: "tcp_sent a f w = Some w' \<Longrightarrow> tcp_op send_fin w w'"
| op_err: "tcp_err a f w = Some w' \<Longrightarrow> tcp_op send_fin w w'"
| op_setprio: "tcp_op send_fin w (tcp_setprio a pr w)"
| op_recved: "tcp_recved a len w = Some w' \<Longrightarrow> tcp_op send_fin w w'"
| op_close: "tcp_close send_fin a w = Some (e, w') \<Longrightarrow> tcp_op send_fin w w'"
| op_shutdown: "tcp_shutdown send_fin a rx tx w = Some (e, w') \<Longrightarrow> tcp_op send_fin w w'"
| op_abort: "tcp_abort a w = Some w' \<Longrightarrow> tcp_op send_fin w w'"

lemma setter_soft:
  "tcp_accept b f w = Some w' \<Longrightarrow> soft w w'" "tcp_recv a f w = Some w' \<Longrightarrow> soft w w'" "tcp_sent a f w = Some w' \<Longrightarrow> soft w w'"
  "tcp_err a f w = Some w' \<Longrightarrow> soft w w'" "soft w (tcp_setprio a pr w)" "soft w (tcp_arg a arg w)"
  by (auto simp: tcp_accept_def tcp_recv_def tcp_sent_def tcp_err_def tcp_setprio_def tcp_arg_def bind_eq_Some_conv split: option.splits if_splits)

lemma ann_wnd_kind:
  "st (snd (tcp_update_rcv_ann_wnd p)) = st p" "local_port (snd (tcp_update_rcv_ann_wnd p)) = local_port p"
  by (simp_all add: tcp_update_rcv_ann_wnd_def Let_def)

lemma recved_soft: "tcp_recved a len w = Some w' \<Longrightarrow> soft w w'"
proof -
  assume r: "tcp_recved a len w = Some w'"
  then obtain p where p: "pcbs w a = Some p" "st p \<noteq> LISTEN" by (auto simp: tcp_recved_def bind_eq_Some_conv assert_that_def split: if_splits)
  define q where "q = p\<lparr>rcv_wnd := if rcv_wnd p + ucast len > TCP_WND_MAX p \<or> rcv_wnd p + ucast len < rcv_wnd p then TCP_WND_MAX p else rcv_wnd p + ucast len\<rparr>"
  let ?w = "w\<lparr>pcbs := (pcbs w)(a \<mapsto> snd (tcp_update_rcv_ann_wnd q))\<rparr>"
  have "soft w ?w" using p(1) by (auto simp: soft_def kinds_def fun_eq_iff ann_wnd_kind q_def)
  moreover have "soft ?w w'"
    using r p by (auto simp: tcp_recved_def assert_that_def Let_def q_def [symmetric] split_beta set_flags_def intro!: soft_say_on)
  ultimately show ?thesis by (rule soft_trans)
qed

lemma op_typed: "tcp_op send_fin w w' \<Longrightarrow> fin_soft send_fin \<Longrightarrow> lists_typed w \<Longrightarrow> lists_typed w'"
proof (induction rule: tcp_op.induct)
  case (op_new w r w')
  then show ?case using alloc_typed by (simp add: tcp_new_def)
next
  case (op_new_ip_type ty w r w')
  then obtain r1 w1 where w1: "tcp_alloc send_fin TCP_PRIO_NORMAL w = Some (r1, w1)" "soft w1 w'"
    by (auto simp: tcp_new_ip_type_def bind_eq_Some_conv split: option.splits)
  then show ?case using alloc_typed [OF op_new_ip_type(2,3)] soft_typed by blast
next
  case (op_bind w a p ip port e w')
  then show ?case using bind_typed by blast
next
  case (op_listen a w r w')
  then show ?case using listen_typed by (auto simp: tcp_listen_with_backlog_def)
next
  case (op_abort a w w')
  then show ?case using abandon_typed by (simp add: tcp_abort_def)
qed (blast intro: soft_keeps setter_soft recved_soft close_typed shutdown_typed)+

text \<open>
  C10. Every sequence of calls into the TCP module (creating, binding, listening, setting callbacks, opening the window, shutting down,
  closing, aborting) keeps the typing of the four lists: the active list holds only states of connections, the TIME-WAIT list only
  TIME-WAIT, the bound list only closed pcbs with a port, the listening list only LISTEN; no pcb is in two lists or twice in one, and no
  free pool element is a pcb in use. Sending a FIN is a parameter, assumed to leave lists, pools, states and local ports alone.
\<close>

theorem tcp_ops_typed:
  assumes "fin_soft send_fin" "lists_typed w" "(tcp_op send_fin)\<^sup>*\<^sup>* w w'"
  shows "lists_typed w'"
  using assms(3,2) by (induction rule: rtranclp_induct) (use op_typed assms(1) in blast)+

text \<open>A module just started, with two pcbs and one listener in the pools; the calls with which the bridge starts to listen.\<close>

definition boot_tcpw :: tcpw where
  "boot_tcpw = \<lparr>pm = \<lparr>pbufs = Map.empty, bytes = (\<lambda>_. 0),
       tabs = (\<lambda>t. if t = MEMP_TCP_PCB then [8, 16] else if t = MEMP_TCP_PCB_LISTEN then [24] else []), heap = Map.empty\<rparr>,
     pcbs = Map.empty, active_pcbs = [], tw_pcbs = [], bound_pcbs = [], listen_pcbs = [], active_changed = False, input_pcb = None,
     recv_flags = 0, calls = [], tcp_ticks = 0, tcp_timer_ctr = 0, tcp_timer = 0, tcp_port = 0xc000\<rparr>"

definition no_fin :: "nat \<Rightarrow> tcpw \<Rightarrow> err_t \<times> tcpw" where
  "no_fin a w = (ERR_MEM, w)"

definition boot_new :: tcpw where
  "boot_new = boot_tcpw\<lparr>pm := (pm boot_tcpw)\<lparr>tabs := (tabs (pm boot_tcpw))(MEMP_TCP_PCB := [16])\<rparr>, pcbs := [8 \<mapsto> fresh_pcb TCP_PRIO_NORMAL boot_tcpw]\<rparr>"

definition boot_pcb :: tcp_pcb where
  "boot_pcb = (fresh_pcb TCP_PRIO_NORMAL boot_tcpw)\<lparr>local_port := 0xc001\<rparr>"

definition boot_bound :: tcpw where
  "boot_bound = boot_new\<lparr>tcp_port := 0xc001, pcbs := [8 \<mapsto> boot_pcb], bound_pcbs := [8], calls := [Timer_needed]\<rparr>"

definition boot_listening :: tcpw where
  "boot_listening = boot_bound\<lparr>pm := (pm boot_tcpw)\<lparr>tabs := (tabs (pm boot_tcpw))(MEMP_TCP_PCB := [8, 16], MEMP_TCP_PCB_LISTEN := [])\<rparr>,
     pcbs := [24 \<mapsto> listen_pcb boot_pcb], bound_pcbs := [], listen_pcbs := [24], calls := [Timer_needed, Timer_needed]\<rparr>"

lemma boot_calls:
  "tcp_new no_fin boot_tcpw = Some (Some 8, boot_new)"
  "tcp_bind 8 \<lparr>u_addr = [0, 0, 0, 0], addr_type = 0\<rparr> 0 boot_new = Some (ERR_OK, boot_bound)"
  "tcp_listen_with_backlog 8 boot_bound = Some (Some 24, boot_listening)"
  subgoal
    by (simp add: tcp_new_def tcp_alloc_def take_pcb_def retry_def memp_malloc_def do_memp_malloc_pool_def MEM_ALIGNMENT_def boot_tcpw_def boot_new_def fresh_pcb_def)
  subgoal
    by (simp add: tcp_bind_def bind_port_def tcp_new_port_def tcp_new_port_again.simps tcp_next_port_def tcp_pcb_lists_def boot_new_def boot_tcpw_def
        boot_bound_def boot_pcb_def fresh_pcb_def zero_pcb_def upd_pcb_def say_def TCP_LOCAL_PORT_RANGE_END_def ip_addr_isany_def
        IPADDR_TYPE_V6_def ip_2_ip4_def fun_eq_iff)
  subgoal
    by (simp add: tcp_listen_with_backlog_def tcp_listen_with_backlog_and_err_def take_pcb_def memp_malloc_def do_memp_malloc_pool_def memp_free_def
        do_memp_free_pool_def MEM_ALIGNMENT_def boot_listening_def boot_bound_def boot_new_def boot_tcpw_def tcp_free_def free_pcb_def boot_pcb_def
        fresh_pcb_def zero_pcb_def assert_that_def say_def fun_eq_iff)
  done

theorem tcp_ops_typed_witness:
  "lists_typed boot_listening \<and> listen_pcbs boot_listening = [24] \<and> \<not> lists_typed (boot_listening\<lparr>active_pcbs := [24]\<rparr>)"
proof -
  have t: "lists_typed boot_tcpw" by (simp add: lists_typed_def boot_tcpw_def tcp_pcb_lists_def pool_free_def)
  have f: "fin_soft no_fin" by (simp add: fin_soft_def no_fin_def)
  have p: "pcbs boot_new 8 = Some (fresh_pcb TCP_PRIO_NORMAL boot_tcpw)" "local_port (fresh_pcb TCP_PRIO_NORMAL boot_tcpw) = 0"
    by (simp_all add: boot_new_def fresh_pcb_def zero_pcb_def)
  have "(tcp_op no_fin)\<^sup>*\<^sup>* boot_tcpw boot_listening"
    using op_new [OF boot_calls(1)] op_bind [OF p boot_calls(2)] op_listen [OF boot_calls(3)] by (metis rtranclp.simps)
  then have "lists_typed boot_listening" by (rule tcp_ops_typed [OF f t])
  then show ?thesis by (auto simp: boot_listening_def lists_typed_def in_list_def listen_pcb_def active_state_def tcp_pcb_lists_def)
qed

end
