(* ===== verification/Netif.thy ===== *)
theory Netif
  imports Tcp_Alloc Ip_Input
begin

text \<open>
  The life cycle of the one network interface, from lwIP's \<^verbatim>\<open>core/netif.c\<close>, with the effects on the transport modules when an address
  of the interface goes away (\<^verbatim>\<open>tcp_netif_ip_addr_changed\<close>). The build has a single interface, no callbacks, no MLD and no ARP, so that
  reports are empty; of neighbour discovery only the router solicitation counter is part of the interface, its tables are not
  modelled.
\<close>

section \<open>State\<close>

record netst =
  nif :: netif
  netif_default :: bool
  nt :: tcpw
  nu :: udps

definition NETIF_FLAG_UP :: u8 where "NETIF_FLAG_UP = 0x01"

definition NETIF_FLAG_LINK_UP :: u8 where "NETIF_FLAG_LINK_UP = 0x04"

definition LWIP_IPV6_NUM_ADDRESSES :: nat where "LWIP_IPV6_NUM_ADDRESSES = 3"

definition LWIP_ND6_MAX_MULTICAST_SOLICIT :: u8 where "LWIP_ND6_MAX_MULTICAST_SOLICIT = 3"

definition IP6_ADDR_VALID :: u8 where "IP6_ADDR_VALID = 0x10"

definition on_nif :: "(netif \<Rightarrow> netif) \<Rightarrow> netst \<Rightarrow> netst" where
  "on_nif f s = s\<lparr>nif := f (nif s)\<rparr>"

section \<open>Addresses that go away\<close>

text \<open>The successor is read before a pcb is aborted, so the walk is over the list as it was.\<close>

fun tcp_netif_ip_addr_changed_pcblist :: "ip_addr_t \<Rightarrow> nat list \<Rightarrow> tcpw \<Rightarrow> tcpw option" where
  "tcp_netif_ip_addr_changed_pcblist old [] w = Some w"
| "tcp_netif_ip_addr_changed_pcblist old (a # as) w = do {
     pcb \<leftarrow> pcbs w a;
     w \<leftarrow> (if ip_addr_eq (local_ip pcb) old then tcp_abort a w else Some w);
     tcp_netif_ip_addr_changed_pcblist old as w
   }"

definition relisten :: "ip_addr_t \<Rightarrow> ip_addr_t \<Rightarrow> tcpw \<Rightarrow> tcpw" where
  "relisten old new w = w\<lparr>pcbs := (\<lambda>a. if a \<in> set (listen_pcbs w)
     then map_option (\<lambda>p. if ip_addr_eq (local_ip p) old then p\<lparr>local_ip := new\<rparr> else p) (pcbs w a) else pcbs w a)\<rparr>"

definition tcp_netif_ip_addr_changed :: "ip_addr_t \<Rightarrow> ip_addr_t option \<Rightarrow> tcpw \<Rightarrow> tcpw option" where
  "tcp_netif_ip_addr_changed old new w =
    (if ip_addr_isany old then Some w
     else do {
       w \<leftarrow> tcp_netif_ip_addr_changed_pcblist old (active_pcbs w) w;
       w \<leftarrow> tcp_netif_ip_addr_changed_pcblist old (bound_pcbs w) w;
       Some (case new of None \<Rightarrow> w | Some n \<Rightarrow> if ip_addr_isany n then w else relisten old n w)
     })"

definition netif_do_ip_addr_changed :: "ip_addr_t \<Rightarrow> ip_addr_t option \<Rightarrow> netst \<Rightarrow> netst option" where
  "netif_do_ip_addr_changed old new s = do {
     w \<leftarrow> tcp_netif_ip_addr_changed old new (nt s);
     Some (s\<lparr>nt := w, nu := (case new of None \<Rightarrow> nu s | Some n \<Rightarrow> udp_netif_ip_addr_changed old n (nu s))\<rparr>)
   }"

definition v4 :: "u32 \<Rightarrow> ip_addr_t" where
  "v4 a = \<lparr>u_addr = [a, 0, 0, 0], addr_type = IPADDR_TYPE_V4\<rparr>"

definition six :: "u32 list \<Rightarrow> ip_addr_t" where
  "six a = \<lparr>u_addr = a, addr_type = IPADDR_TYPE_V6\<rparr>"

section \<open>IPv4 configuration\<close>

definition netif_do_set_ipaddr :: "u32 \<Rightarrow> netst \<Rightarrow> netst option" where
  "netif_do_set_ipaddr ipaddr s =
    (if ipaddr = ni_ip_addr (nif s) then Some s
     else do {
       s \<leftarrow> netif_do_ip_addr_changed (v4 (ni_ip_addr (nif s))) (Some (v4 ipaddr)) s;
       Some (on_nif (\<lambda>n. n\<lparr>ni_ip_addr := ipaddr\<rparr>) s)
     })"

definition netif_do_set_netmask :: "u32 \<Rightarrow> netst \<Rightarrow> netst" where
  "netif_do_set_netmask netmask s = on_nif (\<lambda>n. if netmask = ni_netmask n then n else n\<lparr>ni_netmask := netmask\<rparr>) s"

definition netif_do_set_gw :: "u32 \<Rightarrow> netst \<Rightarrow> netst" where
  "netif_do_set_gw gw s = on_nif (\<lambda>n. if gw = ni_gw n then n else n\<lparr>ni_gw := gw\<rparr>) s"

text \<open>Removing an address comes before the other changes, setting one after them.\<close>

definition netif_set_addr :: "u32 \<Rightarrow> u32 \<Rightarrow> u32 \<Rightarrow> netst \<Rightarrow> netst option" where
  "netif_set_addr ipaddr netmask gw s = do {
     let remove = (ipaddr = 0);
     s \<leftarrow> (if remove then netif_do_set_ipaddr ipaddr s else Some s);
     let s = netif_do_set_gw gw (netif_do_set_netmask netmask s);
     if remove then Some s else netif_do_set_ipaddr ipaddr s
   }"

section \<open>IPv6 configuration\<close>

definition netif_ip6_addr_set_parts :: "nat \<Rightarrow> u32 list \<Rightarrow> netst \<Rightarrow> netst option" where
  "netif_ip6_addr_set_parts i addr s = do {
     _ \<leftarrow> assert_that (i < LWIP_IPV6_NUM_ADDRESSES);
     let old = ni_ip6_addr (nif s) ! i;
     if old = addr then Some s
     else do {
       s \<leftarrow> (if ip6_addr_isvalid (ni_ip6_addr_state (nif s) ! i) then netif_do_ip_addr_changed (six old) (Some (six addr)) s else Some s);
       Some (on_nif (\<lambda>n. n\<lparr>ni_ip6_addr := (ni_ip6_addr n)[i := addr]\<rparr>) s)
     }
   }"

definition netif_ip6_addr_set :: "nat \<Rightarrow> u32 list \<Rightarrow> netst \<Rightarrow> netst option" where
  "netif_ip6_addr_set i addr s = netif_ip6_addr_set_parts i addr s"

definition netif_ip6_addr_set_state :: "nat \<Rightarrow> u8 \<Rightarrow> netst \<Rightarrow> netst option" where
  "netif_ip6_addr_set_state i state s = do {
     _ \<leftarrow> assert_that (i < LWIP_IPV6_NUM_ADDRESSES);
     let old = ni_ip6_addr_state (nif s) ! i;
     if old = state then Some s
     else do {
       s \<leftarrow> (if old AND IP6_ADDR_VALID \<noteq> 0 \<and> state AND IP6_ADDR_VALID = 0 then netif_do_ip_addr_changed (six (ni_ip6_addr (nif s) ! i)) None s
             else Some s);
       Some (on_nif (\<lambda>n. n\<lparr>ni_ip6_addr_state := (ni_ip6_addr_state n)[i := state]\<rparr>) s)
     }
   }"

section \<open>Adding and removing\<close>

definition nd6_restart_netif :: "netif \<Rightarrow> netif" where
  "nd6_restart_netif n = n\<lparr>ni_rs_count := LWIP_ND6_MAX_MULTICAST_SOLICIT\<rparr>"

definition netif_reset :: "netif \<Rightarrow> netif" where
  "netif_reset n = nd6_restart_netif (n\<lparr>ni_ip_addr := 0, ni_netmask := 0, ni_gw := 0, ni_driver := False,
     ni_ip6_addr := replicate LWIP_IPV6_NUM_ADDRESSES [0, 0, 0, 0], ni_ip6_addr_state := replicate LWIP_IPV6_NUM_ADDRESSES 0,
     ni_mtu := 0, ni_flags := 0\<rparr>)\<lparr>ni_num := 0\<rparr>"

text \<open>The result is false where the code returns a null pointer; the interface number is never advanced in a single interface build.\<close>

definition netif_add :: "u32 \<Rightarrow> u32 \<Rightarrow> u32 \<Rightarrow> (netif \<Rightarrow> err_t \<times> netif) \<Rightarrow> netst \<Rightarrow> (bool \<times> netst) option" where
  "netif_add ipaddr netmask gw init s = do {
     _ \<leftarrow> assert_that (\<not> netif_default s);
     s \<leftarrow> netif_set_addr ipaddr netmask gw (on_nif netif_reset s);
     let (err, n) = init (nif s);
     Some (err = ERR_OK, s\<lparr>nif := n\<rparr>)
   }"

definition netif_set_default :: "bool \<Rightarrow> netst \<Rightarrow> netst" where
  "netif_set_default d s = s\<lparr>netif_default := d\<rparr>"

definition netif_set_up :: "netif \<Rightarrow> netif" where
  "netif_set_up n = (if ni_flags n AND NETIF_FLAG_UP = 0 then nd6_restart_netif (n\<lparr>ni_flags := ni_flags n OR NETIF_FLAG_UP\<rparr>) else n)"

definition netif_set_down :: "netif \<Rightarrow> netif" where
  "netif_set_down n = (if ni_flags n AND NETIF_FLAG_UP \<noteq> 0 then n\<lparr>ni_flags := ni_flags n AND NOT NETIF_FLAG_UP\<rparr> else n)"

definition netif_set_link_up :: "netif \<Rightarrow> netif" where
  "netif_set_link_up n =
    (if ni_flags n AND NETIF_FLAG_LINK_UP = 0 then nd6_restart_netif (n\<lparr>ni_flags := ni_flags n OR NETIF_FLAG_LINK_UP\<rparr>) else n)"

definition netif_set_link_down :: "netif \<Rightarrow> netif" where
  "netif_set_link_down n =
    (if ni_flags n AND NETIF_FLAG_LINK_UP \<noteq> 0 then n\<lparr>ni_flags := ni_flags n AND NOT NETIF_FLAG_LINK_UP\<rparr> else n)"

text \<open>The addresses of the interface, as they were when the walk began.\<close>

fun addrs_gone :: "(u32 list \<times> u8) list \<Rightarrow> netst \<Rightarrow> netst option" where
  "addrs_gone [] s = Some s"
| "addrs_gone ((a, state) # as) s = do {
     s \<leftarrow> (if ip6_addr_isvalid state then netif_do_ip_addr_changed (six a) None s else Some s);
     addrs_gone as s
   }"

definition netif_remove :: "netst \<Rightarrow> netst option" where
  "netif_remove s = do {
     s \<leftarrow> (if ni_ip_addr (nif s) \<noteq> 0 then netif_do_ip_addr_changed (v4 (ni_ip_addr (nif s))) None s else Some s);
     s \<leftarrow> addrs_gone (ip6_slots (nif s)) s;
     let s = (if netif_is_up (nif s) then on_nif netif_set_down s else s);
     Some (if netif_default s then netif_set_default False s else s)
   }"

end
