(* ===== verification/Ip_Output.thy ===== *)
theory Ip_Output
  imports Udp_Out Ip_Input
begin

text \<open>
  IP output on a given interface, from lwIP's \<^verbatim>\<open>ipv4/ip4.c\<close> and \<^verbatim>\<open>ipv6/ip6.c\<close>: the header in front of the packet, with the IPv4 header
  checksum summed up while the header is filled in, and the hand-over to the interface, the parameter \<open>output\<close>. The build
  fragments nothing and sends no IP options. The identification counter of IPv4 is threaded through.
\<close>

section \<open>IPv4\<close>

text \<open>The running sum of the header's words as they lie in memory, folded twice, complemented and cut to 16 bits.\<close>

definition ip4_inline_chksum :: "u8 \<Rightarrow> u8 \<Rightarrow> u8 \<Rightarrow> u8 \<Rightarrow> u16 \<Rightarrow> u16 \<Rightarrow> u32 \<Rightarrow> u32 \<Rightarrow> u16" where
  "ip4_inline_chksum ttl proto v_hl tos len ident src dest =
    (let chk_sum = 0 :: u32;
         chk_sum = chk_sum + ucast (lwip_htons (ucast proto OR push_bit 8 (ucast ttl)));
         chk_sum = chk_sum + (dest AND 0xFFFF);
         chk_sum = chk_sum + drop_bit 16 dest;
         chk_sum = chk_sum + ucast (lwip_htons (ucast tos OR push_bit 8 (ucast v_hl)));
         chk_sum = chk_sum + ucast len;
         chk_sum = chk_sum + ucast ident;
         chk_sum = chk_sum + (src AND 0xFFFF);
         chk_sum = chk_sum + drop_bit 16 src;
         chk_sum = drop_bit 16 chk_sum + (chk_sum AND 0xFFFF);
         chk_sum = drop_bit 16 chk_sum + chk_sum
     in ucast (NOT chk_sum))"

definition ip4_fill_header :: "nat \<Rightarrow> u8 \<Rightarrow> u8 \<Rightarrow> u8 \<Rightarrow> u16 \<Rightarrow> u16 \<Rightarrow> u32 \<Rightarrow> u32 \<Rightarrow> pmem \<Rightarrow> pmem" where
  "ip4_fill_header h ttl tos proto len ident src dest m =
    (let m = wr (h + 8) [ttl] m;
         m = wr (h + 9) [proto] m;
         m = wr (h + 16) (le_bytes 4 dest) m;
         m = wr h [0x45] m;
         m = wr (h + 1) [tos] m;
         m = wr (h + 2) (le_bytes 2 (lwip_htons len)) m;
         m = wr (h + 6) (le_bytes 2 (0 :: u16)) m;
         m = wr (h + 4) (le_bytes 2 (lwip_htons ident)) m;
         m = wr (h + 12) (le_bytes 4 src) m
     in wr (h + 10) (le_bytes 2 (ip4_inline_chksum ttl proto 0x45 tos (lwip_htons len) (lwip_htons ident) src dest)) m)"

text \<open>A missing destination stands for a packet that has its header already; a missing source for the zero address.\<close>

definition ip4_output_if_src :: "(nat \<Rightarrow> 'e ipst \<Rightarrow> (err_t \<times> 'e ipst) option) \<Rightarrow> nat \<Rightarrow> u32 option \<Rightarrow> u32 option \<Rightarrow> u8 \<Rightarrow> u8 \<Rightarrow> u8 \<Rightarrow>
    u16 \<times> 'e ipst \<Rightarrow> (err_t \<times> u16 \<times> 'e ipst) option" where
  "ip4_output_if_src output p src dest ttl tos proto = (\<lambda>(ident, m, u, e). do {
     pb \<leftarrow> pbufs m p;
     _ \<leftarrow> assert_that (pref pb = 1);
     case dest of
       Some d \<Rightarrow> do {
         (r, m) \<leftarrow> pbuf_add_header (Some p) IP_HLEN m;
         if r \<noteq> 0 then Some (ERR_BUF, ident, m, u, e)
         else do {
           pb \<leftarrow> pbufs m p;
           _ \<leftarrow> assert_that (unat (plen pb) \<ge> IP_HLEN);
           let m = ip4_fill_header (payload pb) ttl tos proto (tot_len pb) ident (case src of None \<Rightarrow> 0 | Some s \<Rightarrow> s) d m;
           (err, s) \<leftarrow> output p (m, u, e);
           Some (err, ident + 1, s)
         }
       }
     | None \<Rightarrow> if unat (plen pb) < IP_HLEN then Some (ERR_BUF, ident, m, u, e) else do { (err, s) \<leftarrow> output p (m, u, e); Some (err, ident, s) }
   })"

section \<open>IPv6\<close>

definition ip6_fill_header :: "nat \<Rightarrow> u8 \<Rightarrow> u8 \<Rightarrow> u8 \<Rightarrow> u16 \<Rightarrow> u32 list \<Rightarrow> u32 list \<Rightarrow> pmem \<Rightarrow> pmem" where
  "ip6_fill_header h hl tc nexth len src dest m =
    (let m = wr (h + 7) [hl] m;
         m = wr (h + 6) [nexth] m;
         m = wr (h + 24) (concat (map (le_bytes 4) dest)) m;
         m = wr h (le_bytes 4 (lwip_htonl (push_bit 28 6 OR push_bit 20 (ucast tc)))) m;
         m = wr (h + 4) (le_bytes 2 (lwip_htons (len - of_nat IP6_HLEN))) m
     in wr (h + 8) (concat (map (le_bytes 4) src)) m)"

definition ip6_output_if_src :: "(nat \<Rightarrow> 'e ipst \<Rightarrow> (err_t \<times> 'e ipst) option) \<Rightarrow> nat \<Rightarrow> u32 list option \<Rightarrow> u32 list option \<Rightarrow>
    u8 \<Rightarrow> u8 \<Rightarrow> u8 \<Rightarrow> 'e ipst \<Rightarrow> (err_t \<times> 'e ipst) option" where
  "ip6_output_if_src output p src dest hl tc nexth = (\<lambda>(m, u, e). do {
     pb \<leftarrow> pbufs m p;
     _ \<leftarrow> assert_that (pref pb = 1);
     case dest of
       Some d \<Rightarrow> do {
         (r, m) \<leftarrow> pbuf_add_header (Some p) IP6_HLEN m;
         if r \<noteq> 0 then Some (ERR_BUF, m, u, e)
         else do {
           pb \<leftarrow> pbufs m p;
           _ \<leftarrow> assert_that (unat (plen pb) \<ge> IP6_HLEN);
           output p (ip6_fill_header (payload pb) hl tc nexth (tot_len pb) (case src of None \<Rightarrow> [0, 0, 0, 0] | Some s \<Rightarrow> s) d m, u, e)
         }
       }
     | None \<Rightarrow> output p (m, u, e)
   })"

definition ip_output_if_src :: "(nat \<Rightarrow> 'e ipst \<Rightarrow> (err_t \<times> 'e ipst) option) \<Rightarrow> (nat \<Rightarrow> 'e ipst \<Rightarrow> (err_t \<times> 'e ipst) option) \<Rightarrow>
    nat \<Rightarrow> ip_addr_t \<Rightarrow> ip_addr_t \<Rightarrow> u8 \<Rightarrow> u8 \<Rightarrow> u8 \<Rightarrow> u16 \<times> 'e ipst \<Rightarrow> (err_t \<times> u16 \<times> 'e ipst) option" where
  "ip_output_if_src output output_ip6 p src dest ttl tos proto = (\<lambda>(ident, s).
    if IP_IS_V6 dest then map_option (\<lambda>(err, s). (err, ident, s)) (ip6_output_if_src output_ip6 p (Some (ip_2_ip6 src)) (Some (ip_2_ip6 dest)) ttl tos proto s)
    else ip4_output_if_src output p (Some (ip_2_ip4 src)) (Some (ip_2_ip4 dest)) ttl tos proto (ident, s))"

section \<open>The header checksum\<close>

text \<open>The header as bytes, and that the inline sum is the checksum a receiver expects.\<close>

definition ip4_bytes :: "u8 \<Rightarrow> u8 \<Rightarrow> u8 \<Rightarrow> u16 \<Rightarrow> u16 \<Rightarrow> u16 \<Rightarrow> u32 \<Rightarrow> u32 \<Rightarrow> u8 list" where
  "ip4_bytes ttl tos proto len ident ck src dest = [0x45, tos] @ be_bytes16 len @ be_bytes16 ident @ [0, 0, ttl, proto] @ le_bytes 2 ck @ le_bytes 4 src @ le_bytes 4 dest"

lemma ucast16_and: "(ucast (x AND 0xffff) :: u16) = ucast (x :: u32)"
proof -
  have m: "(0xffff :: u32) = mask 16" by (simp add: mask_eq_exp_minus_1)
  show ?thesis unfolding m by (rule bit_word_eqI) (auto simp: bit_ucast_iff bit_and_iff bit_mask_iff)
qed

lemma ucast16_plus: "(ucast (x + y) :: u16) = ucast (x :: u32) + ucast y"
proof -
  have "LENGTH(16) \<le> LENGTH(32)" by simp
  then show ?thesis by (simp add: word_uint_eq_iff uint_ucast_down uint_word_ariths mod_simps mod_mod_cancel)
qed

lemma ucast16_not: "(ucast (NOT x) :: u16) = NOT (ucast (x :: u32))"
  by (rule bit_word_eqI) (simp add: bit_ucast_iff bit_not_iff)

text \<open>The second fold leaves its carry in the upper half, which the cut to 16 bits drops.\<close>

lemma fold_cut:
  assumes "uint cs < 0xFFFF0000"
  shows "ucast (NOT (drop_bit 16 (FOLD_U32T cs) + FOLD_U32T cs)) = chksum_of (uint cs)"
proof -
  let ?f = "FOLD_U32T cs"
  have "uint (FOLD_U32T ?f) = fold16 (uint cs)" using FOLD_eq [OF FOLD_le] by simp
  then have "ucast (NOT (FOLD_U32T ?f AND 0xffff)) = chksum_of (uint cs)" by (rule chksum_of_not)
  moreover have "(ucast (FOLD_U32T ?f) :: u16) = ucast (drop_bit 16 ?f + ?f)"
    unfolding FOLD_U32T_def [of ?f] by (simp only: ucast16_plus ucast16_and)
  ultimately show ?thesis by (simp only: ucast16_not ucast16_and)
qed

lemma uint_lo_hi: "uint (a AND 0xFFFF :: u32) + uint (drop_bit 16 a) = wsum (le_bytes 4 a)"
proof -
  have m: "(0xFFFF :: u32) = mask 16" by (simp add: mask_eq_exp_minus_1)
  show ?thesis unfolding wsum_le4 m using uint_and_mask_mod [of a 16] uint_drop_bit_div [of 16 a] by simp
qed

lemma two_bytes: "wsum [a, b] = uint (ucast (lwip_htons (ucast b OR push_bit 8 (ucast a))) :: u32)"
proof -
  have "be_bytes16 (ucast b OR push_bit 8 (ucast a)) = [a, b]"
  proof -
    have "ucast (drop_bit 8 (ucast b OR push_bit 8 (ucast a) :: u16)) = a" "ucast (ucast b OR push_bit 8 (ucast a) :: u16) = b"
      by (rule bit_word_eqI, force simp: bit_simps dest: bit_imp_le_length)+
    then show ?thesis by (simp add: be_bytes16_def le_bytes_def numeral_2_eq_2)
  qed
  then show ?thesis by (simp add: uint_htons_ucast)
qed

lemma wsum_ip4:
  "wsum (ip4_bytes ttl tos proto len ident 0 src dest) = wsum [0x45, tos] + wsum (be_bytes16 len) + wsum (be_bytes16 ident) + wsum [ttl, proto] +
     wsum (le_bytes 4 src) + wsum (le_bytes 4 dest)"
proof -
  have z: "wsum (le_bytes 2 (0 :: u16)) = 0" by (simp add: le_bytes_def numeral_2_eq_2)
  have l: "length (be_bytes16 x) = 2" for x by (simp add: be_bytes16_def)
  show ?thesis unfolding ip4_bytes_def by (simp add: wsum_append_even l z)
qed

lemma uint_sum_fits: "sum_list (map uint xs) < 2 ^ 32 \<Longrightarrow> uint (sum_list (xs :: u32 list)) = sum_list (map uint xs)"
proof (induction xs)
  case (Cons x xs)
  have "0 \<le> uint x" by simp
  then have "sum_list (map uint xs) < 2 ^ 32" using Cons.prems unfolding list.map sum_list.Cons by linarith
  then have "uint (sum_list xs) = sum_list (map uint xs)" by (rule Cons.IH)
  then show ?case using Cons.prems uint_add_fits [of x "sum_list xs"] by simp
qed simp

lemma inline_chksum:
  "ip4_inline_chksum ttl proto 0x45 tos (lwip_htons len) (lwip_htons ident) src dest =
     chksum_of (wsum (ip4_bytes ttl tos proto len ident 0 src dest))"
proof -
  let ?a = "ucast (lwip_htons (ucast proto OR push_bit 8 (ucast ttl))) :: u32" and ?b = "ucast (lwip_htons (ucast tos OR push_bit 8 (ucast (0x45 :: u8)))) :: u32"
  let ?c = "ucast (lwip_htons len) :: u32" and ?i = "ucast (lwip_htons ident) :: u32"
  let ?dl = "dest AND 0xFFFF" and ?dh = "drop_bit 16 dest" and ?sl = "src AND 0xFFFF" and ?sh = "drop_bit 16 src"
  let ?cs = "0 + ?a + ?dl + ?dh + ?b + ?c + ?i + ?sl + ?sh"
  have b: "uint (ucast (lwip_htons x) :: u32) < 65536" for x unfolding uint_htons_ucast using wsum_be16_le [of x] by simp
  have lt: "uint ?a < 65536" "uint ?b < 65536" "uint ?c < 65536" "uint ?i < 65536" by (rule b)+
  have lo: "uint ?dl + uint ?dh \<le> 131070" "uint ?sl + uint ?sh \<le> 131070" unfolding uint_lo_hi by (rule wsum_le4_bound)+
  have nn: "0 \<le> uint ?dl" "0 \<le> uint ?dh" "0 \<le> uint ?sl" "0 \<le> uint ?sh" by simp_all
  have u: "uint ?cs = uint ?a + (uint ?dl + uint ?dh) + uint ?b + uint ?c + uint ?i + (uint ?sl + uint ?sh)"
    using uint_sum_fits [of "[?a, ?dl, ?dh, ?b, ?c, ?i, ?sl, ?sh]"] lt lo nn
    by (simp only: list.map sum_list.Cons sum_list.Nil add_0_left add_0_right add.assoc) simp
  also have "\<dots> = wsum (ip4_bytes ttl tos proto len ident 0 src dest)"
    unfolding wsum_ip4 two_bytes uint_lo_hi uint_htons_ucast by simp
  finally have w: "uint ?cs = wsum (ip4_bytes ttl tos proto len ident 0 src dest)" .
  have "uint ?cs < 0xFFFF0000" using u lt lo by linarith
  then have "ucast (NOT (drop_bit 16 (FOLD_U32T ?cs) + FOLD_U32T ?cs)) = chksum_of (uint ?cs)" by (rule fold_cut)
  then show ?thesis unfolding w ip4_inline_chksum_def Let_def FOLD_U32T_def .
qed

section \<open>What the header says\<close>

lemma bytes_wr: "bytes (wr a bs m) x = (if a \<le> x \<and> x < a + length bs then bs ! (x - a) else bytes m x)"
  by (simp add: wr_def)

lemma ip4_header_bytes:
  "rd (ip4_fill_header h ttl tos proto len ident src dest m) h 20 =
     ip4_bytes ttl tos proto len ident (ip4_inline_chksum ttl proto 0x45 tos (lwip_htons len) (lwip_htons ident) src dest) src dest"
  unfolding ip4_fill_header_def Let_def rd_def ip4_bytes_def le_bytes_htons
  by (simp add: upt_rec bytes_wr be_bytes16_def le_bytes_def)

lemma ip4_fill_frame:
  "pbufs (ip4_fill_header h ttl tos proto len ident src dest m) = pbufs m" "heap (ip4_fill_header h ttl tos proto len ident src dest m) = heap m"
  "tabs (ip4_fill_header h ttl tos proto len ident src dest m) = tabs m"
  "rd (ip4_fill_header h ttl tos proto len ident src dest m) (h + 20) n = rd m (h + 20) n"
  unfolding ip4_fill_header_def Let_def by (auto simp: rd_def bytes_wr)

lemma rd_split: "rd m a (i + j) = rd m a i @ rd m (a + i) j"
  unfolding rd_def by (metis add.assoc le_add1 map_append upt_add_eq_append)

text \<open>A stored header checksum is accepted, whatever its value.\<close>

lemma stored_plain:
  assumes "even (length xs)"
  shows "chksum_of (wsum (xs @ le_bytes 2 (chksum_of (wsum (xs @ [0, 0] @ ys))) @ ys)) = 0"
proof (cases "chksum_of (wsum (xs @ [0, 0] @ ys)) = 0")
  case True
  then show ?thesis by (simp add: le_bytes_def numeral_2_eq_2)
next
  case False
  then show ?thesis using stored_chksum_verifies [OF assms, of ys] by (simp add: Let_def)
qed

lemma ip4_bytes_verify: "chksum_of (wsum (ip4_bytes ttl tos proto len ident (chksum_of (wsum (ip4_bytes ttl tos proto len ident 0 src dest))) src dest)) = 0"
proof -
  let ?xs = "[0x45, tos] @ be_bytes16 len @ be_bytes16 ident @ [0, 0, ttl, proto]" and ?ys = "le_bytes 4 src @ le_bytes 4 dest"
  have "ip4_bytes ttl tos proto len ident ck src dest = ?xs @ le_bytes 2 ck @ ?ys" for ck by (simp add: ip4_bytes_def)
  moreover have "le_bytes 2 (0 :: u16) = [0, 0]" by (simp add: le_bytes_def numeral_2_eq_2)
  moreover have "even (length ?xs)" by (simp add: be_bytes16_def)
  ultimately show ?thesis using stored_plain [of ?xs ?ys] by simp
qed

text \<open>One buffer with room in front.\<close>

definition roomy :: "pmem \<Rightarrow> nat \<Rightarrow> pbuf \<Rightarrow> nat \<Rightarrow> bool" where
  "roomy m p pb n \<longleftrightarrow> pbufs m p = Some pb \<and> pnext pb = None \<and> tot_len pb = plen pb \<and> unat (plen pb) + n < 2 ^ 16 \<and> type_internal pb AND 0x80 \<noteq> 0 \<and>
     p + SIZEOF_STRUCT_PBUF + n \<le> payload pb \<and> payload pb < 2 ^ 64 \<and> pref pb = 1"

lemma roomy_add:
  assumes "roomy m p pb n" "0 < n"
  shows "pbuf_add_header (Some p) n m = Some (0, upd p (\<lambda>b. b\<lparr>payload := payload pb - n, plen := plen b + of_nat n, tot_len := tot_len b + of_nat n\<rparr>) m)"
    "unat (plen pb + of_nat n) = unat (plen pb) + n"
proof -
  have r: "pbufs m p = Some pb" "pnext pb = None" "tot_len pb = plen pb" "unat (plen pb) + n < 2 ^ 16" "type_internal pb AND 0x80 \<noteq> 0"
    "p + SIZEOF_STRUCT_PBUF + n \<le> payload pb" "payload pb < 2 ^ 64" using assms(1) by (simp_all add: roomy_def)
  have pk: "packet m (Some p) [p]" "lens m [p] = unat (plen pb)" using single_packet [OF r(1-3)] by simp_all
  have l: "lens m [p] + n < 2 ^ 16" using pk(2) r(4) by (simp del: lens_simps)
  have le: "n \<le> payload pb" "p + SIZEOF_STRUCT_PBUF \<le> payload pb - n" using r(6) by simp_all
  show "pbuf_add_header (Some p) n m = Some (0, upd p (\<lambda>b. b\<lparr>payload := payload pb - n, plen := plen b + of_nat n, tot_len := tot_len b + of_nat n\<rparr>) m)"
    using add_header_spec(1) [OF pk(1) r(1) assms(2) l le(1) r(7), of False] r(5) le(2) by (simp add: pbuf_add_header_def)
  have "unat (of_nat n :: u16) = n" using r(4) by (intro unat_of_nat_fits) simp
  then show "unat (plen pb + of_nat n) = unat (plen pb) + n" using unat_add_fits [of "plen pb" "of_nat n"] r(4) by simp
qed

lemma grown_contents:
  assumes "roomy m p pb n" "0 < n" "grown m p pb n m'" "rd m' (payload pb - n) n = hdr" "rd m' (payload pb) (unat (plen pb)) = rd m (payload pb) (unat (plen pb))"
  shows "contents m' [p] = hdr @ contents m [p]"
proof -
  let ?qb = "pb\<lparr>payload := payload pb - n, plen := plen pb + of_nat n, tot_len := plen pb + of_nat n\<rparr>"
  have r: "pbufs m p = Some pb" "pnext pb = None" "tot_len pb = plen pb" "n \<le> payload pb" using assms(1) by (auto simp: roomy_def)
  have q: "pbufs m' p = Some ?qb" using assms(3) by (simp add: grown_def)
  have "contents m' [p] = rd m' (payload pb - n) (unat (plen pb + of_nat n))" using single_packet(2) [OF q] r(2) by simp
  also have "\<dots> = rd m' (payload pb - n) (n + unat (plen pb))" using roomy_add(2) [OF assms(1,2)] by (simp add: add.commute)
  also have "\<dots> = hdr @ rd m (payload pb) (unat (plen pb))" using r(4) assms(4,5) by (simp add: rd_split)
  finally show ?thesis using single_packet(2) [OF r(1-3)] by (simp del: contents_simps)
qed

lemma ip4_output_spec:
  assumes "roomy m p pb 20"
  shows "\<exists>m' ck. ip4_output_if_src output p (Some src) (Some dest) ttl tos proto (ident, m, u, e) =
      map_option (\<lambda>(err, s). (err, ident + 1, s)) (output p (m', u, e)) \<and> grown m p pb 20 m' \<and>
    contents m' [p] = ip4_bytes ttl tos proto (plen pb + 20) ident ck src dest @ contents m [p] \<and>
    chksum_of (wsum (ip4_bytes ttl tos proto (plen pb + 20) ident ck src dest)) = 0"
proof -
  let ?f = "\<lambda>b. b\<lparr>payload := payload pb - 20, plen := plen b + of_nat 20, tot_len := tot_len b + of_nat 20\<rparr>"
  let ?ck = "chksum_of (wsum (ip4_bytes ttl tos proto (plen pb + 20) ident 0 src dest))"
  define m1 where "m1 = upd p ?f m"
  define m' where "m' = ip4_fill_header (payload pb - 20) ttl tos proto (plen pb + 20) ident src dest m1"
  have r: "pbufs m p = Some pb" "tot_len pb = plen pb" "pref pb = 1" "20 \<le> payload pb" using assms by (auto simp: roomy_def)
  note add = roomy_add [OF assms, simplified]
  have p1: "pbufs m1 p = Some (?f pb)" by (simp add: m1_def upd_def r(1))
  have "\<not> unat (plen pb + 20) < 20" using add(2) by simp
  then have out: "ip4_output_if_src output p (Some src) (Some dest) ttl tos proto (ident, m, u, e) =
      map_option (\<lambda>(err, s). (err, ident + 1, s)) (output p (m', u, e))"
    using r add(1) p1 by (cases "output p (m', u, e)") (auto simp: ip4_output_if_src_def IP_HLEN_def assert_that_def m1_def m'_def)
  have g: "grown m p pb 20 m'" using r by (simp add: grown_def m'_def ip4_fill_frame m1_def upd_def)
  have "rd m' (payload pb) n = rd m1 (payload pb) n" for n
    using ip4_fill_frame(4) [of "payload pb - 20"] r(4) by (simp add: m'_def)
  then have "rd m' (payload pb) n = rd m (payload pb) n" for n by (simp add: m1_def upd_def rd_def)
  moreover have "rd m' (payload pb - 20) 20 = ip4_bytes ttl tos proto (plen pb + 20) ident ?ck src dest"
    unfolding m'_def ip4_header_bytes inline_chksum by (rule refl)
  ultimately have "contents m' [p] = ip4_bytes ttl tos proto (plen pb + 20) ident ?ck src dest @ contents m [p]"
    using grown_contents [OF assms _ g] by simp
  then show ?thesis using out g ip4_bytes_verify by blast
qed

text \<open>The IPv6 header as bytes.\<close>

definition ip6_bytes :: "u8 \<Rightarrow> u8 \<Rightarrow> u8 \<Rightarrow> u16 \<Rightarrow> u32 list \<Rightarrow> u32 list \<Rightarrow> u8 list" where
  "ip6_bytes hl tc nexth len src dest = rev (le_bytes 4 (push_bit 28 6 OR push_bit 20 (ucast tc) :: u32)) @ be_bytes16 len @ [nexth, hl] @
     concat (map (le_bytes 4) src) @ concat (map (le_bytes 4) dest)"

lemma list4: "length xs = 4 \<Longrightarrow> \<exists>a b c d. xs = [a, b, c, d]"
  by (auto simp: numeral_eq_Suc length_Suc_conv)

lemma ip6_header_bytes:
  assumes "length src = 4" "length dest = 4"
  shows "rd (ip6_fill_header h hl tc nexth len src dest m) h 40 = ip6_bytes hl tc nexth (len - 40) src dest"
proof -
  obtain a b c d where s: "src = [a, b, c, d]" using list4 [OF assms(1)] by blast
  obtain w x y z where t: "dest = [w, x, y, z]" using list4 [OF assms(2)] by blast
  show ?thesis
    unfolding ip6_fill_header_def Let_def rd_def ip6_bytes_def le_bytes_htons le_bytes_htonl s t IP6_HLEN_def
    by (simp add: upt_rec bytes_wr be_bytes16_def le_bytes_def)
qed

lemma ip6_fill_frame:
  assumes "length src = 4" "length dest = 4"
  shows "pbufs (ip6_fill_header h hl tc nexth len src dest m) = pbufs m" "heap (ip6_fill_header h hl tc nexth len src dest m) = heap m"
    "tabs (ip6_fill_header h hl tc nexth len src dest m) = tabs m"
    "rd (ip6_fill_header h hl tc nexth len src dest m) (h + 40) n = rd m (h + 40) n"
proof -
  have l: "length (concat (map (le_bytes 4) xs)) = 16" if "length xs = 4" for xs :: "u32 list"
    using list4 [OF that] by auto
  show "pbufs (ip6_fill_header h hl tc nexth len src dest m) = pbufs m" "heap (ip6_fill_header h hl tc nexth len src dest m) = heap m"
    "tabs (ip6_fill_header h hl tc nexth len src dest m) = tabs m"
    "rd (ip6_fill_header h hl tc nexth len src dest m) (h + 40) n = rd m (h + 40) n"
    unfolding ip6_fill_header_def Let_def using l [OF assms(1)] l [OF assms(2)] by (auto simp: rd_def bytes_wr)
qed

lemma ip6_output_spec:
  assumes "roomy m p pb 40" "length src = 4" "length dest = 4"
  shows "\<exists>m'. ip6_output_if_src output p (Some src) (Some dest) hl tc nexth (m, u, e) = output p (m', u, e) \<and> grown m p pb 40 m' \<and>
    contents m' [p] = ip6_bytes hl tc nexth (plen pb) src dest @ contents m [p]"
proof -
  let ?f = "\<lambda>b. b\<lparr>payload := payload pb - 40, plen := plen b + of_nat 40, tot_len := tot_len b + of_nat 40\<rparr>"
  define m1 where "m1 = upd p ?f m"
  define m' where "m' = ip6_fill_header (payload pb - 40) hl tc nexth (plen pb + 40) src dest m1"
  have r: "pbufs m p = Some pb" "tot_len pb = plen pb" "pref pb = 1" "40 \<le> payload pb" using assms(1) by (auto simp: roomy_def)
  note add = roomy_add [OF assms(1), simplified]
  have p1: "pbufs m1 p = Some (?f pb)" by (simp add: m1_def upd_def r(1))
  have "\<not> unat (plen pb + 40) < 40" using add(2) by simp
  then have out: "ip6_output_if_src output p (Some src) (Some dest) hl tc nexth (m, u, e) = output p (m', u, e)"
    using r add(1) p1 by (simp add: ip6_output_if_src_def IP6_HLEN_def assert_that_def m1_def m'_def)
  have g: "grown m p pb 40 m'" using r by (simp add: grown_def m'_def ip6_fill_frame [OF assms(2,3)] m1_def upd_def)
  have "rd m' (payload pb) n = rd m1 (payload pb) n" for n
    using ip6_fill_frame(4) [OF assms(2,3), of "payload pb - 40"] r(4) by (simp add: m'_def)
  then have "rd m' (payload pb) n = rd m (payload pb) n" for n by (simp add: m1_def upd_def rd_def)
  moreover have "rd m' (payload pb - 40) 40 = ip6_bytes hl tc nexth (plen pb) src dest"
    unfolding m'_def ip6_header_bytes [OF assms(2,3)] by simp
  ultimately have "contents m' [p] = ip6_bytes hl tc nexth (plen pb) src dest @ contents m [p]"
    using grown_contents [OF assms(1) _ g] by simp
  then show ?thesis using out g by blast
qed

end
