(* ===== verification/Bridge_Life.thy ===== *)
theory Bridge_Life
  imports Bridge_Udp Netif Ip_Output
begin

text \<open>
  Starting, stopping and sending, the rest of \<^verbatim>\<open>lwip/lwip_bridge.c\<close>: \<^verbatim>\<open>lwip_bridge_init\<close> with \<^verbatim>\<open>lwip_init\<close> of \<^verbatim>\<open>core/init.c\<close>,
  \<^verbatim>\<open>lwip_bridge_shutdown\<close> and \<^verbatim>\<open>lwip_bridge_udp_sendto\<close>, composed of the operations of the interface, TCP, UDP and IP output. The pool
  descriptors and the two random numbers that initialisation draws are parameters, as is sending a FIN.
\<close>

section \<open>The interface\<close>

definition tun_netif_init_fn :: "netif \<Rightarrow> err_t \<times> netif" where
  "tun_netif_init_fn n = (ERR_OK, n\<lparr>ni_mtu := 1500, ni_driver := True, ni_flags := NETIF_FLAG_UP OR NETIF_FLAG_LINK_UP\<rparr>)"

definition net_of :: "bridge \<Rightarrow> netst" where
  "net_of b = \<lparr>nif = tun_netif b, netif_default = default_netif b, nt = tw b, nu = us b\<rparr>"

text \<open>An operation on the interface, with the error callbacks of the connections it aborts.\<close>

definition run_net :: "(netst \<Rightarrow> netst option) \<Rightarrow> bridge \<Rightarrow> bridge option" where
  "run_net f b = do {
     s \<leftarrow> f (net_of b);
     run_tcp (\<lambda>_. Some (nt s)) (b\<lparr>tun_netif := nif s, default_netif := netif_default s, us := nu s\<rparr>)
   }"

text \<open>A TCP operation with a result.\<close>

definition run_tcp_r :: "(tcpw \<Rightarrow> ('a \<times> tcpw) option) \<Rightarrow> bridge \<Rightarrow> ('a \<times> bridge) option" where
  "run_tcp_r f b = do { (r, w) \<leftarrow> f (tw b); b \<leftarrow> run_tcp (\<lambda>_. Some w) b; Some (r, b) }"

definition run_udp_r :: "(pmem \<times> udps \<Rightarrow> ('a \<times> pmem \<times> udps) option) \<Rightarrow> bridge \<Rightarrow> ('a \<times> bridge) option" where
  "run_udp_r f b = do { (r, m, u) \<leftarrow> f (mem_of b, us b); Some (r, (set_mem m b)\<lparr>us := u\<rparr>) }"

definition remove_in :: "nat \<Rightarrow> bridge \<Rightarrow> bridge option" where
  "remove_in a b = do { (m, u) \<leftarrow> udp_remove a (mem_of b, us b); Some ((set_mem m b)\<lparr>us := u\<rparr>) }"

section \<open>Shutdown\<close>

definition close_listener :: "(nat \<Rightarrow> tcpw \<Rightarrow> err_t \<times> tcpw) \<Rightarrow> nat option \<Rightarrow> bridge \<Rightarrow> bridge option" where
  "close_listener send_fin l b = (case l of None \<Rightarrow> Some b | Some a \<Rightarrow> map_option snd (run_tcp_r (tcp_close send_fin a) b))"

definition remove_listener :: "nat option \<Rightarrow> bridge \<Rightarrow> bridge option" where
  "remove_listener l b = (case l of None \<Rightarrow> Some b | Some a \<Rightarrow> remove_in a b)"

definition lwip_bridge_shutdown :: "(nat \<Rightarrow> tcpw \<Rightarrow> err_t \<times> tcpw) \<Rightarrow> bridge \<Rightarrow> bridge option" where
  "lwip_bridge_shutdown send_fin b = do {
     b \<leftarrow> lwip_bridge_abort_all_tcp b;
     b \<leftarrow> close_listener send_fin (tcp_listen_pcb_v4 b) b;
     let b = b\<lparr>tcp_listen_pcb_v4 := None\<rparr>;
     b \<leftarrow> close_listener send_fin (tcp_listen_pcb_v6 b) b;
     let b = b\<lparr>tcp_listen_pcb_v6 := None\<rparr>;
     b \<leftarrow> remove_listener (udp_listen_pcb_v4 b) b;
     let b = b\<lparr>udp_listen_pcb_v4 := None\<rparr>;
     b \<leftarrow> remove_listener (udp_listen_pcb_v6 b) b;
     let b = b\<lparr>udp_listen_pcb_v6 := None\<rparr>;
     run_net netif_remove (b\<lparr>tun_netif := netif_set_down (tun_netif b)\<rparr>)
   }"

section \<open>Start\<close>

definition lwip_init :: "(memp_t \<Rightarrow> memp_desc) \<Rightarrow> u32 \<Rightarrow> u32 \<Rightarrow> bridge \<Rightarrow> bridge" where
  "lwip_init memp_pools rand_udp rand_tcp b =
    (let b = set_mem ((mem_of b)\<lparr>tabs := memp_init memp_pools\<rparr>) b;
         b = b\<lparr>us := udp_init rand_udp (us b)\<rparr>
     in b\<lparr>tw := tcp_init rand_tcp (tw b)\<rparr>)"

definition set_port :: "nat \<Rightarrow> u16 \<Rightarrow> bridge \<Rightarrow> bridge" where
  "set_port a port b = b\<lparr>tw := upd_pcb a (\<lambda>p. p\<lparr>local_port := port\<rparr>) (tw b)\<rparr>"

text \<open>Turning a new pcb into a listener for every port; the results of binding are not looked at.\<close>

definition start_tcp :: "ip_addr_t \<Rightarrow> nat option \<Rightarrow> bridge \<Rightarrow> (nat option \<times> bridge) option" where
  "start_tcp any pcb b =
    (case pcb of
       None \<Rightarrow> Some (None, b)
     | Some a \<Rightarrow> do {
         (_, b) \<leftarrow> run_tcp_r (tcp_bind a any 0) b;
         (l, b) \<leftarrow> run_tcp_r (tcp_listen_with_backlog a) b;
         case l of
           None \<Rightarrow> Some (None, b)
         | Some x \<Rightarrow> do { b \<leftarrow> run_tcp (tcp_accept (Some x) True) (set_port x 0 b); Some (Some x, b) }
       })"

definition start_udp :: "ip_addr_t \<Rightarrow> nat option \<Rightarrow> bridge \<Rightarrow> bridge option" where
  "start_udp any pcb b =
    (case pcb of
       None \<Rightarrow> Some b
     | Some a \<Rightarrow> do {
         (_, u) \<leftarrow> udp_bind a any 0 (us b);
         Some (b\<lparr>us := udp_recv a True 0 (upd_upcb a (\<lambda>p. p\<lparr>u_local_port := 0\<rparr>) u)\<rparr>)
       })"

definition lwip_bridge_init :: "(memp_t \<Rightarrow> memp_desc) \<Rightarrow> u32 \<Rightarrow> u32 \<Rightarrow> (nat \<Rightarrow> tcpw \<Rightarrow> err_t \<times> tcpw) \<Rightarrow> bridge \<Rightarrow> bridge option" where
  "lwip_bridge_init memp_pools rand_udp rand_tcp send_fin b = do {
     b \<leftarrow> (if \<not> initialized b then Some ((lwip_init memp_pools rand_udp rand_tcp b)\<lparr>initialized := True\<rparr>) else lwip_bridge_shutdown send_fin b);
     b \<leftarrow> run_net (\<lambda>s. map_option snd (netif_add 0 0 0 tun_netif_init_fn s)) b;
     b \<leftarrow> run_net (\<lambda>s. Some (on_nif netif_set_up (netif_set_default True s))) b;
     b \<leftarrow> run_net (netif_ip6_addr_set 0 [0, 0, 0, 0]) b;
     b \<leftarrow> run_net (netif_ip6_addr_set_state 0 IP6_ADDR_VALID) b;
     (p, b) \<leftarrow> run_tcp_r (tcp_new send_fin) b;
     (l, b) \<leftarrow> start_tcp (ip_addr_set_any False) p b;
     let b = b\<lparr>tcp_listen_pcb_v4 := l\<rparr>;
     (p, b) \<leftarrow> run_tcp_r (tcp_new_ip_type send_fin IPADDR_TYPE_V6) b;
     (l, b) \<leftarrow> start_tcp (ip_addr_set_any True) p b;
     let b = b\<lparr>tcp_listen_pcb_v6 := l\<rparr>;
     (p, b) \<leftarrow> run_udp_r udp_new b;
     b \<leftarrow> start_udp (ip_addr_set_any False) p (b\<lparr>udp_listen_pcb_v4 := p\<rparr>);
     (p, b) \<leftarrow> run_udp_r (udp_new_ip_type IPADDR_TYPE_V6) b;
     start_udp (ip_addr_set_any True) p (b\<lparr>udp_listen_pcb_v6 := p\<rparr>)
   }"

section \<open>Sending a datagram\<close>

text \<open>The interface's output functions, called on the memory in flight.\<close>

definition driver_out :: "(nat option \<Rightarrow> bridge \<Rightarrow> (err_t \<times> bridge) option) \<Rightarrow> nat \<Rightarrow> bridge ipst \<Rightarrow> (err_t \<times> bridge ipst) option" where
  "driver_out output p = (\<lambda>(m, u, b).
    if ni_driver (tun_netif b) then do { (err, b) \<leftarrow> output (Some p) (set_mem m b); Some (err, mem_of b, u, b) } else Some (ERR_IF, m, u, b))"

definition tun_ip_output :: "mallocf \<Rightarrow> nat \<Rightarrow> ip_addr_t \<Rightarrow> ip_addr_t \<Rightarrow> u8 \<Rightarrow> u8 \<Rightarrow> u8 \<Rightarrow> bridge ipst \<Rightarrow> (err_t \<times> bridge ipst) option" where
  "tun_ip_output malloc p src dest hops service proto = (\<lambda>(m, u, b). do {
     (err, ident, m, u, b) \<leftarrow> ip_output_if_src (driver_out (netif_output_ip4 malloc)) (driver_out (netif_output_ip6 malloc)) p src dest hops service proto (ip_id b, m, u, b);
     Some (err, m, u, b\<lparr>ip_id := ident\<rparr>)
   })"

text \<open>An address from the bytes Java passes; reading past their end is undefined.\<close>

definition word_at :: "u8 list \<Rightarrow> nat \<Rightarrow> u32" where
  "word_at bs i = word_of_int (le_val (take 4 (drop (4 * i) bs)))"

definition addr_of_bytes :: "bool \<Rightarrow> u8 list \<Rightarrow> ip_addr_t option" where
  "addr_of_bytes is_ipv6 bs =
    (if is_ipv6 then if length bs < 16 then None else Some \<lparr>u_addr = map (word_at bs) [0..<4], addr_type = IPADDR_TYPE_V6\<rparr>
     else if length bs < 4 then None else Some \<lparr>u_addr = [word_at bs 0, 0, 0, 0], addr_type = IPADDR_TYPE_V4\<rparr>)"

text \<open>Copying \<open>len\<close> bytes into a heap block; reading or writing past the end of a block is undefined.\<close>

definition copy_in :: "nat \<Rightarrow> u8 list \<Rightarrow> nat \<Rightarrow> pmem \<Rightarrow> pmem option" where
  "copy_in p data len m = do {
     pb \<leftarrow> pbufs m p;
     size \<leftarrow> heap m p;
     _ \<leftarrow> assert_that (len \<le> length data \<and> payload pb + len \<le> p + size);
     Some (wr (payload pb) (take len data) m)
   }"

definition lwip_bridge_udp_sendto :: "mallocf \<Rightarrow> u8 list \<Rightarrow> u16 \<Rightarrow> u8 list \<Rightarrow> u16 \<Rightarrow> bool \<Rightarrow> u8 list option \<Rightarrow> int \<Rightarrow> bridge \<Rightarrow> bridge option" where
  "lwip_bridge_udp_sendto malloc src_ip_bytes src_port dst_ip_bytes dst_port is_ipv6 data len b =
    (if data = None \<or> len \<le> 0 then Some b
     else do {
       d \<leftarrow> data;
       src_addr \<leftarrow> addr_of_bytes is_ipv6 src_ip_bytes;
       dst_addr \<leftarrow> addr_of_bytes is_ipv6 dst_ip_bytes;
       (pcb, b) \<leftarrow> run_udp_r (udp_new_ip_type (if is_ipv6 then IPADDR_TYPE_V6 else IPADDR_TYPE_V4)) b;
       case pcb of
         None \<Rightarrow> Some b
       | Some a \<Rightarrow> do {
           (bind_err, u) \<leftarrow> udp_bind a src_addr src_port (us b);
           let b = b\<lparr>us := u\<rparr>;
           if bind_err \<noteq> ERR_OK then remove_in a b
           else do {
             (p, m) \<leftarrow> pbuf_alloc malloc PBUF_TRANSPORT (word_of_int len) PBUF_RAM (mem_of b);
             case p of
               None \<Rightarrow> remove_in a (set_mem m b)
             | Some p \<Rightarrow> do {
                 m \<leftarrow> copy_in p d (nat len) m;
                 (_, m, u, b) \<leftarrow> udp_sendto_if_src malloc (tun_ip_output malloc) a p dst_addr dst_port src_addr (m, us b, b);
                 b \<leftarrow> free_in p ((set_mem m b)\<lparr>us := u\<rparr>);
                 remove_in a b
               }
           }
         }
     })"

end
