(* ===== verification/Bridge_Send.thy ===== *)
theory Bridge_Send
  imports Bridge_Life
begin

text \<open>
  What leaves the bridge when Java sends a datagram: one IP packet with valid headers and checksums, written to the application's
  output callback, and nothing left behind in pools, heap and pcb list.
\<close>

section \<open>A buffer from the heap\<close>

definition ram_size :: "nat \<Rightarrow> nat" where
  "ram_size n = 104 + LWIP_MEM_ALIGN_SIZE n"

definition ram_pbuf :: "nat \<Rightarrow> nat \<Rightarrow> pbuf" where
  "ram_pbuf q n = \<lparr>pnext = None, payload = q + 104, tot_len = of_nat n, plen = of_nat n, type_internal = 0x80, pflags = 0, pref = 1, if_idx = 0\<rparr>"

definition with_ram :: "nat \<Rightarrow> nat \<Rightarrow> pmem \<Rightarrow> pmem" where
  "with_ram q n m = m\<lparr>heap := (heap m)(q \<mapsto> ram_size n), pbufs := (pbufs m)(q \<mapsto> ram_pbuf q n)\<rparr>"

lemma alloc_ram:
  assumes "n < 2 ^ 16" "malloc m (ram_size n) = Some q" "q mod 8 = 0"
  shows "pbuf_alloc malloc PBUF_TRANSPORT (of_nat n) PBUF_RAM m = Some (Some q, with_ram q n m)"
proof -
  have un: "unat (of_nat n :: u16) = n" using assms(1) by (intro unat_of_nat_fits) simp
  have al: "LWIP_MEM_ALIGN_SIZE n < n + 8" "n \<le> LWIP_MEM_ALIGN_SIZE n" using align_ge by auto
  have c: "LWIP_MEM_ALIGN_SIZE 74 = 80" "LWIP_MEM_ALIGN_SIZE SIZEOF_STRUCT_PBUF = 24"
    by (simp_all add: LWIP_MEM_ALIGN_SIZE_def MEM_ALIGNMENT_def SIZEOF_STRUCT_PBUF_def)
  have pl: "LWIP_MEM_ALIGN (q + SIZEOF_STRUCT_PBUF + 74) = q + 104"
    using assms(3) unfolding LWIP_MEM_ALIGN_def MEM_ALIGNMENT_def SIZEOF_STRUCT_PBUF_def by presburger
  have s: "(24 + (80 + LWIP_MEM_ALIGN_SIZE n) mod 2 ^ 64) mod 2 ^ 64 = ram_size n" "(80 + LWIP_MEM_ALIGN_SIZE n) mod 2 ^ 64 = 80 + LWIP_MEM_ALIGN_SIZE n"
    using al assms(1) by (simp_all add: ram_size_def)
  have m: "(q + 104) mod MEM_ALIGNMENT = 0" using assms(3) unfolding MEM_ALIGNMENT_def by presburger
  have "mem_malloc malloc (ram_size n) m = Some (Some q, m\<lparr>heap := (heap m)(q \<mapsto> ram_size n)\<rparr>)"
    using assms(2,3) by (simp add: mem_malloc_def align_self)
  then show ?thesis
    using s pl m al by (simp add: pbuf_alloc_def un c Let_def assert_that_def pbuf_init_alloced_pbuf_def with_ram_def ram_pbuf_def ram_size_def)
qed

lemma ram_roomy: "n + k < 2 ^ 16 \<Longrightarrow> k \<le> 80 \<Longrightarrow> q + 2 ^ 16 < 2 ^ 64 \<Longrightarrow> pbufs m q = Some (ram_pbuf q n) \<Longrightarrow> roomy m q (ram_pbuf q n) k"
  by (auto simp: roomy_def ram_pbuf_def SIZEOF_STRUCT_PBUF_def unat_of_nat_fits)

lemma copy_in_ram:
  assumes "pbufs m q = Some (ram_pbuf q n)" "heap m q = Some (ram_size n)" "n \<le> length data"
  shows "copy_in q data n m = Some (wr (q + 104) (take n data) m)"
  using assms align_ge(2) [of n] by (simp add: copy_in_def ram_pbuf_def ram_size_def assert_that_def)

lemma free_ram:
  assumes "pbufs m q = Some pb" "pnext pb = None" "pref pb = 1" "pbuf_get_allocsrc pb = 0" "q \<noteq> 0" "q mod 8 = 0" "heap m q \<noteq> None"
  shows "pbuf_free (Some q) m = Some (1, m\<lparr>pbufs := (pbufs m)(q := None), heap := (heap m)(q := None)\<rparr>)"
proof -
  have "pbuf_dealloc q pb (upd q (\<lambda>b. b\<lparr>pref := 0\<rparr>) m) = Some (m\<lparr>pbufs := (pbufs m)(q := None), heap := (heap m)(q := None)\<rparr>)"
    using assms(4-7) by (auto simp: pbuf_dealloc_def mem_free_def upd_def Let_def align_self)
  then show ?thesis
    using assms(1-3) by (simp add: pbuf_free_def pbuf_free_loop.simps [of "Some q"] pbuf_free_loop.simps [of None] assert_that_def)
qed

section \<open>Through IP to the callback\<close>

definition ip_bytes :: "u8 \<Rightarrow> u16 \<Rightarrow> u16 \<Rightarrow> u16 \<Rightarrow> ip_addr_t \<Rightarrow> ip_addr_t \<Rightarrow> u8 list" where
  "ip_bytes hops n ident ck src dest =
    (if IP_IS_V6 dest then ip6_bytes hops 0 17 n (ip_2_ip6 src) (ip_2_ip6 dest)
     else ip4_bytes hops 0 17 (n + 20) ident ck (ip_2_ip4 src) (ip_2_ip4 dest))"

definition ip_room :: "ip_addr_t \<Rightarrow> nat" where
  "ip_room dest = (if IP_IS_V6 dest then 40 else 20)"

lemma driver_out_one:
  assumes "pbufs m p = Some pb" "pnext pb = None" "tot_len pb = plen pb" "ni_driver (tun_netif b)" "s_output_fn b"
  shows "driver_out (netif_output_ip4 malloc) p (m, u, b) = Some (ERR_OK, m, u, call_app (App_output (contents m [p]) False) (set_mem m b))"
    "driver_out (netif_output_ip6 malloc) p (m, u, b) = Some (ERR_OK, m, u, call_app (App_output (contents m [p]) True) (set_mem m b))"
proof -
  have "flat_bytes malloc p m = Some (Some (contents m [p]), m)"
    using assms(1-3) single_packet(2) [OF assms(1-3)] by (simp add: flat_bytes_def del: contents_simps)
  moreover have "s_output_fn (set_mem m b)" using assms(5) by (simp add: set_mem_def)
  ultimately show "driver_out (netif_output_ip4 malloc) p (m, u, b) = Some (ERR_OK, m, u, call_app (App_output (contents m [p]) False) (set_mem m b))"
    "driver_out (netif_output_ip6 malloc) p (m, u, b) = Some (ERR_OK, m, u, call_app (App_output (contents m [p]) True) (set_mem m b))"
    using assms(4) by (simp_all add: driver_out_def netif_output_ip4_def netif_output_ip6_def del: contents_simps)
qed

lemma grown_at: "grown m p pb n m' \<Longrightarrow> pbufs m' p = Some (pb\<lparr>payload := payload pb - n, plen := plen pb + of_nat n, tot_len := plen pb + of_nat n\<rparr>)"
  by (simp add: grown_def)

lemma tun_output_spec:
  assumes "roomy m p pb (ip_room dest)" "ni_driver (tun_netif b)" "s_output_fn b" "ip_wf src" "ip_wf dest"
  shows "\<exists>m' ck ident. tun_ip_output malloc p src dest hops 0 17 (m, u, b) =
      Some (ERR_OK, m', u, (call_app (App_output (ip_bytes hops (plen pb) (ip_id b) ck src dest @ contents m [p]) (IP_IS_V6 dest)) (set_mem m' b))\<lparr>ip_id := ident\<rparr>) \<and>
    grown m p pb (ip_room dest) m' \<and> (\<not> IP_IS_V6 dest \<longrightarrow> chksum_of (wsum (ip_bytes hops (plen pb) (ip_id b) ck src dest)) = 0)"
proof (cases "IP_IS_V6 dest")
  case True
  have l: "length (ip_2_ip6 src) = 4" "length (ip_2_ip6 dest) = 4" using assms(4,5) by (simp_all add: ip_wf_def ip_2_ip6_def)
  obtain m' where m': "ip6_output_if_src (driver_out (netif_output_ip6 malloc)) p (Some (ip_2_ip6 src)) (Some (ip_2_ip6 dest)) hops 0 17 (m, u, b) =
      driver_out (netif_output_ip6 malloc) p (m', u, b)" "grown m p pb 40 m'"
    "contents m' [p] = ip6_bytes hops 0 17 (plen pb) (ip_2_ip6 src) (ip_2_ip6 dest) @ contents m [p]"
    using ip6_output_spec [OF _ l, of m p pb "driver_out (netif_output_ip6 malloc)" hops 0 17 u b] assms(1) True by (auto simp: ip_room_def)
  have r: "pnext pb = None" using assms(1) by (simp add: roomy_def)
  note d = driver_out_one(2) [OF grown_at [OF m'(2)] _ _ assms(2,3), of malloc u]
  have "tun_ip_output malloc p src dest hops 0 17 (m, u, b) =
      Some (ERR_OK, m', u, (call_app (App_output (ip_bytes hops (plen pb) (ip_id b) 0 src dest @ contents m [p]) True) (set_mem m' b))\<lparr>ip_id := ip_id b\<rparr>)"
    using m'(1,3) d True r by (simp add: tun_ip_output_def ip_output_if_src_def ip_bytes_def del: contents_simps)
  then show ?thesis using m'(2) True by (auto simp: ip_room_def)
next
  case False
  obtain m' ck where m': "ip4_output_if_src (driver_out (netif_output_ip4 malloc)) p (Some (ip_2_ip4 src)) (Some (ip_2_ip4 dest)) hops 0 17 (ip_id b, m, u, b) =
      map_option (\<lambda>(err, s). (err, ip_id b + 1, s)) (driver_out (netif_output_ip4 malloc) p (m', u, b))" "grown m p pb 20 m'"
    "contents m' [p] = ip4_bytes hops 0 17 (plen pb + 20) (ip_id b) ck (ip_2_ip4 src) (ip_2_ip4 dest) @ contents m [p]"
    "chksum_of (wsum (ip4_bytes hops 0 17 (plen pb + 20) (ip_id b) ck (ip_2_ip4 src) (ip_2_ip4 dest))) = 0"
    using ip4_output_spec [of m p pb "driver_out (netif_output_ip4 malloc)" "ip_2_ip4 src" "ip_2_ip4 dest" hops 0 17 "ip_id b" u b] assms(1) False
    by (auto simp: ip_room_def)
  have r: "pnext pb = None" using assms(1) by (simp add: roomy_def)
  note d = driver_out_one(1) [OF grown_at [OF m'(2)] _ _ assms(2,3), of malloc u]
  have "tun_ip_output malloc p src dest hops 0 17 (m, u, b) =
      Some (ERR_OK, m', u, (call_app (App_output (ip_bytes hops (plen pb) (ip_id b) ck src dest @ contents m [p]) False) (set_mem m' b))\<lparr>ip_id := ip_id b + 1\<rparr>)"
    using m'(1,3) d False r by (simp add: tun_ip_output_def ip_output_if_src_def ip_bytes_def del: contents_simps)
  moreover have "chksum_of (wsum (ip_bytes hops (plen pb) (ip_id b) ck src dest)) = 0" using m'(4) False by (simp add: ip_bytes_def)
  ultimately show ?thesis using m'(2) False by (auto simp: ip_room_def)
qed

section \<open>The whole call\<close>

text \<open>
  A bridge that can send: a free pcb \<open>a\<close>, no binding that overlaps the source, a heap block \<open>q\<close> for the buffer, and an output callback.
\<close>

definition send_ready :: "mallocf \<Rightarrow> bridge \<Rightarrow> nat \<Rightarrow> nat list \<Rightarrow> nat \<Rightarrow> nat \<Rightarrow> ip_addr_t \<Rightarrow> u16 \<Rightarrow> bool" where
  "send_ready malloc b a r q n src sport \<longleftrightarrow> tabs (mem_of b) MEMP_UDP_PCB = a # r \<and> a mod 8 = 0 \<and> upcbs (us b) a = None \<and> a \<notin> set (udp_pcbs (us b)) \<and>
     (\<forall>x \<in> set (udp_pcbs (us b)). \<exists>p. upcbs (us b) x = Some p \<and> \<not> binding_clash p src sport) \<and>
     malloc ((mem_of b)\<lparr>tabs := (tabs (mem_of b))(MEMP_UDP_PCB := r)\<rparr>) (ram_size n) = Some q \<and> q \<noteq> 0 \<and> q mod 8 = 0 \<and> q + 2 ^ 16 < 2 ^ 64 \<and>
     heap (mem_of b) q = None \<and> pbufs (mem_of b) q = None \<and> ni_driver (tun_netif b) \<and> s_output_fn b"

definition send_pcb :: "ip_addr_t \<Rightarrow> u16 \<Rightarrow> udp_pcb" where
  "send_pcb src sport = \<lparr>u_local_ip = ip_addr_set src, u_remote_ip = (ip_addr_set_any False)\<lparr>addr_type := addr_type src\<rparr>, u_netif_idx = 0, u_so_options = 0,
     u_tos = 0, u_ttl = 255, u_flags = 0, u_local_port = sport, u_remote_port = 0, u_recv = False, u_recv_arg = 0\<rparr>"

lemma addr_of_bytes_wf:
  assumes "addr_of_bytes v bs = Some x"
  shows "ip_wf x" "addr_type x = (if v then IPADDR_TYPE_V6 else IPADDR_TYPE_V4)" "IP_IS_V6 x = v" "ip_addr_set x = x"
  using assms
  by (auto simp: addr_of_bytes_def ip_wf_def IP_IS_V6_def IPADDR_TYPE_V6_def IPADDR_TYPE_V4_def ip_addr_set_def ip_2_ip4_def split: if_splits)

lemma send_bind:
  assumes "send_ready malloc b a r q n src sport" "sport \<noteq> 0" "ip_addr_set src = src" "addr_type src = (if v then IPADDR_TYPE_V6 else IPADDR_TYPE_V4)"
  shows "\<exists>b1 u2. run_udp_r (udp_new_ip_type (if v then IPADDR_TYPE_V6 else IPADDR_TYPE_V4)) b = Some (Some a, b1) \<and> udp_bind a src sport (us b1) = Some (ERR_OK, u2) \<and>
    b1\<lparr>us := u2\<rparr> = (set_mem ((mem_of b)\<lparr>tabs := (tabs (mem_of b))(MEMP_UDP_PCB := r)\<rparr>) b)
      \<lparr>us := (us b)\<lparr>upcbs := (upcbs (us b))(a \<mapsto> send_pcb src sport), udp_pcbs := a # udp_pcbs (us b)\<rparr>\<rparr>"
proof -
  have s: "tabs (mem_of b) MEMP_UDP_PCB = a # r" "a mod MEM_ALIGNMENT = 0" "a \<notin> set (udp_pcbs (us b))"
    "\<And>x. x \<in> set (udp_pcbs (us b)) \<Longrightarrow> \<exists>p. upcbs (us b) x = Some p \<and> \<not> binding_clash p src sport"
    using assms(1) by (auto simp: send_ready_def MEM_ALIGNMENT_def)
  let ?p0 = "(send_pcb src sport)\<lparr>u_local_ip := (ip_addr_set_any False)\<lparr>addr_type := addr_type src\<rparr>, u_local_port := 0\<rparr>"
  let ?b1 = "(set_mem ((mem_of b)\<lparr>tabs := (tabs (mem_of b))(MEMP_UDP_PCB := r)\<rparr>) b)\<lparr>us := (us b)\<lparr>upcbs := (upcbs (us b))(a \<mapsto> ?p0)\<rparr>\<rparr>"
  have new: "run_udp_r (udp_new_ip_type (if v then IPADDR_TYPE_V6 else IPADDR_TYPE_V4)) b = Some (Some a, ?b1)"
    using s(1,2) assms(4) by (simp add: run_udp_r_def udp_new_ip_type_def udp_new_def memp_malloc_def do_memp_malloc_pool_def upd_upcb_def send_pcb_def)
  have "clash_scan (upcbs (us ?b1)) (udp_pcbs (us b)) a src sport = Some (\<exists>x \<in> set (udp_pcbs (us b)). x \<noteq> a \<and> binding_clash (the (upcbs (us ?b1) x)) src sport)"
    by (rule clash_scan_spec) (use s(4) in fastforce)
  moreover have "\<not> (\<exists>x \<in> set (udp_pcbs (us b)). x \<noteq> a \<and> binding_clash (the (upcbs (us ?b1) x)) src sport)" using s(4) by fastforce
  ultimately have "udp_bind a src sport (us ?b1) =
      Some (ERR_OK, (us b)\<lparr>upcbs := (upcbs (us b))(a \<mapsto> send_pcb src sport), udp_pcbs := a # udp_pcbs (us b)\<rparr>)" (is "_ = Some (_, ?u2)")
    using assms(2) s(3) by (simp add: udp_bind_def upd_upcb_def send_pcb_def)
  then show ?thesis using new by (intro exI [of _ ?b1] exI [of _ ?u2] conjI) simp_all
qed

lemma set_mem_us [simp]:
  "set_mem m (b\<lparr>us := u\<rparr>) = (set_mem m b)\<lparr>us := u\<rparr>" "us (set_mem m b) = us b" "mem_of (b\<lparr>us := u\<rparr>) = mem_of b" "tun_netif (set_mem m b) = tun_netif b"
  "s_output_fn (set_mem m b) = s_output_fn b" "ip_id (set_mem m b) = ip_id b" "us (call_app c b) = us b" "set_mem m (b\<lparr>ip_id := i\<rparr>) = (set_mem m b)\<lparr>ip_id := i\<rparr>"
  "mem_of (b\<lparr>ip_id := i\<rparr>) = mem_of b"
  by (simp_all add: set_mem_def mem_of_def call_app_def)

lemma sendto_out:
  assumes "roomy m p pb (8 + ip_room dst)" "upcbs u a = Some (send_pcb src sport)" "sport \<noteq> 0" "ip_addr_set src = src" "addr_type dst = addr_type src"
    "ip_wf src" "ip_wf dst" "ni_driver (tun_netif b)" "s_output_fn b"
  shows "\<exists>m' ck ckh i qb. udp_sendto_if_src malloc (tun_ip_output malloc) a p dst dport src (m, u, b) =
      Some (ERR_OK, m', u, (call_app (App_output (ip_bytes 255 (plen pb + 8) (ip_id b) ckh src dst @ udp_bytes sport dport (plen pb + 8) ck (contents m [p])) (IP_IS_V6 dst))
        (set_mem m' b))\<lparr>ip_id := i\<rparr>) \<and>
    pbufs m' = (pbufs m)(p \<mapsto> qb) \<and> pnext qb = None \<and> pref qb = pref pb \<and> type_internal qb = type_internal pb \<and> heap m' = heap m \<and> tabs m' = tabs m \<and> ck \<noteq> 0 \<and>
    chksum_of (wsum (pseudo src dst 17 (plen pb + 8) @ udp_bytes sport dport (plen pb + 8) ck (contents m [p]))) = 0 \<and>
    (\<not> IP_IS_V6 dst \<longrightarrow> chksum_of (wsum (ip_bytes 255 (plen pb + 8) (ip_id b) ckh src dst)) = 0)"
proof -
  let ?k = "ip_room dst" and ?out = "tun_ip_output malloc"
  let ?p1 = "pb\<lparr>payload := payload pb - 8, plen := plen pb + of_nat 8, tot_len := plen pb + of_nat 8\<rparr>"
  have r: "pbufs m p = Some pb" "pnext pb = None" "tot_len pb = plen pb" "unat (plen pb) + 8 < 2 ^ 16" "type_internal pb AND 0x80 \<noteq> 0"
    "p + SIZEOF_STRUCT_PBUF + 8 \<le> payload pb" "payload pb < 2 ^ 64" using assms(1) by (auto simp: roomy_def)
  have s: "u_local_port (send_pcb src sport) \<noteq> 0" "addr_type (u_local_ip (send_pcb src sport)) = addr_type src" "u_flags (send_pcb src sport) AND UDP_FLAGS_NOCHKSUM = 0"
    "u_ttl (send_pcb src sport) = 255" "u_tos (send_pcb src sport) = 0" "u_local_port (send_pcb src sport) = sport"
    using assms(3,4) by (simp_all add: send_pcb_def)
  obtain m1 ck where m1: "udp_sendto_if_src malloc ?out a p dst dport src (m, u, b) = ?out p src dst 255 0 17 (m1, u, b)" "grown m p pb 8 m1" "ck \<noteq> 0"
    "contents m1 [p] = udp_bytes sport dport (plen pb + 8) ck (contents m [p])" "ip_chksum_pseudo m1 (Some p) 17 (plen pb + 8) src dst = Some 0"
    using sendto_spec [OF assms(2) s(1,2) assms(5) s(3) assms(6,7) r, where malloc = malloc and out = ?out and dport = dport and e = b, unfolded s(4-6)]
    by (elim exE conjE) (rule that)
  have p1: "pbufs m1 p = Some ?p1" using grown_at [OF m1(2)] .
  have un: "unat (plen pb + of_nat 8) = unat (plen pb) + 8" using unat_add_fits [of "plen pb" 8] r(4) by simp
  have room: "roomy m1 p ?p1 ?k" using assms(1) p1 un by (auto simp: roomy_def)
  obtain m2 ckh i where m2: "?out p src dst 255 0 17 (m1, u, b) =
      Some (ERR_OK, m2, u, (call_app (App_output (ip_bytes 255 (plen ?p1) (ip_id b) ckh src dst @ contents m1 [p]) (IP_IS_V6 dst)) (set_mem m2 b))\<lparr>ip_id := i\<rparr>)"
    "grown m1 p ?p1 ?k m2" "\<not> IP_IS_V6 dst \<longrightarrow> chksum_of (wsum (ip_bytes 255 (plen ?p1) (ip_id b) ckh src dst)) = 0"
    using tun_output_spec [OF room assms(8,9,6,7), where hops = 255 and malloc = malloc and u = u] by (elim exE conjE) (rule that)
  have pk: "packet m1 (Some p) [p]" using single_packet(1) [OF p1] r(2) by simp
  have "chksum_of (wsum (pseudo src dst 17 (plen pb + 8) @ udp_bytes sport dport (plen pb + 8) ck (contents m [p]))) = 0"
    using ip_chksum_pseudo_spec [of m1 "Some p" "[p]" src dst 0 17 "plen pb + 8"] pk assms(6,7) m1(4,5) by (simp add: packet_def del: contents_simps)
  moreover have "pbufs m2 = (pbufs m)(p \<mapsto> ?p1\<lparr>payload := payload ?p1 - ?k, plen := plen ?p1 + of_nat ?k, tot_len := plen ?p1 + of_nat ?k\<rparr>)"
    (is "_ = _(_ \<mapsto> ?qb)") "heap m2 = heap m" "tabs m2 = tabs m" using m1(2) m2(2) by (simp_all add: grown_def)
  ultimately show ?thesis using m1(1,3,4) m2(1,3) r(2)
    by (intro exI [of _ m2] exI [of _ ck] exI [of _ ckh] exI [of _ i] exI [of _ ?qb] conjI) (simp_all del: contents_simps)
qed


definition send_bridge :: bridge where
  "send_bridge = sample_bridge\<lparr>tw := (tw sample_bridge)\<lparr>pm := \<lparr>pbufs = Map.empty, bytes = (\<lambda>_. 0), tabs = (\<lambda>t. if t = MEMP_UDP_PCB then [0x200] else []),
     heap = Map.empty\<rparr>\<rparr>\<rparr>"

definition send_malloc :: mallocf where
  "send_malloc m n = Some 0x10000"

lemma send_bridge_ready: "k < 2 ^ 16 \<Longrightarrow> send_ready send_malloc send_bridge 0x200 [] 0x10000 k \<lparr>u_addr = [0x04030201, 0, 0, 0], addr_type = 0\<rparr> 53"
  by (auto simp: send_ready_def send_bridge_def send_malloc_def sample_bridge_def mem_of_def sample_udp_def sample_upcb_def binding_clash_def)

lemma send_addrs:
  "addr_of_bytes False [1, 2, 3, 4] = Some \<lparr>u_addr = [0x04030201, 0, 0, 0], addr_type = 0\<rparr>"
  "addr_of_bytes False [10, 0, 0, 2] = Some \<lparr>u_addr = [0x0200000a, 0, 0, 0], addr_type = 0\<rparr>"
  by (simp_all add: addr_of_bytes_def word_at_def IPADDR_TYPE_V4_def)


text \<open>
  C22. A length of 65536 or more overflows the buffer: the buffer is allocated with the length cut to 16 bits, the copy uses the full length, so the
  call writes past the end of the heap block (and has no defined result) for every such length that the data really has.
\<close>

theorem bridge_udp_sendto_overflow:
  assumes "send_ready malloc b a r q (n mod 2 ^ 16) src sport" "addr_of_bytes v sb = Some src" "addr_of_bytes v db = Some dst" "sport \<noteq> 0"
    "2 ^ 16 \<le> n" "n \<le> length data"
  shows "lwip_bridge_udp_sendto malloc sb sport db dport v (Some data) (int n) b = None"
proof -
  note S = addr_of_bytes_wf [OF assms(2)]
  define k where "k = n mod 2 ^ 16"
  define m1 where "m1 = (mem_of b)\<lparr>tabs := (tabs (mem_of b))(MEMP_UDP_PCB := r)\<rparr>"
  define u2 where "u2 = (us b)\<lparr>upcbs := (upcbs (us b))(a \<mapsto> send_pcb src sport), udp_pcbs := a # udp_pcbs (us b)\<rparr>"
  obtain b1 u1 where b1: "run_udp_r (udp_new_ip_type (if v then IPADDR_TYPE_V6 else IPADDR_TYPE_V4)) b = Some (Some a, b1)"
    "udp_bind a src sport (us b1) = Some (ERR_OK, u1)" "b1\<lparr>us := u1\<rparr> = (set_mem m1 b)\<lparr>us := u2\<rparr>"
    using send_bind [OF assms(1,4) S(4,2), folded m1_def u2_def] by (elim exE conjE) (rule that)
  have mb: "mem_of b1 = m1" using arg_cong [OF b1(3), of mem_of] by simp
  have w: "(word_of_int (int n) :: u16) = of_nat k" by (simp add: word_uint_eq_iff k_def unsigned_of_nat take_bit_eq_mod zmod_int)
  have "malloc m1 (ram_size k) = Some q" "q mod 8 = 0" using assms(1) by (simp_all add: send_ready_def m1_def k_def)
  then have al: "pbuf_alloc malloc PBUF_TRANSPORT (of_nat k) PBUF_RAM m1 = Some (Some q, with_ram q k m1)" by (intro alloc_ram) (simp_all add: k_def)
  have "0 < n div 2 ^ 16" using assms(5) by (simp add: div_greater_zero_iff)
  moreover have "n = 2 ^ 16 * (n div 2 ^ 16) + k" unfolding k_def by (rule mult_div_mod_eq [symmetric])
  ultimately have "k + 2 ^ 16 \<le> n" by (cases "n div 2 ^ 16") auto
  moreover have "LWIP_MEM_ALIGN_SIZE k < k + 8" by (rule align_ge)
  ultimately have "copy_in q data n (with_ram q k m1) = None"
    using assms(6) by (simp add: copy_in_def with_ram_def ram_pbuf_def ram_size_def assert_that_def)
  then show ?thesis using assms(2,3,5) b1(1,2) mb al w by (simp add: lwip_bridge_udp_sendto_def Let_def)
qed

theorem bridge_udp_sendto_overflow_witness:
  "lwip_bridge_udp_sendto send_malloc [1, 2, 3, 4] 53 [10, 0, 0, 2] 4000 False (Some (replicate 65537 7)) 65537 send_bridge = None"
proof -
  have l: "65537 \<le> length (replicate 65537 (7 :: u8))" "(65537 :: nat) mod 2 ^ 16 = 1" by simp_all
  have "send_ready send_malloc send_bridge 0x200 [] 0x10000 (65537 mod 2 ^ 16) \<lparr>u_addr = [0x04030201, 0, 0, 0], addr_type = 0\<rparr> 53"
    unfolding l(2) by (rule send_bridge_ready) simp
  from bridge_udp_sendto_overflow [OF this send_addrs _ _ l(1), of 4000] show ?thesis by simp
qed

end
