(* ===== verification/Bridge_Start.thy ===== *)
theory Bridge_Start
  imports Bridge_Send
begin

text \<open>
  Starting the stack: after \<^verbatim>\<open>lwip_bridge_init\<close> on a fresh process the interface accepts every packet, and the listeners for every port and
  both IP versions are in place, whatever the random numbers were. With the theorem on UDP input this makes the start and the data path one.
\<close>

section \<open>Quiet operations\<close>

text \<open>Operations that only log calls other than error callbacks change nothing but the TCP state.\<close>

lemma dispatch_quiet: "(\<And>a e. Errf a e \<notin> set cs) \<Longrightarrow> foldl dispatch_call b cs = b"
proof (induction cs arbitrary: b)
  case (Cons c cs)
  then show ?case by (cases c) auto
qed simp

lemma run_tcp_quiet:
  assumes "f (tw b) = Some w" "calls w = calls (tw b) @ cs" "\<And>a e. Errf a e \<notin> set cs"
  shows "run_tcp f b = Some (b\<lparr>tw := w\<rparr>)"
  using assms dispatch_quiet [OF assms(3)] by (simp add: run_tcp_def)

lemma run_tcp_r_quiet:
  assumes "f (tw b) = Some (r, w)" "calls w = calls (tw b) @ cs" "\<And>a e. Errf a e \<notin> set cs"
  shows "run_tcp_r f b = Some (r, b\<lparr>tw := w\<rparr>)"
  using assms run_tcp_quiet [of "\<lambda>_. Some w" b w cs] by (simp add: run_tcp_r_def)

lemma run_net_quiet:
  assumes "f (net_of b) = Some s" "nt s = tw b"
  shows "run_net f b = Some (b\<lparr>tun_netif := nif s, default_netif := netif_default s, us := nu s\<rparr>)"
  using assms run_tcp_quiet [of "\<lambda>_. Some (tw b)" "b\<lparr>tun_netif := nif s, default_netif := netif_default s, us := nu s\<rparr>" "tw b" "[]"]
  by (simp add: run_net_def)

section \<open>The interface comes up\<close>

definition tun_up :: "netif \<Rightarrow> netif" where
  "tun_up n = (netif_reset n)\<lparr>ni_mtu := 1500, ni_driver := True, ni_flags := NETIF_FLAG_UP OR NETIF_FLAG_LINK_UP,
     ni_ip6_addr_state := [IP6_ADDR_VALID, 0, 0]\<rparr>"

lemma netif_start:
  assumes "\<not> default_netif b"
  shows "(do { b \<leftarrow> run_net (\<lambda>s. map_option snd (netif_add 0 0 0 tun_netif_init_fn s)) b;
      b \<leftarrow> run_net (\<lambda>s. Some (on_nif netif_set_up (netif_set_default True s))) b;
      b \<leftarrow> run_net (netif_ip6_addr_set 0 [0, 0, 0, 0]) b;
      run_net (netif_ip6_addr_set_state 0 IP6_ADDR_VALID) b }) = Some (b\<lparr>tun_netif := tun_up (tun_netif b), default_netif := True\<rparr>)"
proof -
  let ?n1 = "(netif_reset (tun_netif b))\<lparr>ni_mtu := 1500, ni_driver := True, ni_flags := NETIF_FLAG_UP OR NETIF_FLAG_LINK_UP\<rparr>"
  have z: "ni_ip_addr (netif_reset n) = 0" "ni_netmask (netif_reset n) = 0" "ni_gw (netif_reset n) = 0"
    "ni_ip6_addr (netif_reset n) = [[0, 0, 0, 0], [0, 0, 0, 0], [0, 0, 0, 0]]" "ni_ip6_addr_state (netif_reset n) = [0, 0, 0]" for n
    by (simp_all add: netif_reset_def nd6_restart_netif_def LWIP_IPV6_NUM_ADDRESSES_def numeral_3_eq_3)
  have 1: "run_net (\<lambda>s. map_option snd (netif_add 0 0 0 tun_netif_init_fn s)) b = Some (b\<lparr>tun_netif := ?n1, default_netif := False\<rparr>)" (is "_ = Some ?b1")
    using assms by (subst run_net_quiet) (auto simp: net_of_def netif_add_def netif_set_addr_def netif_do_set_ipaddr_def netif_do_set_netmask_def
        netif_do_set_gw_def on_nif_def z assert_that_def tun_netif_init_fn_def)
  have up: "netif_set_up ?n1 = ?n1" by (simp add: netif_set_up_def NETIF_FLAG_UP_def NETIF_FLAG_LINK_UP_def)
  have 2: "run_net (\<lambda>s. Some (on_nif netif_set_up (netif_set_default True s))) ?b1 = Some (?b1\<lparr>default_netif := True\<rparr>)" (is "_ = Some ?b2")
    using up by (subst run_net_quiet) (auto simp: net_of_def on_nif_def netif_set_default_def)
  have 3: "run_net (netif_ip6_addr_set 0 [0, 0, 0, 0]) ?b2 = Some ?b2"
    by (subst run_net_quiet) (auto simp: net_of_def netif_ip6_addr_set_def netif_ip6_addr_set_parts_def z assert_that_def LWIP_IPV6_NUM_ADDRESSES_def)
  have 4: "run_net (netif_ip6_addr_set_state 0 IP6_ADDR_VALID) ?b2 = Some (?b2\<lparr>tun_netif := tun_up (tun_netif b)\<rparr>)"
    by (subst run_net_quiet) (auto simp: net_of_def netif_ip6_addr_set_state_def z assert_that_def LWIP_IPV6_NUM_ADDRESSES_def IP6_ADDR_VALID_def
        on_nif_def tun_up_def)
  show ?thesis by (simp add: 1 2 [simplified] 3 [simplified] 4 [simplified])
qed

lemma tun_up_catch_all: "catch_all (tun_up n)" "ni_driver (tun_up n)"
  by (simp_all add: catch_all_def tun_up_def netif_is_up_def ip6_slots_def netif_reset_def nd6_restart_netif_def LWIP_IPV6_NUM_ADDRESSES_def numeral_3_eq_3
      IP6_ADDR_VALID_def ip6_addr_isvalid_def NETIF_FLAG_UP_def NETIF_FLAG_LINK_UP_def)

section \<open>The TCP listeners\<close>

lemma port_used_total: "\<forall>a \<in> set as. t a \<noteq> None \<Longrightarrow> \<exists>u. tcp_port_used t port as = Some u"
proof (induction as)
  case (Cons a as)
  then obtain p where "t a = Some p" by auto
  then show ?case using Cons by auto
qed (auto intro: exI [of _ False])

text \<open>The search for a port ends for every list of live pcbs; whatever it returns, only the port counter changes.\<close>

lemma new_port_total: "\<forall>a \<in> set as. t a \<noteq> None \<Longrightarrow> \<exists>r po. tcp_new_port_again t as n port = Some (r, po) \<and> (r = 0 \<or> r = po)"
proof (induction t as n port rule: tcp_new_port_again.induct)
  case (1 t as n port)
  obtain u where u: "tcp_port_used t (tcp_next_port port) as = Some u" using port_used_total [OF 1(2)] by blast
  show ?case
  proof (cases "u \<and> \<not> n + 1 > unat (TCP_LOCAL_PORT_RANGE_END - TCP_LOCAL_PORT_RANGE_START)")
    case True
    then obtain r po where "tcp_new_port_again t as (n + 1) (tcp_next_port port) = Some (r, po) \<and> (r = 0 \<or> r = po)"
      using 1(1) [OF refl u] 1(2) by blast
    then show ?thesis using True u by (subst tcp_new_port_again.simps) (simp add: Let_def)
  next
    case False
    then show ?thesis using u by (subst tcp_new_port_again.simps) (auto simp: Let_def)
  qed
qed

definition tcp_idle :: "tcpw \<Rightarrow> nat list \<Rightarrow> bool" where
  "tcp_idle w ls \<longleftrightarrow> active_pcbs w = [] \<and> tw_pcbs w = [] \<and> bound_pcbs w = [] \<and> listen_pcbs w = ls \<and> (\<forall>l \<in> set ls. pcbs w l \<noteq> None)"

lemma bind_tcp_idle:
  assumes "tcp_idle w ls" "pcbs w x = Some p" "st p = CLOSED" "local_port p = 0"
  shows "\<exists>e po lp. tcp_bind x any 0 w = Some (e, (if e = ERR_OK then say [Timer_needed] (w\<lparr>tcp_port := po, bound_pcbs := [x],
      pcbs := (pcbs w)(x \<mapsto> p\<lparr>local_ip := lp, local_port := po\<rparr>)\<rparr>) else w\<lparr>tcp_port := po\<rparr>)) \<and> (e = ERR_OK \<longrightarrow> po \<noteq> 0) \<and>
    lp = (if \<not> ip_addr_isany any \<or> addr_type any \<noteq> addr_type (local_ip p) then ip_addr_set any else local_ip p)"
proof -
  have i: "bound_pcbs w = []" "tcp_pcb_lists w = ls" "\<And>l. l \<in> set ls \<Longrightarrow> pcbs w l \<noteq> None" using assms(1) by (auto simp: tcp_idle_def tcp_pcb_lists_def)
  obtain r po where rp: "tcp_new_port_again (pcbs w) ls 0 (tcp_port w) = Some (r, po)" "r = 0 \<or> r = po"
    using new_port_total [of ls "pcbs w" 0 "tcp_port w"] i(3) by auto
  show ?thesis
  proof (cases "r = 0")
    case True
    then have "tcp_bind x any 0 w = Some (ERR_BUF, w\<lparr>tcp_port := po\<rparr>)"
      using rp(1) assms(2,3) i(2) by (simp add: tcp_bind_def bind_port_def tcp_new_port_def)
    then show ?thesis by (intro exI [of _ ERR_BUF] exI [of _ po]) simp
  next
    case False
    then show ?thesis using rp assms(2,3) i(1,2)
      by (intro exI [of _ ERR_OK] exI [of _ po]) (auto simp: tcp_bind_def bind_port_def tcp_new_port_def upd_pcb_def say_def)
  qed
qed

text \<open>A listener for every port: the new state of the TCP module.\<close>

definition listens :: "tcpw \<Rightarrow> nat \<Rightarrow> nat \<Rightarrow> u8 \<Rightarrow> nat list \<Rightarrow> nat list \<Rightarrow> nat list \<Rightarrow> tcpw \<Rightarrow> bool" where
  "listens w x l ty ls lr pr w' \<longleftrightarrow> tcp_idle w' (l # ls) \<and> (\<exists>q. pcbs w' = (pcbs w)(x := None, l \<mapsto> q) \<and> st q = LISTEN \<and> local_port q = 0 \<and> accept_cb q \<and>
     addr_type (local_ip q) = ty) \<and> pbufs (pm w') = pbufs (pm w) \<and> heap (pm w') = heap (pm w) \<and>
     tabs (pm w') = (tabs (pm w))(MEMP_TCP_PCB_LISTEN := lr, MEMP_TCP_PCB := x # pr)"

lemma listen_step:
  assumes "pcbs v x = Some p" "st p = CLOSED" "tabs (pm v) MEMP_TCP_PCB_LISTEN = l # lr" "l mod 8 = 0" "x mod 8 = 0" "l \<noteq> x"
    "bound_pcbs v = (if local_port p \<noteq> 0 then [x] else [])"
  shows "tcp_listen_with_backlog x v = Some (Some l, say [Timer_needed] (v\<lparr>bound_pcbs := [], pm := (pm v)\<lparr>tabs := (tabs (pm v))(MEMP_TCP_PCB_LISTEN := lr,
      MEMP_TCP_PCB := x # tabs (pm v) MEMP_TCP_PCB)\<rparr>, pcbs := (pcbs v)(x := None, l \<mapsto> listen_pcb p), listen_pcbs := l # listen_pcbs v\<rparr>))"
  using assms
  by (cases v; cases "local_port p = 0")
    (simp_all add: tcp_listen_with_backlog_def tcp_listen_with_backlog_and_err_def take_pcb_def memp_malloc_def do_memp_malloc_pool_def MEM_ALIGNMENT_def
        tcp_free_def free_pcb_def memp_free_def do_memp_free_pool_def assert_that_def)

lemma start_tcp_spec:
  assumes "tcp_idle (tw b) ls" "pcbs (tw b) x = Some p" "st p = CLOSED" "local_port p = 0" "tabs (pm (tw b)) MEMP_TCP_PCB_LISTEN = l # lr"
    "l mod 8 = 0" "x mod 8 = 0" "l \<noteq> x" "x \<notin> set ls" "l \<notin> set ls" "addr_type any = addr_type (local_ip p)"
  shows "\<exists>w'. start_tcp any (Some x) b = Some (Some l, b\<lparr>tw := w'\<rparr>) \<and>
    listens (tw b) x l (addr_type any) ls lr (tabs (pm (tw b)) MEMP_TCP_PCB) w'"
proof -
  let ?w = "tw b"
  obtain e po lp where bind: "tcp_bind x any 0 ?w = Some (e, (if e = ERR_OK then say [Timer_needed] (?w\<lparr>tcp_port := po, bound_pcbs := [x],
      pcbs := (pcbs ?w)(x \<mapsto> p\<lparr>local_ip := lp, local_port := po\<rparr>)\<rparr>) else ?w\<lparr>tcp_port := po\<rparr>))" (is "_ = Some (_, ?v)")
    "e = ERR_OK \<longrightarrow> po \<noteq> 0" "lp = (if \<not> ip_addr_isany any \<or> addr_type any \<noteq> addr_type (local_ip p) then ip_addr_set any else local_ip p)"
    using bind_tcp_idle [OF assms(1-4), of any] by (elim exE conjE) (rule that)
  define p1 where "p1 = (if e = ERR_OK then p\<lparr>local_ip := lp, local_port := po\<rparr> else p)"
  have v: "pcbs ?v = (pcbs ?w)(x \<mapsto> p1)" "pm ?v = pm ?w" "bound_pcbs ?v = (if local_port p1 \<noteq> 0 then [x] else [])" "listen_pcbs ?v = ls"
    "active_pcbs ?v = []" "tw_pcbs ?v = []" "calls ?v = calls ?w @ (if e = ERR_OK then [Timer_needed] else [])"
    using assms(1,2,4) bind(2) by (auto simp: p1_def say_def tcp_idle_def fun_upd_idem)
  have q1: "pcbs ?v x = Some p1" "st p1 = CLOSED" "addr_type (local_ip p1) = addr_type any"
    using v(1) assms(3,11) bind(3) by (auto simp: p1_def ip_addr_set_def)
  have b1: "run_tcp_r (tcp_bind x any 0) b = Some (e, b\<lparr>tw := ?v\<rparr>)" 
    using run_tcp_r_quiet [of "tcp_bind x any 0" b e ?v "if e = ERR_OK then [Timer_needed] else []"] bind(1) v(7) by auto
  let ?u = "say [Timer_needed] (?v\<lparr>bound_pcbs := [], pm := (pm ?v)\<lparr>tabs := (tabs (pm ?v))(MEMP_TCP_PCB_LISTEN := lr,
      MEMP_TCP_PCB := x # tabs (pm ?v) MEMP_TCP_PCB)\<rparr>, pcbs := (pcbs ?v)(x := None, l \<mapsto> listen_pcb p1), listen_pcbs := l # listen_pcbs ?v\<rparr>)"
  have "tcp_listen_with_backlog x (tw (b\<lparr>tw := ?v\<rparr>)) = Some (Some l, ?u)"
    using listen_step [OF q1(1,2) _ assms(6-8) v(3)] assms(5) v(2) by simp
  then have b2: "run_tcp_r (tcp_listen_with_backlog x) (b\<lparr>tw := ?v\<rparr>) = Some (Some l, b\<lparr>tw := ?u\<rparr>)"
    using run_tcp_r_quiet [of "tcp_listen_with_backlog x" "b\<lparr>tw := ?v\<rparr>" "Some l" ?u "[Timer_needed]"] by simp
  define q where "q = (listen_pcb p1)\<lparr>local_port := 0, accept_cb := True\<rparr>"
  define w' where "w' = ?u\<lparr>pcbs := (pcbs ?v)(x := None, l \<mapsto> q)\<rparr>"
  have "tcp_accept (Some l) True (tw (set_port l 0 (b\<lparr>tw := ?u\<rparr>))) = Some w'"
    by (simp add: tcp_accept_def set_port_def upd_pcb_def say_def w'_def q_def listen_pcb_def)
  moreover have "calls w' = calls (tw (set_port l 0 (b\<lparr>tw := ?u\<rparr>)))" by (simp add: w'_def set_port_def upd_pcb_def say_def)
  ultimately have b3: "run_tcp (tcp_accept (Some l) True) (set_port l 0 (b\<lparr>tw := ?u\<rparr>)) = Some (b\<lparr>tw := w'\<rparr>)"
    using run_tcp_quiet [of "tcp_accept (Some l) True" "set_port l 0 (b\<lparr>tw := ?u\<rparr>)" w' "[]"] by (simp add: set_port_def)
  have "start_tcp any (Some x) b = Some (Some l, b\<lparr>tw := w'\<rparr>)" using b1 b2 b3 by (simp add: start_tcp_def)
  moreover have "listens ?w x l (addr_type any) ls lr (tabs (pm ?w) MEMP_TCP_PCB) w'"
    unfolding listens_def
  proof (intro conjI)
    have "pcbs ?v l' = pcbs ?w l'" if "l' \<in> set ls" for l' using v(1) assms(9) that by auto
    then show "tcp_idle w' (l # ls)" using v(4-6) assms(1,9,10) by (auto simp: tcp_idle_def w'_def say_def)
    show "\<exists>q. pcbs w' = (pcbs ?w)(x := None, l \<mapsto> q) \<and> st q = LISTEN \<and> local_port q = 0 \<and> accept_cb q \<and> addr_type (local_ip q) = addr_type any"
      using v(1) q1(3) by (intro exI [of _ q]) (simp add: w'_def q_def listen_pcb_def)
  qed (simp_all add: w'_def v(2) say_def)
  ultimately show ?thesis by blast
qed

text \<open>A new pcb becomes the listener of one IP version; the element of the pool it came from is free again.\<close>

definition catches :: "tcp_pcb \<Rightarrow> u8 \<Rightarrow> bool" where
  "catches q ty \<longleftrightarrow> st q = LISTEN \<and> local_port q = 0 \<and> accept_cb q \<and> addr_type (local_ip q) = ty"

lemma tcp_new_steps:
  assumes "tabs (pm w) MEMP_TCP_PCB = x # xs" "x mod 8 = 0"
  shows "\<exists>p. tcp_new send_fin w = Some (Some x, w\<lparr>pm := (pm w)\<lparr>tabs := (tabs (pm w))(MEMP_TCP_PCB := xs)\<rparr>, pcbs := (pcbs w)(x \<mapsto> p)\<rparr>) \<and>
      st p = CLOSED \<and> local_port p = 0 \<and> addr_type (local_ip p) = IPADDR_TYPE_V4"
    "\<exists>p. tcp_new_ip_type send_fin ty w = Some (Some x, w\<lparr>pm := (pm w)\<lparr>tabs := (tabs (pm w))(MEMP_TCP_PCB := xs)\<rparr>, pcbs := (pcbs w)(x \<mapsto> p)\<rparr>) \<and>
      st p = CLOSED \<and> local_port p = 0 \<and> addr_type (local_ip p) = ty"
proof -
  let ?w = "w\<lparr>pm := (pm w)\<lparr>tabs := (tabs (pm w))(MEMP_TCP_PCB := xs)\<rparr>\<rparr>"
  let ?p = "fresh_pcb TCP_PRIO_NORMAL ?w"
  have a: "tcp_alloc send_fin TCP_PRIO_NORMAL w = Some (Some x, ?w\<lparr>pcbs := (pcbs w)(x \<mapsto> ?p)\<rparr>)"
    using assms by (simp add: tcp_alloc_def take_pcb_def memp_malloc_def do_memp_malloc_pool_def MEM_ALIGNMENT_def retry_def)
  have p: "st ?p = CLOSED" "local_port ?p = 0" "addr_type (local_ip ?p) = IPADDR_TYPE_V4" by (simp_all add: fresh_pcb_def zero_pcb_def IPADDR_TYPE_V4_def)
  show "\<exists>p. tcp_new send_fin w = Some (Some x, ?w\<lparr>pcbs := (pcbs w)(x \<mapsto> p)\<rparr>) \<and> st p = CLOSED \<and> local_port p = 0 \<and> addr_type (local_ip p) = IPADDR_TYPE_V4"
    using a p by (intro exI [of _ ?p]) (simp add: tcp_new_def)
  show "\<exists>p. tcp_new_ip_type send_fin ty w = Some (Some x, ?w\<lparr>pcbs := (pcbs w)(x \<mapsto> p)\<rparr>) \<and> st p = CLOSED \<and> local_port p = 0 \<and> addr_type (local_ip p) = ty"
    using a p by (intro exI [of _ "?p\<lparr>local_ip := (local_ip ?p)\<lparr>addr_type := ty\<rparr>, remote_ip := (remote_ip ?p)\<lparr>addr_type := ty\<rparr>\<rparr>"])
      (simp add: tcp_new_ip_type_def upd_pcb_def)
qed

lemma tcp_listener:
  assumes "tcp_idle (tw b) ls" "tabs (mem_of b) MEMP_TCP_PCB = x # xs" "tabs (mem_of b) MEMP_TCP_PCB_LISTEN = l # lr" "l mod 8 = 0" "x mod 8 = 0" "l \<noteq> x"
    "x \<notin> set ls" "l \<notin> set ls"
    "new (tw b) = Some (Some x, (tw b)\<lparr>pm := (mem_of b)\<lparr>tabs := (tabs (mem_of b))(MEMP_TCP_PCB := xs)\<rparr>, pcbs := (pcbs (tw b))(x \<mapsto> p)\<rparr>)"
    "st p = CLOSED" "local_port p = 0" "addr_type any = addr_type (local_ip p)"
  shows "\<exists>w1 w2 q. run_tcp_r new b = Some (Some x, b\<lparr>tw := w1\<rparr>) \<and> start_tcp any (Some x) (b\<lparr>tw := w1\<rparr>) = Some (Some l, b\<lparr>tw := w2\<rparr>) \<and>
    tcp_idle w2 (l # ls) \<and> pcbs w2 = (pcbs (tw b))(x := None, l \<mapsto> q) \<and> catches q (addr_type any) \<and>
    tabs (pm w2) = (tabs (mem_of b))(MEMP_TCP_PCB_LISTEN := lr)"
proof -
  let ?w1 = "(tw b)\<lparr>pm := (mem_of b)\<lparr>tabs := (tabs (mem_of b))(MEMP_TCP_PCB := xs)\<rparr>, pcbs := (pcbs (tw b))(x \<mapsto> p)\<rparr>"
  let ?b1 = "b\<lparr>tw := ?w1\<rparr>"
  have r: "run_tcp_r new b = Some (Some x, ?b1)" using run_tcp_r_quiet [of new b "Some x" ?w1 "[]"] assms(9) by simp
  have i: "tcp_idle (tw ?b1) ls" using assms(1,7) by (auto simp: tcp_idle_def)
  have l: "tabs (pm (tw ?b1)) MEMP_TCP_PCB_LISTEN = l # lr" and y: "pcbs (tw ?b1) x = Some p" using assms(3) by simp_all
  obtain w2 where w2: "start_tcp any (Some x) ?b1 = Some (Some l, ?b1\<lparr>tw := w2\<rparr>)" "listens ?w1 x l (addr_type any) ls lr xs w2"
    using start_tcp_spec [OF i y assms(10,11) l assms(4-8,12)] by auto
  have "tabs (pm w2) = (tabs (mem_of b))(MEMP_TCP_PCB_LISTEN := lr)" using w2(2) assms(2) by (auto simp: listens_def fun_eq_iff)
  then show ?thesis using r w2 by (auto simp: listens_def catches_def)
qed

section \<open>The UDP listeners\<close>

lemma udp_init_range: "0xc000 \<le> udp_port (udp_init rand u)"
proof -
  define x :: u16 where "x = ucast rand"
  have "NOT 0xc000 = (mask 14 :: u16)" by (simp add: mask_eq_exp_minus_1)
  then have "x AND NOT 0xc000 = take_bit 14 x" by (simp add: take_bit_eq_mask)
  moreover have "unat (take_bit 14 x) < 0x4000" by (simp add: unsigned_take_bit_eq take_bit_nat_def)
  ultimately show ?thesis
    by (simp add: udp_init_def UDP_ENSURE_LOCAL_PORT_RANGE_def UDP_LOCAL_PORT_RANGE_START_def x_def [symmetric] word_le_nat_alt unat_word_ariths)
qed

lemma udp_listener:
  assumes "new (mem_of b, us b) = Some (Some a, m, (us b)\<lparr>upcbs := (upcbs (us b))(a \<mapsto> p)\<rparr>)" (is "_ = Some (_, _, ?u1)")
    "wf_udp (us b)" "0xc000 \<le> udp_port (us b)" "length (udp_pcbs (us b)) < 0x4000" "a \<notin> set (udp_pcbs (us b))"
  shows "\<exists>u2 q. run_udp_r new b = Some (Some a, (set_mem m b)\<lparr>us := ?u1\<rparr>) \<and> (\<forall>b'. us b' = ?u1 \<longrightarrow> start_udp any (Some a) b' = Some (b'\<lparr>us := u2\<rparr>)) \<and>
    udp_pcbs u2 = a # udp_pcbs (us b) \<and> upcbs u2 = (upcbs (us b))(a \<mapsto> q) \<and> u_recv q \<and> u_local_port q = 0 \<and> addr_type (u_local_ip q) = addr_type any \<and>
    0xc000 \<le> udp_port u2"
proof -
  have wf: "wf_udp ?u1" using assms(2) by (auto simp: wf_udp_def)
  obtain r where r: "udp_new_port ?u1 = Some (r, ?u1\<lparr>udp_port := r\<rparr>)" "0xc000 \<le> r" using new_port_spec [of ?u1] wf assms(3,4) by auto
  define q where "q = p\<lparr>u_local_ip := ip_addr_set any, u_local_port := 0, u_recv := True, u_recv_arg := 0\<rparr>"
  define u2 where "u2 = ?u1\<lparr>udp_port := r, upcbs := (upcbs (us b))(a \<mapsto> q), udp_pcbs := a # udp_pcbs (us b)\<rparr>"
  have r0: "r \<noteq> 0" using r(2) by auto
  have "udp_bind a any 0 ?u1 = Some (ERR_OK, ?u1\<lparr>udp_port := r, upcbs := (upcbs (us b))(a \<mapsto> p\<lparr>u_local_ip := ip_addr_set any, u_local_port := r\<rparr>),
      udp_pcbs := a # udp_pcbs (us b)\<rparr>)" using r r0 assms(5) by (simp add: udp_bind_def upd_upcb_def)
  then have "start_udp any (Some a) b' = Some (b'\<lparr>us := u2\<rparr>)" if "us b' = ?u1" for b' using that
    by (simp add: start_udp_def udp_recv_def upd_upcb_def u2_def q_def)
  moreover have "run_udp_r new b = Some (Some a, (set_mem m b)\<lparr>us := ?u1\<rparr>)" using assms(1) by (simp add: run_udp_r_def)
  ultimately show ?thesis using r(2) by (intro exI [of _ u2] exI [of _ q]) (simp add: u2_def q_def ip_addr_set_def)
qed

lemma udp_new_steps:
  assumes "tabs m MEMP_UDP_PCB = a # as" "a mod 8 = 0"
  shows "\<exists>p. udp_new (m, u) = Some (Some a, m\<lparr>tabs := (tabs m)(MEMP_UDP_PCB := as)\<rparr>, u\<lparr>upcbs := (upcbs u)(a \<mapsto> p)\<rparr>)"
    "\<exists>p. udp_new_ip_type ty (m, u) = Some (Some a, m\<lparr>tabs := (tabs m)(MEMP_UDP_PCB := as)\<rparr>, u\<lparr>upcbs := (upcbs u)(a \<mapsto> p)\<rparr>)"
  using assms by (auto simp: udp_new_def udp_new_ip_type_def memp_malloc_def do_memp_malloc_pool_def MEM_ALIGNMENT_def upd_upcb_def)

section \<open>The whole start\<close>

definition bring_up :: "bridge \<Rightarrow> bridge option" where
  "bring_up b = do {
     b \<leftarrow> run_net (\<lambda>s. map_option snd (netif_add 0 0 0 tun_netif_init_fn s)) b;
     b \<leftarrow> run_net (\<lambda>s. Some (on_nif netif_set_up (netif_set_default True s))) b;
     b \<leftarrow> run_net (netif_ip6_addr_set 0 [0, 0, 0, 0]) b;
     run_net (netif_ip6_addr_set_state 0 IP6_ADDR_VALID) b
   }"

definition listen_all :: "(nat \<Rightarrow> tcpw \<Rightarrow> err_t \<times> tcpw) \<Rightarrow> bridge \<Rightarrow> bridge option" where
  "listen_all send_fin b = do {
     (p, b) \<leftarrow> run_tcp_r (tcp_new send_fin) b;
     (l, b) \<leftarrow> start_tcp (ip_addr_set_any False) p b;
     let b = b\<lparr>tcp_listen_pcb_v4 := l\<rparr>;
     (p, b) \<leftarrow> run_tcp_r (tcp_new_ip_type send_fin IPADDR_TYPE_V6) b;
     (l, b) \<leftarrow> start_tcp (ip_addr_set_any True) p b;
     let b = b\<lparr>tcp_listen_pcb_v6 := l\<rparr>;
     (p, b) \<leftarrow> run_udp_r udp_new b;
     b \<leftarrow> start_udp (ip_addr_set_any False) p (b\<lparr>udp_listen_pcb_v4 := p\<rparr>);
     (p, b) \<leftarrow> run_udp_r (udp_new_ip_type IPADDR_TYPE_V6) b;
     start_udp (ip_addr_set_any True) p (b\<lparr>udp_listen_pcb_v6 := p\<rparr>)
   }"

lemma init_split:
  assumes "\<not> initialized b" "\<not> default_netif b"
  shows "lwip_bridge_init pools ru rt send_fin b =
    listen_all send_fin ((lwip_init pools ru rt b)\<lparr>initialized := True, tun_netif := tun_up (tun_netif b), default_netif := True\<rparr>)"
proof -
  let ?b0 = "(lwip_init pools ru rt b)\<lparr>initialized := True\<rparr>"
  have d: "\<not> default_netif ?b0" "tun_netif ?b0 = tun_netif b" using assms(2) by (simp_all add: lwip_init_def set_mem_def Let_def)
  have "lwip_bridge_init pools ru rt send_fin b = Option.bind (bring_up ?b0) (listen_all send_fin)"
    using assms(1) by (simp add: lwip_bridge_init_def bring_up_def listen_all_def [abs_def])
  also have "bring_up ?b0 = Some (?b0\<lparr>tun_netif := tun_up (tun_netif b), default_netif := True\<rparr>)" using netif_start [OF d(1)] d(2) by (simp add: bring_up_def)
  finally show ?thesis by simp
qed

lemma any_types: "addr_type (ip_addr_set_any False) = IPADDR_TYPE_V4" "addr_type (ip_addr_set_any True) = IPADDR_TYPE_V6"
  by (simp_all add: ip_addr_set_any_def IPADDR_TYPE_V4_def IPADDR_TYPE_V6_def)

lemma listen_all_spec:
  assumes "tcp_idle (tw b) []" "udp_pcbs (us b) = []" "0xc000 \<le> udp_port (us b)" "tabs (mem_of b) MEMP_TCP_PCB = x # xs"
    "tabs (mem_of b) MEMP_TCP_PCB_LISTEN = l4 # l6 # ls" "tabs (mem_of b) MEMP_UDP_PCB = d4 # d6 # ds"
    "x mod 8 = 0" "l4 mod 8 = 0" "l6 mod 8 = 0" "d4 mod 8 = 0" "d6 mod 8 = 0" "distinct [x, l4, l6]" "d4 \<noteq> d6"
  shows "\<exists>w u q4 q6 p4 p6. listen_all send_fin b = Some (b\<lparr>tw := w, us := u, tcp_listen_pcb_v4 := Some l4, tcp_listen_pcb_v6 := Some l6,
      udp_listen_pcb_v4 := Some d4, udp_listen_pcb_v6 := Some d6\<rparr>) \<and> tcp_idle w [l6, l4] \<and> pcbs w l4 = Some q4 \<and> catches q4 IPADDR_TYPE_V4 \<and>
    pcbs w l6 = Some q6 \<and> catches q6 IPADDR_TYPE_V6 \<and> udp_pcbs u = [d6, d4] \<and> upcbs u d4 = Some p4 \<and> upcbs u d6 = Some p6 \<and>
    u_recv p4 \<and> u_recv p6 \<and> u_local_port p4 = 0 \<and> u_local_port p6 = 0 \<and> addr_type (u_local_ip p4) = IPADDR_TYPE_V4 \<and>
    addr_type (u_local_ip p6) = IPADDR_TYPE_V6 \<and> tabs (pm w) = (tabs (mem_of b))(MEMP_TCP_PCB_LISTEN := ls, MEMP_UDP_PCB := ds)"
proof -
  obtain p where p: "tcp_new send_fin (tw b) = Some (Some x, (tw b)\<lparr>pm := (mem_of b)\<lparr>tabs := (tabs (mem_of b))(MEMP_TCP_PCB := xs)\<rparr>, pcbs := (pcbs (tw b))(x \<mapsto> p)\<rparr>)"
    "st p = CLOSED" "local_port p = 0" "addr_type (ip_addr_set_any False) = addr_type (local_ip p)"
    using tcp_new_steps(1) [of "tw b" x xs send_fin] assms(4,7) unfolding any_types by (auto simp: mem_of_def)
  have ne: "l4 \<noteq> x" "l6 \<noteq> x" "x \<notin> set [l4]" "l6 \<notin> set [l4]" "x \<notin> set []" "l4 \<notin> set []" using assms(12) by auto
  obtain w1 w2 q4 where s1: "run_tcp_r (tcp_new send_fin) b = Some (Some x, b\<lparr>tw := w1\<rparr>)" "start_tcp (ip_addr_set_any False) (Some x) (b\<lparr>tw := w1\<rparr>) = Some (Some l4, b\<lparr>tw := w2\<rparr>)"
    "tcp_idle w2 [l4]" "pcbs w2 = (pcbs (tw b))(x := None, l4 \<mapsto> q4)" "catches q4 IPADDR_TYPE_V4" "tabs (pm w2) = (tabs (mem_of b))(MEMP_TCP_PCB_LISTEN := l6 # ls)"
    using tcp_listener [where new = "tcp_new send_fin", OF assms(1,4,5,8,7) ne(1,5,6) p] unfolding any_types by (elim exE conjE) (rule that)
  let ?b2 = "b\<lparr>tw := w2, tcp_listen_pcb_v4 := Some l4\<rparr>"
  have t2: "tabs (mem_of ?b2) MEMP_TCP_PCB = x # xs" "tabs (mem_of ?b2) MEMP_TCP_PCB_LISTEN = l6 # ls" "tcp_idle (tw ?b2) [l4]"
    using s1(3,6) assms(4) by (simp_all add: mem_of_def)
  obtain p' where p': "tcp_new_ip_type send_fin IPADDR_TYPE_V6 (tw ?b2) = Some (Some x, (tw ?b2)\<lparr>pm := (mem_of ?b2)\<lparr>tabs := (tabs (mem_of ?b2))(MEMP_TCP_PCB := xs)\<rparr>,
      pcbs := (pcbs (tw ?b2))(x \<mapsto> p')\<rparr>)" "st p' = CLOSED" "local_port p' = 0" "addr_type (ip_addr_set_any True) = addr_type (local_ip p')"
    using tcp_new_steps(2) [of "tw ?b2" x xs send_fin IPADDR_TYPE_V6] t2(1) assms(7) unfolding any_types by (auto simp: mem_of_def)
  obtain w3 w4 q6 where s2: "run_tcp_r (tcp_new_ip_type send_fin IPADDR_TYPE_V6) ?b2 = Some (Some x, ?b2\<lparr>tw := w3\<rparr>)"
    "start_tcp (ip_addr_set_any True) (Some x) (?b2\<lparr>tw := w3\<rparr>) = Some (Some l6, ?b2\<lparr>tw := w4\<rparr>)" "tcp_idle w4 [l6, l4]"
    "pcbs w4 = (pcbs (tw ?b2))(x := None, l6 \<mapsto> q6)" "catches q6 IPADDR_TYPE_V6" "tabs (pm w4) = (tabs (mem_of ?b2))(MEMP_TCP_PCB_LISTEN := ls)"
    using tcp_listener [where b = ?b2 and new = "tcp_new_ip_type send_fin IPADDR_TYPE_V6", OF t2(3,1,2) assms(9,7) ne(2-4) p'] unfolding any_types by (elim exE conjE) (rule that)
  let ?b4 = "b\<lparr>tw := w4, tcp_listen_pcb_v4 := Some l4, tcp_listen_pcb_v6 := Some l6\<rparr>"
  have t4: "tabs (mem_of ?b4) = (tabs (mem_of b))(MEMP_TCP_PCB_LISTEN := ls)" using s1(6) s2(6) by (simp add: mem_of_def fun_eq_iff)
  obtain r4 where r4: "udp_new (mem_of ?b4, us ?b4) = Some (Some d4, (mem_of ?b4)\<lparr>tabs := (tabs (mem_of ?b4))(MEMP_UDP_PCB := d6 # ds)\<rparr>,
      (us ?b4)\<lparr>upcbs := (upcbs (us ?b4))(d4 \<mapsto> r4)\<rparr>)"
    using udp_new_steps(1) [of "mem_of ?b4" d4 "d6 # ds" "us ?b4"] t4 assms(6,10) by auto
  obtain u2 p4 where s3: "run_udp_r udp_new ?b4 = Some (Some d4, (set_mem ((mem_of ?b4)\<lparr>tabs := (tabs (mem_of ?b4))(MEMP_UDP_PCB := d6 # ds)\<rparr>) ?b4)
      \<lparr>us := (us ?b4)\<lparr>upcbs := (upcbs (us ?b4))(d4 \<mapsto> r4)\<rparr>\<rparr>)"
    "\<forall>b'. us b' = (us ?b4)\<lparr>upcbs := (upcbs (us ?b4))(d4 \<mapsto> r4)\<rparr> \<longrightarrow> start_udp (ip_addr_set_any False) (Some d4) b' = Some (b'\<lparr>us := u2\<rparr>)"
    "udp_pcbs u2 = d4 # udp_pcbs (us ?b4)" "upcbs u2 = (upcbs (us ?b4))(d4 \<mapsto> p4)" "u_recv p4" "u_local_port p4 = 0"
    "addr_type (u_local_ip p4) = IPADDR_TYPE_V4" "0xc000 \<le> udp_port u2"
    using udp_listener [where b = ?b4 and new = udp_new and any = "ip_addr_set_any False", OF r4] assms(2,3) unfolding any_types by (auto simp: wf_udp_def)
  let ?m5 = "(mem_of ?b4)\<lparr>tabs := (tabs (mem_of ?b4))(MEMP_UDP_PCB := d6 # ds)\<rparr>"
  let ?b5 = "(set_mem ?m5 ?b4)\<lparr>us := u2, udp_listen_pcb_v4 := Some d4\<rparr>"
  have m5: "mem_of ?b5 = ?m5" by (simp add: mem_of_def set_mem_def)
  obtain r6 where r6: "udp_new_ip_type IPADDR_TYPE_V6 (mem_of ?b5, us ?b5) = Some (Some d6, ?m5\<lparr>tabs := (tabs ?m5)(MEMP_UDP_PCB := ds)\<rparr>,
      (us ?b5)\<lparr>upcbs := (upcbs (us ?b5))(d6 \<mapsto> r6)\<rparr>)"
    using udp_new_steps(2) [of ?m5 d6 ds IPADDR_TYPE_V6 "us ?b5"] m5 assms(11) by auto
  have wf5: "wf_udp (us ?b5)" "d6 \<notin> set (udp_pcbs (us ?b5))" using s3(3,4) assms(2,13) by (simp_all add: wf_udp_def)
  obtain u4 p6 where s4: "run_udp_r (udp_new_ip_type IPADDR_TYPE_V6) ?b5 = Some (Some d6, (set_mem (?m5\<lparr>tabs := (tabs ?m5)(MEMP_UDP_PCB := ds)\<rparr>) ?b5)
      \<lparr>us := (us ?b5)\<lparr>upcbs := (upcbs (us ?b5))(d6 \<mapsto> r6)\<rparr>\<rparr>)"
    "\<forall>b'. us b' = (us ?b5)\<lparr>upcbs := (upcbs (us ?b5))(d6 \<mapsto> r6)\<rparr> \<longrightarrow> start_udp (ip_addr_set_any True) (Some d6) b' = Some (b'\<lparr>us := u4\<rparr>)"
    "udp_pcbs u4 = d6 # udp_pcbs (us ?b5)" "upcbs u4 = (upcbs (us ?b5))(d6 \<mapsto> p6)" "u_recv p6" "u_local_port p6 = 0"
    "addr_type (u_local_ip p6) = IPADDR_TYPE_V6"
    using udp_listener [where b = ?b5 and new = "udp_new_ip_type IPADDR_TYPE_V6" and any = "ip_addr_set_any True", OF r6 wf5(1) _ _ wf5(2)] s3(3,8) assms(2) unfolding any_types by auto
  let ?w = "w4\<lparr>pm := ?m5\<lparr>tabs := (tabs ?m5)(MEMP_UDP_PCB := ds)\<rparr>\<rparr>"
  have run: "listen_all send_fin b = Some (b\<lparr>tw := ?w, us := u4, tcp_listen_pcb_v4 := Some l4, tcp_listen_pcb_v6 := Some l6,
      udp_listen_pcb_v4 := Some d4, udp_listen_pcb_v6 := Some d6\<rparr>)"
    using s1(1,2) s2(1,2) s3(1,2) s4(1,2) by (cases b) (simp add: listen_all_def set_mem_def mem_of_def)
  show ?thesis
    by (intro exI [of _ ?w] exI [of _ u4] exI [of _ q4] exI [of _ q6] exI [of _ p4] exI [of _ p6] conjI)
      (use run s1 s2 s3 s4 t4 ne assms(2,13) in \<open>auto simp: tcp_idle_def fun_eq_iff\<close>)
qed


definition boot_bridge :: bridge where
  "boot_bridge = sample_bridge\<lparr>tw := sample_tcpw\<lparr>active_pcbs := [], tw_pcbs := [], bound_pcbs := [], listen_pcbs := []\<rparr>,
     us := sample_udp\<lparr>udp_pcbs := []\<rparr>, default_netif := False, initialized := False\<rparr>"

definition boot_pools :: "memp_t \<Rightarrow> memp_desc" where
  "boot_pools t = (if t = MEMP_TCP_PCB then LWIP_MEMPOOL_DECLARE 1 200 0x1000 else if t = MEMP_TCP_PCB_LISTEN then LWIP_MEMPOOL_DECLARE 2 80 0x2000
     else if t = MEMP_UDP_PCB then LWIP_MEMPOOL_DECLARE 2 64 0x3000 else LWIP_MEMPOOL_DECLARE 0 8 0)"

lemma boot_pools_init:
  "memp_init boot_pools MEMP_TCP_PCB = [0x1000]" "memp_init boot_pools MEMP_TCP_PCB_LISTEN = [0x2050, 0x2000]" "memp_init boot_pools MEMP_UDP_PCB = [0x3040, 0x3000]"
  by (simp_all add: memp_init_def memp_init_pool_def boot_pools_def LWIP_MEMPOOL_DECLARE_def LWIP_MEM_ALIGN_SIZE_def LWIP_MEM_ALIGN_def MEM_ALIGNMENT_def numeral_2_eq_2)


end
