(* ===== verification/Bridge_Stop.thy ===== *)
theory Bridge_Stop
  imports Bridge_Start Bridge_Tcp
begin

text \<open>
  Stopping and restarting the stack. A shutdown ends every connection, takes the listeners away and gives all their memory back; starting again after
  it, which \<^verbatim>\<open>lwip_bridge_init\<close> does by itself on a stack that still runs, leads to the same ready state as the first start.
\<close>

section \<open>The steps of a shutdown\<close>

lemma close_listener_step:
  assumes "pcbs (tw b) l = Some q" "st q = LISTEN" "l mod 8 = 0" "active_pcbs (tw b) = []" "tw_pcbs (tw b) = []" "bound_pcbs (tw b) = []"
  shows "close_listener send_fin (Some l) b = Some (b\<lparr>tw := (tw b)\<lparr>pm := (pm (tw b))\<lparr>tabs := (tabs (pm (tw b)))(MEMP_TCP_PCB_LISTEN :=
      l # tabs (pm (tw b)) MEMP_TCP_PCB_LISTEN)\<rparr>, pcbs := (pcbs (tw b))(l := None), listen_pcbs := TCP_RMV (listen_pcbs (tw b)) l\<rparr>\<rparr>)"
proof -
  let ?w = "(tw b)\<lparr>pm := (pm (tw b))\<lparr>tabs := (tabs (pm (tw b)))(MEMP_TCP_PCB_LISTEN := l # tabs (pm (tw b)) MEMP_TCP_PCB_LISTEN)\<rparr>,
    pcbs := (pcbs (tw b))(l := None), listen_pcbs := TCP_RMV (listen_pcbs (tw b)) l\<rparr>"
  have "tcp_close send_fin l (tw b) = Some (ERR_OK, ?w)"
    using assms by (cases "tw b") (simp add: Let_def tcp_close_def tcp_close_shutdown_def tcp_listen_closed_def tcp_pcb_remove_def tcp_pcb_purge_def assert_that_def tcp_free_listen_def
        free_pcb_def memp_free_def do_memp_free_pool_def MEM_ALIGNMENT_def upd_pcb_def)
  then show ?thesis using run_tcp_r_quiet [of "tcp_close send_fin l" b ERR_OK ?w "[]"] by (simp add: close_listener_def)
qed

lemma remove_listener_step:
  "d mod 8 = 0 \<Longrightarrow> remove_listener (Some d) b = Some ((set_mem ((mem_of b)\<lparr>tabs := (tabs (mem_of b))(MEMP_UDP_PCB := d # tabs (mem_of b) MEMP_UDP_PCB)\<rparr>) b)
     \<lparr>us := (us b)\<lparr>udp_pcbs := remove1 d (udp_pcbs (us b)), upcbs := (upcbs (us b))(d := None)\<rparr>\<rparr>)"
  by (simp add: remove_listener_def remove_in_def udp_remove_def memp_free_def do_memp_free_pool_def MEM_ALIGNMENT_def)

text \<open>An interface whose only addresses are the wildcards disappears without a trace in TCP and UDP.\<close>

definition only_wildcards :: "netif \<Rightarrow> bool" where
  "only_wildcards n \<longleftrightarrow> ni_ip_addr n = 0 \<and> (\<forall>(a, s) \<in> set (ip6_slots n). ip6_addr_isvalid s \<longrightarrow> a = [0, 0, 0, 0])"

lemma addrs_gone_quiet: "\<forall>(a, s) \<in> set xs. ip6_addr_isvalid s \<longrightarrow> a = [0, 0, 0, 0] \<Longrightarrow> addrs_gone xs s = Some s"
proof (induction xs)
  case (Cons x xs)
  have "netif_do_ip_addr_changed (six [0, 0, 0, 0]) None s = Some s"
    by (simp add: netif_do_ip_addr_changed_def tcp_netif_ip_addr_changed_def ip_addr_isany_def six_def ip_2_ip6_def)
  then show ?case using Cons by (cases x) auto
qed simp

lemma set_down_simps [simp]:
  "\<not> netif_is_up (netif_set_down n)" "ni_ip_addr (netif_set_down n) = ni_ip_addr n" "ip6_slots (netif_set_down n) = ip6_slots n"
proof -
  have "(f AND NOT 1) AND 1 = (0 :: u8)" for f by (simp add: and.assoc)
  then show "\<not> netif_is_up (netif_set_down n)" by (simp add: netif_is_up_def netif_set_down_def NETIF_FLAG_UP_def)
qed (simp_all add: netif_set_down_def ip6_slots_def)

lemma netif_remove_quiet:
  "only_wildcards (tun_netif b) \<Longrightarrow>
   run_net netif_remove (b\<lparr>tun_netif := netif_set_down (tun_netif b)\<rparr>) = Some (b\<lparr>tun_netif := netif_set_down (tun_netif b), default_netif := False\<rparr>)"
  by (subst run_net_quiet [where s = "\<lparr>nif = netif_set_down (tun_netif b), netif_default = False, nt = tw b, nu = us b\<rparr>"])
    (auto simp: net_of_def netif_remove_def only_wildcards_def addrs_gone_quiet netif_set_default_def Let_def)

section \<open>Shutdown\<close>

text \<open>A stack as the start leaves it, with connections in any state but pending ones of the application.\<close>

definition running :: "bridge \<Rightarrow> nat \<Rightarrow> nat \<Rightarrow> nat \<Rightarrow> nat \<Rightarrow> bool" where
  "running b l4 l6 d4 d6 \<longleftrightarrow> tcp_listen_pcb_v4 b = Some l4 \<and> tcp_listen_pcb_v6 b = Some l6 \<and> udp_listen_pcb_v4 b = Some d4 \<and> udp_listen_pcb_v6 b = Some d6 \<and>
     bound_pcbs (tw b) = [] \<and> listen_pcbs (tw b) = [l6, l4] \<and> udp_pcbs (us b) = [d6, d4] \<and> l4 \<noteq> l6 \<and> d4 \<noteq> d6 \<and>
     (\<forall>l \<in> {l4, l6}. l mod 8 = 0 \<and> (\<exists>q. pcbs (tw b) l = Some q \<and> st q = LISTEN)) \<and> d4 mod 8 = 0 \<and> d6 mod 8 = 0 \<and> only_wildcards (tun_netif b)"

text \<open>The memory and the TCP state a shutdown leaves.\<close>

definition stopped :: "bridge \<Rightarrow> nat list \<Rightarrow> nat \<Rightarrow> nat \<Rightarrow> nat \<Rightarrow> nat \<Rightarrow> nat list \<Rightarrow> tcpw \<Rightarrow> bool" where
  "stopped b conns l4 l6 d4 d6 bufs w \<longleftrightarrow> tcp_idle w [] \<and> pcbs w = pcbs (tw b) |` (- ({l4, l6} \<union> set conns)) \<and>
     set (tabs (pm w) MEMP_TCP_PCB) = set conns \<union> set (tabs (mem_of b) MEMP_TCP_PCB) \<and>
     (\<exists>lr. tabs (pm w) MEMP_TCP_PCB_LISTEN = l6 # l4 # lr \<and> set lr = set (tabs (mem_of b) MEMP_TCP_PCB_LISTEN)) \<and>
     (\<exists>dr. tabs (pm w) MEMP_UDP_PCB = d6 # d4 # dr \<and> set dr = set (tabs (mem_of b) MEMP_UDP_PCB)) \<and>
     gone (mem_of b) bufs (pm w) \<and> (\<forall>x. x \<notin> set bufs \<longrightarrow> pbufs (pm w) x = pbufs (mem_of b) x \<and> heap (pm w) x = heap (mem_of b) x)"

lemma listener_kept:
  assumes "conns_ok w as ps css" "\<forall>a \<in> set ts. time_wait_ok w a" "pcbs w l = Some q" "st q = LISTEN"
  shows "l \<notin> set (as @ ts)"
proof
  assume "l \<in> set (as @ ts)"
  moreover have "l \<notin> set as" using assms(1,3,4) by (auto simp: conns_ok_def list_all2_conv_all_nth in_set_conv_nth live_conn_def)
  moreover have "l \<notin> set ts" using assms(2-4) by (auto simp: time_wait_ok_def)
  ultimately show False by simp
qed

lemma shutdown_spec:
  assumes "running b l4 l6 d4 d6" "active_pcbs (tw b) = as" "conns_ok (tw b) as ps css" "tw_pcbs (tw b) = ts" "distinct (as @ ts)"
    "\<forall>a \<in> set ts. time_wait_ok (tw b) a"
  shows "\<exists>w. lwip_bridge_shutdown send_fin b = Some (b\<lparr>tw := w, us := (us b)\<lparr>udp_pcbs := [], upcbs := (upcbs (us b))(d4 := None, d6 := None)\<rparr>,
      tun_netif := netif_set_down (tun_netif b), default_netif := False, app := app b @ concat (map (err_calls (s_tcp_err_fn b)) ps),
      tcp_listen_pcb_v4 := None, tcp_listen_pcb_v6 := None, udp_listen_pcb_v4 := None, udp_listen_pcb_v6 := None\<rparr>) \<and>
    stopped b (as @ ts) l4 l6 d4 d6 (concat css) w"
proof -
  let ?app = "app b @ concat (map (err_calls (s_tcp_err_fn b)) ps)"
  note r = assms(1) [unfolded running_def]
  obtain q4 q6 where q: "pcbs (tw b) l4 = Some q4" "st q4 = LISTEN" "pcbs (tw b) l6 = Some q6" "st q6 = LISTEN" using r by auto
  have out: "l4 \<notin> set (as @ ts)" "l6 \<notin> set (as @ ts)"
    using listener_kept [OF assms(3,6) q(1,2)] listener_kept [OF assms(3,6) q(3,4)] by blast+
  obtain w where w: "lwip_bridge_abort_all_tcp b = Some (b\<lparr>tw := w, app := ?app\<rparr>)" "active_pcbs w = []" "tw_pcbs w = []"
    "pcbs w = pcbs (tw b) |` (- set (as @ ts))" "pcbs_returned (pm (tw b)) (as @ ts) (concat css) (pm w)" "others_same (tw b) w"
    using abort_all_spec [OF assms(2-6)] by blast
  have o: "listen_pcbs w = [l6, l4]" "bound_pcbs w = []" "pcbs w l4 = Some q4" "pcbs w l6 = Some q6" using w(4,6) r q out by (simp_all add: others_same_def)
  define m1 where "m1 = (pm w)\<lparr>tabs := (tabs (pm w))(MEMP_TCP_PCB_LISTEN := l4 # tabs (pm w) MEMP_TCP_PCB_LISTEN)\<rparr>"
  define w1 where "w1 = w\<lparr>pm := m1, pcbs := (pcbs w)(l4 := None), listen_pcbs := [l6]\<rparr>"
  define m2 where "m2 = m1\<lparr>tabs := (tabs m1)(MEMP_TCP_PCB_LISTEN := l6 # tabs m1 MEMP_TCP_PCB_LISTEN)\<rparr>"
  define w2 where "w2 = w1\<lparr>pm := m2, pcbs := (pcbs w1)(l6 := None), listen_pcbs := []\<rparr>"
  define m3 where "m3 = m2\<lparr>tabs := (tabs m2)(MEMP_UDP_PCB := d4 # tabs m2 MEMP_UDP_PCB)\<rparr>"
  define m4 where "m4 = m3\<lparr>tabs := (tabs m3)(MEMP_UDP_PCB := d6 # tabs m3 MEMP_UDP_PCB)\<rparr>"
  have c4: "close_listener send_fin (Some l4) (b\<lparr>tw := w, app := ?app\<rparr>) = Some (b\<lparr>tw := w1, app := ?app\<rparr>)"
    using r w(2,3) o q by (subst close_listener_step [where q = q4]) (auto simp: w1_def m1_def)
  have c6: "close_listener send_fin (Some l6) (b\<lparr>tw := w1, app := ?app, tcp_listen_pcb_v4 := None\<rparr>) = Some (b\<lparr>tw := w2, app := ?app, tcp_listen_pcb_v4 := None\<rparr>)"
    using r w(2,3) o q by (subst close_listener_step [where q = q6]) (auto simp: w1_def w2_def m2_def)
  let ?b2 = "b\<lparr>tw := w2, app := ?app, tcp_listen_pcb_v4 := None, tcp_listen_pcb_v6 := None\<rparr>"
  let ?u4 = "(us b)\<lparr>udp_pcbs := [d6], upcbs := (upcbs (us b))(d4 := None)\<rparr>"
  let ?u6 = "(us b)\<lparr>udp_pcbs := [], upcbs := (upcbs (us b))(d4 := None, d6 := None)\<rparr>"
  have pmw2: "pm w2 = m2" by (simp add: w2_def)
  have d4: "remove_listener (Some d4) ?b2 = Some (?b2\<lparr>tw := w2\<lparr>pm := m3\<rparr>, us := ?u4\<rparr>)"
    using r by (subst remove_listener_step) (auto simp: m3_def set_mem_def mem_of_def pmw2)
  have d6: "remove_listener (Some d6) (?b2\<lparr>tw := w2\<lparr>pm := m3\<rparr>, us := ?u4, udp_listen_pcb_v4 := None\<rparr>) =
      Some (?b2\<lparr>tw := w2\<lparr>pm := m4\<rparr>, us := ?u6, udp_listen_pcb_v4 := None\<rparr>)"
    using r by (subst remove_listener_step) (auto simp: m4_def set_mem_def mem_of_def)
  let ?b4 = "?b2\<lparr>tw := w2\<lparr>pm := m4\<rparr>, us := ?u6, udp_listen_pcb_v4 := None, udp_listen_pcb_v6 := None\<rparr>"
  have ow: "only_wildcards (tun_netif ?b4)" using r by simp
  have run: "lwip_bridge_shutdown send_fin b = Some (?b4\<lparr>tun_netif := netif_set_down (tun_netif b), default_netif := False\<rparr>)"
    using r w(1) c4 c6 d4 d6 netif_remove_quiet [OF ow] by (cases b) (simp add: lwip_bridge_shutdown_def Let_def)
  have t: "tabs m4 = (tabs (pm w))(MEMP_TCP_PCB_LISTEN := l6 # l4 # tabs (pm w) MEMP_TCP_PCB_LISTEN, MEMP_UDP_PCB := d6 # d4 # tabs (pm w) MEMP_UDP_PCB)"
    "pbufs m4 = pbufs (pm w)" "heap m4 = heap (pm w)"
    by (simp_all add: m1_def m2_def m3_def m4_def fun_eq_iff)
  have "stopped b (as @ ts) l4 l6 d4 d6 (concat css) (w2\<lparr>pm := m4\<rparr>)"
    unfolding stopped_def
  proof (intro conjI)
    show "tcp_idle (w2\<lparr>pm := m4\<rparr>) []" using w(2,3) o(2) by (simp add: tcp_idle_def w2_def w1_def)
    show "pcbs (w2\<lparr>pm := m4\<rparr>) = pcbs (tw b) |` (- ({l4, l6} \<union> set (as @ ts)))" by (auto simp: w2_def w1_def w(4) restrict_map_def fun_eq_iff)
  qed (use w(5) in \<open>auto simp: t pcbs_returned_def mem_of_def gone_def\<close>)
  then show ?thesis using run by (intro exI [of _ "w2\<lparr>pm := m4\<rparr>"]) (cases b, simp)
qed

text \<open>
  C14. Shutting down a running stack always succeeds, whatever connections and \<^verbatim>\<open>TIME_WAIT\<close> entries it has: no TCP pcb is left in any list and no UDP pcb
  is bound, the handles of the listeners are cleared, the interface is down and no longer the default one, each connection with an owner is
  reported to the application exactly once, the elements of all connections and listeners are back in their pools, and the queued buffers
  are gone unless someone else holds them while no other buffer changes.
\<close>

theorem bridge_shutdown_clean:
  assumes "running b l4 l6 d4 d6" "active_pcbs (tw b) = as" "conns_ok (tw b) as ps css" "tw_pcbs (tw b) = ts" "distinct (as @ ts)"
    "\<forall>a \<in> set ts. time_wait_ok (tw b) a"
  shows "\<exists>b'. lwip_bridge_shutdown send_fin b = Some b' \<and> tcp_listen_pcb_v4 b' = None \<and> tcp_listen_pcb_v6 b' = None \<and>
    udp_listen_pcb_v4 b' = None \<and> udp_listen_pcb_v6 b' = None \<and> udp_pcbs (us b') = [] \<and> \<not> netif_is_up (tun_netif b') \<and> \<not> default_netif b' \<and>
    app b' = app b @ concat (map (err_calls (s_tcp_err_fn b)) ps) \<and> stopped b (as @ ts) l4 l6 d4 d6 (concat css) (tw b')"
proof -
  obtain w where w: "lwip_bridge_shutdown send_fin b = Some (b\<lparr>tw := w, us := (us b)\<lparr>udp_pcbs := [], upcbs := (upcbs (us b))(d4 := None, d6 := None)\<rparr>,
      tun_netif := netif_set_down (tun_netif b), default_netif := False, app := app b @ concat (map (err_calls (s_tcp_err_fn b)) ps),
      tcp_listen_pcb_v4 := None, tcp_listen_pcb_v6 := None, udp_listen_pcb_v4 := None, udp_listen_pcb_v6 := None\<rparr>)" (is "_ = Some ?b")
    "stopped b (as @ ts) l4 l6 d4 d6 (concat css) w"
    using shutdown_spec [OF assms] by blast
  then show ?thesis by (intro exI [of _ ?b]) simp
qed

section \<open>Restart\<close>

lemma init_again:
  assumes "initialized b" "lwip_bridge_shutdown send_fin b = Some b1" "\<not> default_netif b1"
  shows "lwip_bridge_init pools ru rt send_fin b = listen_all send_fin (b1\<lparr>tun_netif := tun_up (tun_netif b1), default_netif := True\<rparr>)"
proof -
  have "lwip_bridge_init pools ru rt send_fin b = Option.bind (bring_up b1) (listen_all send_fin)"
    using assms(1,2) by (simp add: lwip_bridge_init_def bring_up_def listen_all_def [abs_def])
  then show ?thesis using netif_start [OF assms(3)] by (simp add: bring_up_def)
qed

lemma tun_up_wildcards: "only_wildcards (tun_up n)"
  by (simp add: only_wildcards_def tun_up_def ip6_slots_def netif_reset_def nd6_restart_netif_def LWIP_IPV6_NUM_ADDRESSES_def numeral_3_eq_3)


text \<open>A running stack with one established connection, two queued buffers and a pcb in \<^verbatim>\<open>TIME_WAIT\<close>.\<close>

definition live_bridge :: bridge where
  "live_bridge = sample_bridge\<lparr>tw := sample_tcpw\<lparr>pcbs := (pcbs sample_tcpw)(0x2050 \<mapsto> listen_pcb zero_pcb, 0x2000 \<mapsto> listen_pcb zero_pcb),
     listen_pcbs := [0x2000, 0x2050], bound_pcbs := []\<rparr>, us := sample_udp\<lparr>udp_pcbs := [0x80, 0x40]\<rparr>,
     tcp_listen_pcb_v4 := Some 0x2050, tcp_listen_pcb_v6 := Some 0x2000, udp_listen_pcb_v4 := Some 0x40, udp_listen_pcb_v6 := Some 0x80\<rparr>"

lemma live_bridge_facts:
  "running live_bridge 0x2050 0x2000 0x40 0x80" "active_pcbs (tw live_bridge) = [0x4000]" "tw_pcbs (tw live_bridge) = [0x4100]"
  "conns_ok (tw live_bridge) [0x4000] [sample_conn ESTABLISHED (Some 0x1000)] [[0x1000, 0x2000]]" "\<forall>a \<in> set [0x4100]. time_wait_ok (tw live_bridge) a"
  "distinct ([0x4000] @ [0x4100 :: nat])"
  by (simp_all add: live_bridge_def running_def only_wildcards_def ip6_slots_def listen_pcb_def sample_udp_def conns_ok_def time_wait_ok_def sample_bridge_def
      sample_tcpw_def sample_conn_def zero_pcb_def live_conn_def held_def pcb_pbufs_def sample_mem_def owned_def pbuf_get_allocsrc_def)

theorem bridge_shutdown_clean_witness:
  "\<exists>b'. lwip_bridge_shutdown (\<lambda>a w. (ERR_MEM, w)) live_bridge = Some b' \<and> app b' = [App_tcp_err 77 ERR_ABRT] \<and> listen_pcbs (tw b') = [] \<and>
     pcbs (tw b') 0x4000 = None \<and> 0x4000 \<in> set (tabs (pm (tw b')) MEMP_TCP_PCB) \<and> \<not> netif_is_up (tun_netif b')"
proof -
  have "app live_bridge @ concat (map (err_calls (s_tcp_err_fn live_bridge)) [sample_conn ESTABLISHED (Some 0x1000)]) = [App_tcp_err 77 ERR_ABRT]"
    by (simp add: live_bridge_def sample_bridge_def err_calls_def sample_conn_def)
  then show ?thesis
    using bridge_shutdown_clean [OF live_bridge_facts(1,2,4,3,6,5), of "\<lambda>a w. (ERR_MEM, w)"] by (auto simp: stopped_def tcp_idle_def)
qed


end
