(* ===== verification/Spec2Isabelle.thy ===== *)
theory Spec2Isabelle
  imports X25519 Blake3_JNI TLS_KDF Yaml_Json Udp_Out Bridge_Tcp Bridge_Safety Tcp_Window Tcp_Types Bridge_Stop
begin

text \<open>
  A verification library for the native code of Anywhere for Android.
\<close>

end
